(* ===== verification/Prelude.thy ===== *)
theory Prelude
  imports Main "HOL-Library.Code_Target_Nat" "HOL-Library.AList" "HOL-Library.Multiset" "HOL-Library.Char_ord" "HOL-Library.List_Lexorder" "HOL-Library.Word"
begin

text \<open>
  Shared vocabulary of the development: results of fallible operations, loops that stop at
  the first error, Go maps used as sets, and the generic lemmas the components share.

  Conventions used in every theory:
  \<^item> a Go \<open>string\<close> is a byte sequence, here \<open>string = char list\<close> (a \<open>char\<close> is a byte); the
    order on strings is the lexicographic order of bytes, which is what \<open>sort.Strings\<close> uses;
  \<^item> a Go \<open>(value, error)\<close> result is a sum \<open>'e + 'a\<close>, \<open>Inl\<close> for the error;
  \<^item> a Go \<open>map[string]bool\<close> that is used as a set is a list without duplicates; the order in
    which Go iterates over it is unspecified, so functions whose result depends on that order
    take a permutation oracle (predicate \<open>iteration_order\<close>).
\<close>

section \<open>Collections of rewrite rules\<close>

named_theorems go_defs \<open>definitions of small string and list operations\<close>
named_theorems sorted_simps \<open>facts on sorted duplicate-free lists\<close>
named_theorems res_simps \<open>facts on loops over fallible operations\<close>

section \<open>Loops that return at the first error\<close>

text \<open>
  \<open>for _, x := range xs { y, err := f(x); if err != nil { return err }; out = append(out, y) }\<close>
\<close>

fun try_map :: "('a \<Rightarrow> 'e + 'b) \<Rightarrow> 'a list \<Rightarrow> 'e + 'b list" where
  "try_map f [] = Inr []"
| "try_map f (x # xs) =
     (case f x of
        Inl e \<Rightarrow> Inl e
      | Inr y \<Rightarrow> (case try_map f xs of Inl e \<Rightarrow> Inl e | Inr ys \<Rightarrow> Inr (y # ys)))"

lemma try_map_Inr_iff [res_simps]:
  "try_map f xs = Inr ys \<longleftrightarrow> map f xs = map Inr ys"
proof (induction xs arbitrary: ys)
  case Nil
  then show ?case by auto
next
  case (Cons x xs)
  show ?case
  proof (cases "try_map f xs")
    case (Inl e)
    then show ?thesis using Cons.IH by (cases ys) (auto split: sum.splits)
  next
    case (Inr zs)
    then show ?thesis using Cons.IH [of zs] by (cases ys) (auto split: sum.splits)
  qed
qed

lemma try_map_length: "try_map f xs = Inr ys \<Longrightarrow> length ys = length xs"
  by (metis length_map try_map_Inr_iff)

lemma try_map_set:
  assumes "try_map f xs = Inr ys" "y \<in> set ys"
  shows "\<exists>x \<in> set xs. f x = Inr y"
proof -
  have "Inr y \<in> set (map f xs)"
    using assms by (simp add: try_map_Inr_iff)
  then show ?thesis by (auto simp: image_iff)
qed

lemma try_map_fixed: "(\<And>x. x \<in> set xs \<Longrightarrow> f x = Inr x) \<Longrightarrow> try_map f xs = Inr xs"
  by (simp add: try_map_Inr_iff)

lemma try_map_Inl:
  "try_map f xs = Inl e \<Longrightarrow> \<exists>x \<in> set xs. f x = Inl e"
  by (induction xs) (auto split: sum.splits)

text \<open>The loop without a result: the first error, or success.\<close>

fun try_all :: "('a \<Rightarrow> 'e option) \<Rightarrow> 'a list \<Rightarrow> 'e option" where
  "try_all f [] = None"
| "try_all f (x # xs) = (case f x of Some e \<Rightarrow> Some e | None \<Rightarrow> try_all f xs)"

lemma try_all_None_iff [res_simps]: "try_all f xs = None \<longleftrightarrow> (\<forall>x \<in> set xs. f x = None)"
  by (induction xs) (auto split: option.splits)

section \<open>Go maps used as sets, and their iteration order\<close>

text \<open>\<open>m[k] = true\<close>\<close>

definition set_put :: "'a \<Rightarrow> 'a list \<Rightarrow> 'a list" where
  "set_put x m = (if x \<in> set m then m else m @ [x])"

text \<open>A loop that puts every element of a list into the map.\<close>

fun set_put_all :: "'a list \<Rightarrow> 'a list \<Rightarrow> 'a list" where
  "set_put_all [] m = m"
| "set_put_all (x # xs) m = set_put_all xs (set_put x m)"

lemma set_set_put [simp]: "set (set_put x m) = insert x (set m)"
  by (auto simp: set_put_def)

lemma distinct_set_put [simp]: "distinct (set_put x m) \<longleftrightarrow> distinct m"
  by (auto simp: set_put_def)

lemma set_set_put_all [simp]: "set (set_put_all xs m) = set xs \<union> set m"
  by (induction xs arbitrary: m) auto

lemma distinct_set_put_all [simp]: "distinct (set_put_all xs m) \<longleftrightarrow> distinct m"
  by (induction xs arbitrary: m) auto

definition iteration_order :: "('a list \<Rightarrow> 'a list) \<Rightarrow> bool" where
  "iteration_order ord \<longleftrightarrow> (\<forall>xs. mset (ord xs) = mset xs)"

lemma iteration_order_set: "iteration_order ord \<Longrightarrow> set (ord xs) = set xs"
  unfolding iteration_order_def by (metis set_mset_mset)

lemma iteration_order_distinct: "iteration_order ord \<Longrightarrow> distinct (ord xs) = distinct xs"
  unfolding iteration_order_def by (metis mset_eq_imp_distinct_iff)

lemma iteration_order_length: "iteration_order ord \<Longrightarrow> length (ord xs) = length xs"
  unfolding iteration_order_def by (metis mset_eq_length)

lemma iteration_order_Nil: "iteration_order ord \<Longrightarrow> ord xs = [] \<longleftrightarrow> xs = []"
  using iteration_order_length [of ord xs] by fastforce

lemma iteration_order_id [simp]: "iteration_order (\<lambda>xs. xs)" "iteration_order id" "iteration_order rev"
  by (simp_all add: iteration_order_def)

section \<open>Sorted lists without duplicates\<close>

text \<open>
  Both packages of the source that sort keep lists strictly sorted; a strictly sorted list is
  determined by its set.
\<close>

definition strict_sorted :: "'a::linorder list \<Rightarrow> bool" where
  "strict_sorted xs \<longleftrightarrow> sorted xs \<and> distinct xs"

lemma strict_sorted_Nil [simp, intro]: "strict_sorted []"
  by (simp add: strict_sorted_def)

lemma strict_sorted_unique [sorted_simps]:
  "strict_sorted xs \<Longrightarrow> strict_sorted ys \<Longrightarrow> xs = ys \<longleftrightarrow> set xs = set ys"
  by (auto simp: strict_sorted_def intro: sorted_distinct_set_unique)

lemma strict_sorted_sort [sorted_simps]: "strict_sorted (sort xs) \<longleftrightarrow> distinct xs"
  by (simp add: strict_sorted_def)

lemma strict_sorted_distinct [dest]: "strict_sorted xs \<Longrightarrow> distinct xs"
  by (simp add: strict_sorted_def)

lemma strict_sorted_sort_id [sorted_simps]: "strict_sorted xs \<Longrightarrow> sort xs = xs"
  by (simp add: strict_sorted_def sort_key_id_if_sorted sorted_sort_id)

lemma strict_sorted_filter [sorted_simps]: "strict_sorted xs \<Longrightarrow> strict_sorted (filter P xs)"
  by (simp add: strict_sorted_def sorted_filter [of id, simplified])

section \<open>Association lists as Go maps\<close>

lemma map_of_map_pair: "map_of (map (\<lambda>(k, v). (k, f v)) xs) k = map_option f (map_of xs k)"
  by (induction xs) auto

lemma map_of_map_key: "map_of (map (\<lambda>k. (k, f k)) xs) k = (if k \<in> set xs then Some (f k) else None)"
  by (induction xs) auto

lemma map_of_filter_value:
  "distinct (map fst xs) \<Longrightarrow>
   map_of (filter (\<lambda>(k, v). P v) xs) k = (case map_of xs k of None \<Rightarrow> None | Some v \<Rightarrow> if P v then Some v else None)"
  by (induction xs) (force split: option.splits simp: map_of_eq_None_iff)+

text \<open>Putting a new key in front of later entries, or in front of the map they extend\<close>

lemma map_of_map_None:
  "(\<And>x. fst (f x) = fst x) \<Longrightarrow> map_of (map f xs) n = None \<longleftrightarrow> n \<notin> fst ` set xs"
  by (simp add: map_of_eq_None_iff image_image)

lemma map_add_Cons:
  "map_of xs n = None \<Longrightarrow> m ++ map_of ((n, v) # xs) = m(n \<mapsto> v) ++ map_of xs"
  by (auto simp: fun_eq_iff map_add_def split: option.splits)

lemma dom_map_of_map: "(\<And>x. fst (f x) = fst x) \<Longrightarrow> dom (map_of (map f xs)) = fst ` set xs"
  by (simp add: dom_map_of_conv_image_fst image_image)

lemma map_add_hidden: "dom m \<subseteq> dom m' \<Longrightarrow> m ++ m' = m'"
  by (rule ext) (auto simp: map_add_def dom_def split: option.splits)

text \<open>Nested loops that append\<close>

lemma concat_map_concat: "concat (map g (concat (map h us))) = concat (map (\<lambda>u. concat (map g (h u))) us)"
  by (induction us) auto

lemma concat_concat_map: "concat (concat (map h us)) = concat (map (\<lambda>u. concat (h u)) us)"
  by (induction us) auto

lemma list_all_concat_map: "(\<And>x. x \<in> set xs \<Longrightarrow> list_all P (f x)) \<Longrightarrow> list_all P (concat (map f xs))"
  by (auto simp: list_all_iff)

text \<open>Updates of association lists and of lists\<close>

lemma set_update_cases: "x \<in> set (AList.update k v al) \<Longrightarrow> x = (k, v) \<or> x \<in> set al"
  by (induction al) (auto split: if_splits)

lemma listrel1_update: "(y, xs ! i) \<in> r \<Longrightarrow> i < length xs \<Longrightarrow> (xs[i := y], xs) \<in> listrel1 r"
  by (rule listrel1I [OF _ upd_conv_take_nth_drop id_take_nth_drop])

end
