(* ===== verification/Go_Strings.thy ===== *)
theory Go_Strings
  imports Prelude
begin

text \<open>
  The functions of Go's packages \<open>strings\<close> and \<open>strconv\<close> that the program calls, on byte
  strings, with the laws the components use: what a search finds, that splitting undoes
  joining, that \<open>Atoi\<close> reads back what \<open>Itoa\<close> printed, and that trimming and lower-casing
  leave lower-case host names alone.

  \<open>strings.ToLower\<close> of a string with a byte above 127 needs the Unicode tables of the Go
  runtime; that branch is the parameter \<open>unicode_lower\<close> of \<open>to_lower\<close>.
\<close>

section \<open>Bytes\<close>

abbreviation byte_of :: "char \<Rightarrow> nat" where
  "byte_of c \<equiv> of_char c"

definition is_digit :: "char \<Rightarrow> bool" where
  "is_digit c \<longleftrightarrow> 48 \<le> byte_of c \<and> byte_of c \<le> 57"

definition is_lower :: "char \<Rightarrow> bool" where
  "is_lower c \<longleftrightarrow> 97 \<le> byte_of c \<and> byte_of c \<le> 122"

definition is_upper :: "char \<Rightarrow> bool" where
  "is_upper c \<longleftrightarrow> 65 \<le> byte_of c \<and> byte_of c \<le> 90"

definition is_ascii :: "char \<Rightarrow> bool" where
  "is_ascii c \<longleftrightarrow> byte_of c < 128"

definition lower_byte :: "char \<Rightarrow> char" where
  "lower_byte c = (if is_upper c then char_of (byte_of c + 32) else c)"

definition digit_char :: "nat \<Rightarrow> char" where
  "digit_char n = char_of (48 + n)"

definition digit_val :: "char \<Rightarrow> nat" where
  "digit_val c = byte_of c - 48"

lemma byte_digit_char: "n < 10 \<Longrightarrow> byte_of (digit_char n) = 48 + n"
  by (simp add: digit_char_def)

lemma digit_val_char [simp]: "n < 10 \<Longrightarrow> digit_val (digit_char n) = n"
  by (simp add: digit_val_def byte_digit_char)

lemma is_digit_char [simp]: "n < 10 \<Longrightarrow> is_digit (digit_char n)"
  by (simp add: is_digit_def byte_digit_char)

lemma digit_val_less: "is_digit c \<Longrightarrow> digit_val c < 10"
  by (auto simp: is_digit_def digit_val_def)

section \<open>Prefixes, suffixes and searching\<close>

text \<open>\<open>strings.HasPrefix\<close>, \<open>strings.HasSuffix\<close>, \<open>strings.TrimSuffix\<close>\<close>

fun has_prefix :: "string \<Rightarrow> string \<Rightarrow> bool" where
  "has_prefix s [] = True"
| "has_prefix [] (p # ps) = False"
| "has_prefix (c # s) (p # ps) = (c = p \<and> has_prefix s ps)"

definition has_suffix :: "string \<Rightarrow> string \<Rightarrow> bool" where
  "has_suffix s p = has_prefix (rev s) (rev p)"

definition trim_suffix :: "string \<Rightarrow> string \<Rightarrow> string" where
  "trim_suffix s p = (if has_suffix s p then take (length s - length p) s else s)"

lemma has_prefix_iff: "has_prefix s p \<longleftrightarrow> (\<exists>t. s = p @ t)"
  by (induction s p rule: has_prefix.induct) auto

lemma has_suffix_iff: "has_suffix s p \<longleftrightarrow> (\<exists>t. s = t @ p)"
proof -
  have "(\<exists>t. rev s = rev p @ t) \<longleftrightarrow> (\<exists>t. s = t @ p)"
    by (metis rev_append rev_rev_ident)
  then show ?thesis by (simp add: has_suffix_def has_prefix_iff)
qed

lemma trim_suffix_append [simp]: "trim_suffix (s @ p) p = s"
  by (auto simp: trim_suffix_def has_suffix_iff)

lemma trim_suffix_cases: "trim_suffix s p = s \<or> s = trim_suffix s p @ p"
  by (auto simp: trim_suffix_def has_suffix_iff)

text \<open>\<open>strings.Index\<close> and \<open>strings.LastIndex\<close>; Go's \<open>-1\<close> is \<open>None\<close>.\<close>

fun index_of :: "string \<Rightarrow> string \<Rightarrow> nat option" where
  "index_of [] p = (if p = [] then Some 0 else None)"
| "index_of (c # s) p =
     (if has_prefix (c # s) p then Some 0 else map_option Suc (index_of s p))"

fun last_index_of :: "string \<Rightarrow> string \<Rightarrow> nat option" where
  "last_index_of [] p = (if p = [] then Some 0 else None)"
| "last_index_of (c # s) p =
     (case last_index_of s p of
        Some i \<Rightarrow> Some (Suc i)
      | None \<Rightarrow> if has_prefix (c # s) p then Some 0 else None)"

definition contains :: "string \<Rightarrow> string \<Rightarrow> bool" where
  "contains s p \<longleftrightarrow> index_of s p \<noteq> None"

text \<open>\<open>strings.Count\<close> for a one-byte separator\<close>

definition count_byte :: "char \<Rightarrow> string \<Rightarrow> nat" where
  "count_byte c s = length (filter (\<lambda>x. x = c) s)"

lemma index_of_byte_None: "index_of s [c] = None \<longleftrightarrow> c \<notin> set s"
  by (induction s) auto

lemma last_index_of_byte_None: "last_index_of s [c] = None \<longleftrightarrow> c \<notin> set s"
  by (induction s) (auto split: option.splits)

lemma index_of_Some: "index_of s p = Some i \<Longrightarrow> \<exists>t. s = take i s @ p @ t"
  by (induction s p arbitrary: i rule: index_of.induct)
    (auto simp: has_prefix_iff split: if_splits)

lemma index_of_byte_take: "index_of s [c] = Some i \<Longrightarrow> c \<notin> set (take i s) \<and> i < length s \<and> s ! i = c"
  by (induction s arbitrary: i) (auto split: if_splits)

lemma last_index_of_byte_drop:
  "last_index_of s [c] = Some i \<Longrightarrow> c \<notin> set (drop (Suc i) s) \<and> i < length s \<and> s ! i = c"
  by (induction s arbitrary: i)
    (auto split: if_splits option.splits simp: last_index_of_byte_None)

lemma index_of_None_multi: "index_of s (c # p) = None" if "c \<notin> set s"
  using that by (induction s) auto

section \<open>Splitting and joining\<close>

text \<open>\<open>strings.Split\<close> with a one-byte separator, and \<open>strings.Join\<close>\<close>

fun split_on :: "char \<Rightarrow> string \<Rightarrow> string list" where
  "split_on c [] = [[]]"
| "split_on c (x # xs) =
     (if x = c then [] # split_on c xs
      else (case split_on c xs of [] \<Rightarrow> [[x]] | y # ys \<Rightarrow> (x # y) # ys))"

fun join :: "string \<Rightarrow> string list \<Rightarrow> string" where
  "join sep [] = []"
| "join sep [x] = x"
| "join sep (x # y # xs) = x @ sep @ join sep (y # xs)"

lemma split_on_not_Nil [simp]: "split_on c s \<noteq> []"
  by (induction s) (auto split: list.splits)

lemma split_on_no_sep: "c \<notin> set s \<Longrightarrow> split_on c s = [s]"
  by (induction s) auto

lemma split_on_append: "c \<notin> set x \<Longrightarrow> split_on c (x @ c # s) = x # split_on c s"
  by (induction x) auto

lemma split_on_parts: "p \<in> set (split_on c s) \<Longrightarrow> c \<notin> set p \<and> set p \<subseteq> set s"
proof (induction s arbitrary: p)
  case Nil
  then show ?case by simp
next
  case (Cons x s)
  obtain y ys where s: "split_on c s = y # ys"
    by (cases "split_on c s") auto
  have y: "c \<notin> set y" "set y \<subseteq> set s" using Cons.IH [of y] s by simp_all
  have ys: "c \<notin> set q \<and> set q \<subseteq> set s" if "q \<in> set ys" for q
    using Cons.IH [of q] s that by simp
  show ?case
  proof (cases "x = c")
    case True
    then have "p = [] \<or> p = y \<or> p \<in> set ys" using Cons.prems s by simp
    then show ?thesis using y ys by auto
  next
    case False
    then have "p = x # y \<or> p \<in> set ys" using Cons.prems s by simp
    then show ?thesis using y ys False by auto
  qed
qed

lemma join_split: "join [c] (split_on c s) = s"
proof (induction s)
  case Nil
  then show ?case by simp
next
  case (Cons x s)
  obtain y ys where "split_on c s = y # ys"
    by (cases "split_on c s") auto
  with Cons show ?case by (cases ys) auto
qed

lemma split_join:
  "xs \<noteq> [] \<Longrightarrow> (\<And>x. x \<in> set xs \<Longrightarrow> c \<notin> set x) \<Longrightarrow> split_on c (join [c] xs) = xs"
proof (induction xs rule: induct_list012)
  case (3 x y zs)
  have "split_on c (x @ c # join [c] (y # zs)) = x # split_on c (join [c] (y # zs))"
    by (rule split_on_append) (simp add: 3)
  with 3 show ?case by simp
qed (auto simp: split_on_no_sep)

lemma set_join_subset: "set (join sep xs) \<subseteq> set sep \<union> \<Union> (set (map set xs))"
  by (induction sep xs rule: join.induct) auto

lemma split_on_dots_set: "set s \<subseteq> insert c (\<Union> (set (map set (split_on c s))))"
  using set_join_subset [of "[c]" "split_on c s"] by (auto simp: join_split)

section \<open>Trimming white space\<close>

text \<open>
  \<open>strings.TrimSpace\<close> removes the characters of \<open>unicode.IsSpace\<close> at both ends. Those
  characters are listed here by their UTF-8 encodings; decoding a rune at the start (or at
  the end) of a string gives such a character exactly when the encoding is a prefix (suffix).
\<close>

definition space_encodings :: "string list" where
  "space_encodings =
     map (map char_of)
       ([[9], [10], [11], [12], [13], [32],
         [0xC2, 0x85], [0xC2, 0xA0], [0xE1, 0x9A, 0x80],
         [0xE2, 0x80, 0x80], [0xE2, 0x80, 0x81], [0xE2, 0x80, 0x82], [0xE2, 0x80, 0x83],
         [0xE2, 0x80, 0x84], [0xE2, 0x80, 0x85], [0xE2, 0x80, 0x86], [0xE2, 0x80, 0x87],
         [0xE2, 0x80, 0x88], [0xE2, 0x80, 0x89], [0xE2, 0x80, 0x8A],
         [0xE2, 0x80, 0xA8], [0xE2, 0x80, 0xA9], [0xE2, 0x80, 0xAF],
         [0xE2, 0x81, 0x9F], [0xE3, 0x80, 0x80]] :: nat list list)"

text \<open>Strips leading blocks from a list of encodings, as long as one of them matches.\<close>

fun strip_encodings :: "nat \<Rightarrow> string list \<Rightarrow> string \<Rightarrow> string" where
  "strip_encodings 0 es s = s"
| "strip_encodings (Suc n) es s =
     (case find (has_prefix s) es of
        None \<Rightarrow> s
      | Some e \<Rightarrow> strip_encodings n es (drop (length e) s))"

definition trim_left :: "string \<Rightarrow> string" where
  "trim_left s = strip_encodings (length s) space_encodings s"

definition trim_right :: "string \<Rightarrow> string" where
  "trim_right s = rev (strip_encodings (length s) (map rev space_encodings) (rev s))"

definition trim_space :: "string \<Rightarrow> string" where
  "trim_space s = trim_right (trim_left s)"

text \<open>A byte that starts or ends no white-space encoding protects its end of the string.\<close>

definition solid :: "char \<Rightarrow> bool" where
  "solid c \<longleftrightarrow> (\<forall>e \<in> set space_encodings. hd e \<noteq> c \<and> last e \<noteq> c)"

lemma space_encodings_not_Nil: "e \<in> set space_encodings \<Longrightarrow> e \<noteq> []"
  by (auto simp: space_encodings_def)

lemma find_SomeD: "find P xs = Some x \<Longrightarrow> x \<in> set xs \<and> P x"
  by (auto simp: find_Some_iff)

lemma strip_encodings_stop:
  "(\<And>e. e \<in> set es \<Longrightarrow> \<not> has_prefix s e) \<Longrightarrow> strip_encodings n es s = s"
  by (cases n) (auto split: option.splits dest: find_SomeD)

lemma strip_encodings_suffix: "\<exists>t. s = t @ strip_encodings n es s"
proof (induction n es s rule: strip_encodings.induct)
  case (2 n es s)
  show ?case
  proof (cases "find (has_prefix s) es")
    case None
    then show ?thesis by simp
  next
    case (Some e)
    from 2 [OF Some] obtain t where "drop (length e) s = t @ strip_encodings n es (drop (length e) s)"
      by blast
    then have "s = (take (length e) s @ t) @ strip_encodings n es (drop (length e) s)"
      by (metis append.assoc append_take_drop_id)
    then show ?thesis unfolding strip_encodings.simps Some option.case by blast
  qed
qed simp

text \<open>The fuel is enough: one step removes at least one byte.\<close>

lemma strip_encodings_done:
  assumes "\<And>e. e \<in> set es \<Longrightarrow> e \<noteq> []" and "length s \<le> n" and "e \<in> set es"
  shows "\<not> has_prefix (strip_encodings n es s) e"
  using assms
proof (induction n es s rule: strip_encodings.induct)
  case (1 es s)
  then show ?case by (cases e) auto
next
  case (2 n es s)
  show ?case
  proof (cases "find (has_prefix s) es")
    case None
    then have "\<not> has_prefix s e" using 2(4) by (simp add: find_None_iff)
    with None show ?thesis by simp
  next
    case (Some e')
    then have "e' \<in> set es" by (simp add: find_SomeD)
    then have "e' \<noteq> []" using 2(2) by blast
    then have "length (drop (length e') s) \<le> n" using 2(3) by (cases e') auto
    with 2 Some show ?thesis by simp
  qed
qed

lemma has_prefix_append: "has_prefix t e \<Longrightarrow> has_prefix (t @ u) e"
  by (auto simp: has_prefix_iff)

lemma trim_left_done: "e \<in> set space_encodings \<Longrightarrow> \<not> has_prefix (trim_left s) e"
  unfolding trim_left_def by (rule strip_encodings_done) (auto dest: space_encodings_not_Nil)

lemma trim_right_done: "e \<in> set space_encodings \<Longrightarrow> \<not> has_suffix (trim_right s) e"
  unfolding trim_right_def has_suffix_def rev_rev_ident
  by (rule strip_encodings_done) (auto dest: space_encodings_not_Nil)

lemma trim_right_prefix: "\<exists>t. s = trim_right s @ t"
proof -
  obtain t where "rev s = t @ strip_encodings (length s) (map rev space_encodings) (rev s)"
    using strip_encodings_suffix by blast
  then have "s = trim_right s @ rev t"
    unfolding trim_right_def by (metis rev_append rev_rev_ident)
  then show ?thesis by blast
qed

lemma trim_space_clean:
  "e \<in> set space_encodings \<Longrightarrow> \<not> has_prefix (trim_space s) e \<and> \<not> has_suffix (trim_space s) e"
  unfolding trim_space_def
  by (metis trim_right_done trim_right_prefix has_prefix_append trim_left_done)

lemma trim_space_id:
  assumes "\<And>e. e \<in> set space_encodings \<Longrightarrow> \<not> has_prefix s e \<and> \<not> has_suffix s e"
  shows "trim_space s = s"
proof -
  have "trim_left s = s"
    unfolding trim_left_def by (rule strip_encodings_stop) (simp add: assms)
  moreover have "trim_right s = s"
    unfolding trim_right_def using assms
    by (subst strip_encodings_stop) (auto simp: has_suffix_def)
  ultimately show ?thesis by (simp add: trim_space_def)
qed

lemma trim_space_idem [simp]: "trim_space (trim_space s) = trim_space s"
  by (rule trim_space_id) (simp add: trim_space_clean)

lemma trim_space_Nil [simp]: "trim_space [] = []"
  by (simp add: trim_space_def trim_left_def trim_right_def)

lemma trim_space_solid:
  assumes "\<And>c. c \<in> set s \<Longrightarrow> solid c"
  shows "trim_space s = s"
proof (rule trim_space_id)
  fix e assume e: "e \<in> set space_encodings"
  then have ne: "e \<noteq> []" by (rule space_encodings_not_Nil)
  have "hd e \<notin> set s" "last e \<notin> set s"
    using assms e by (auto simp: solid_def)
  then show "\<not> has_prefix s e \<and> \<not> has_suffix s e"
    using ne by (cases e) (auto simp: has_prefix_iff has_suffix_iff)
qed

lemma set_trim_space: "set (trim_space s) \<subseteq> set s"
proof -
  obtain t where "trim_left s = trim_space s @ t"
    using trim_right_prefix [of "trim_left s"] by (auto simp: trim_space_def)
  moreover obtain u where "s = u @ trim_left s"
    using strip_encodings_suffix [of s "length s" space_encodings] by (auto simp: trim_left_def)
  ultimately show ?thesis by (metis set_append Un_upper1 Un_upper2 subset_trans)
qed

section \<open>Lower case\<close>

text \<open>\<open>strings.ToLower\<close>: the ASCII path, and the Unicode path as a parameter.\<close>

definition to_lower :: "(string \<Rightarrow> string) \<Rightarrow> string \<Rightarrow> string" where
  "to_lower unicode_lower s = (if list_all is_ascii s then map lower_byte s else unicode_lower s)"

text \<open>The bytes a host name may hold once it is validated.\<close>

definition host_char :: "char \<Rightarrow> bool" where
  "host_char c \<longleftrightarrow> is_lower c \<or> is_digit c \<or> c = CHR ''-'' \<or> c = CHR ''.''"

lemma host_char_byte:
  "host_char c \<Longrightarrow> (97 \<le> byte_of c \<and> byte_of c \<le> 122) \<or> (48 \<le> byte_of c \<and> byte_of c \<le> 57)
     \<or> byte_of c = 45 \<or> byte_of c = 46"
  by (auto simp: host_char_def is_lower_def is_digit_def)

lemma ascii_print_solid: "32 < byte_of c \<Longrightarrow> byte_of c < 127 \<Longrightarrow> solid c"
  by (auto simp: solid_def space_encodings_def)

lemma host_char_solid: "host_char c \<Longrightarrow> solid c"
  by (rule ascii_print_solid) (auto dest: host_char_byte)

lemma host_char_lower: "host_char c \<Longrightarrow> is_ascii c \<and> lower_byte c = c"
  by (auto dest!: host_char_byte simp: is_ascii_def lower_byte_def is_upper_def)

lemma to_lower_host: "list_all host_char s \<Longrightarrow> to_lower u s = s"
proof -
  assume h: "list_all host_char s"
  then have "list_all is_ascii s" by (auto simp: list_all_iff host_char_lower)
  moreover have "map lower_byte s = s"
    using h by (auto simp: list_all_iff host_char_lower intro: map_idI)
  ultimately show ?thesis by (simp add: to_lower_def)
qed

lemma trim_space_host: "list_all host_char s \<Longrightarrow> trim_space s = s"
  by (rule trim_space_solid) (auto simp: list_all_iff host_char_solid)

section \<open>Decimal numbers\<close>

text \<open>\<open>strconv.Itoa\<close>, which \<open>fmt\<close>'s \<open>%d\<close> also prints\<close>

fun nat_digits :: "nat \<Rightarrow> string" where
  "nat_digits n = (if n < 10 then [] else nat_digits (n div 10)) @ [digit_char (n mod 10)]"

declare nat_digits.simps [simp del]

definition itoa :: "int \<Rightarrow> string" where
  "itoa i = (if i < 0 then CHR ''-'' # nat_digits (nat (- i)) else nat_digits (nat i))"

text \<open>\<open>strconv.Atoi\<close> on a 64-bit platform: an optional sign, digits, and a range check\<close>

definition digits_value :: "string \<Rightarrow> nat" where
  "digits_value s = foldl (\<lambda>n c. 10 * n + digit_val c) 0 s"

definition atoi_unsigned :: "string \<Rightarrow> nat option" where
  "atoi_unsigned s = (if s = [] \<or> \<not> list_all is_digit s then None else Some (digits_value s))"

fun atoi :: "string \<Rightarrow> int option" where
  "atoi [] = None"
| "atoi (c # s) =
     (if c = CHR ''-'' then
        (case atoi_unsigned s of None \<Rightarrow> None | Some n \<Rightarrow> if n \<le> 2 ^ 63 then Some (- int n) else None)
      else
        (case atoi_unsigned (if c = CHR ''+'' then s else c # s) of
           None \<Rightarrow> None | Some n \<Rightarrow> if n < 2 ^ 63 then Some (int n) else None))"

text \<open>The values of Go's \<open>int\<close> (64 bits)\<close>

definition go_int :: "int \<Rightarrow> bool" where
  "go_int i \<longleftrightarrow> - (2 ^ 63) \<le> i \<and> i < 2 ^ 63"

lemma nat_digits_not_Nil [simp]: "nat_digits n \<noteq> []"
  by (subst nat_digits.simps) simp

lemma nat_digits_all_digits: "list_all is_digit (nat_digits n)"
proof (induction n rule: nat_digits.induct)
  case (1 n)
  then show ?case by (subst nat_digits.simps) simp
qed

lemma digits_value_snoc: "digits_value (s @ [c]) = 10 * digits_value s + digit_val c"
  by (simp add: digits_value_def)

lemma digits_value_nat_digits [simp]: "digits_value (nat_digits n) = n"
proof (induction n rule: nat_digits.induct)
  case (1 n)
  have "digits_value (if n < 10 then [] else nat_digits (n div 10)) = n div 10"
    using 1 by (simp add: digits_value_def)
  then show ?case by (subst nat_digits.simps) (simp add: digits_value_snoc)
qed

lemma atoi_unsigned_nat_digits [simp]: "atoi_unsigned (nat_digits n) = Some n"
  by (simp add: atoi_unsigned_def nat_digits_all_digits)

lemma nat_digits_hd: "nat_digits n = c # s \<Longrightarrow> is_digit c"
  using nat_digits_all_digits [of n] by simp

lemma not_digit_sign [simp]: "\<not> is_digit CHR ''-''" "\<not> is_digit CHR ''+''"
  by (simp_all add: is_digit_def)

lemma atoi_itoa: "go_int i \<Longrightarrow> atoi (itoa i) = Some i"
proof (cases "i < 0")
  case True
  assume "go_int i"
  then have "nat (- i) \<le> 2 ^ 63" by (simp add: go_int_def nat_le_iff)
  with True show ?thesis by (simp add: itoa_def)
next
  case False
  assume "go_int i"
  with False have n: "nat i < 2 ^ 63" by (simp add: go_int_def)
  obtain c s where cs: "nat_digits (nat i) = c # s"
    by (cases "nat_digits (nat i)") auto
  have "is_digit c" using cs by (rule nat_digits_hd)
  then have "c \<noteq> CHR ''-''" "c \<noteq> CHR ''+''" by auto
  then have "atoi (c # s) = (case atoi_unsigned (c # s) of
      None \<Rightarrow> None | Some n \<Rightarrow> if n < 2 ^ 63 then Some (int n) else None)"
    by simp
  with cs [symmetric] n False show ?thesis by (simp add: itoa_def)
qed

lemma nat_digits_inj: "nat_digits m = nat_digits n \<longleftrightarrow> m = n"
  by (metis digits_value_nat_digits)

lemma itoa_inj [simp]: "itoa i = itoa j \<longleftrightarrow> i = j"
proof
  assume e: "itoa i = itoa j"
  have "hd (nat_digits n) \<noteq> CHR ''-''" for n
    using nat_digits_hd [of n] by (cases "nat_digits n") auto
  then show "i = j"
    using e unfolding itoa_def
    by (auto simp: nat_digits_inj split: if_splits) (metis list.sel(1))+
qed simp

lemma atoi_range: "atoi s = Some i \<Longrightarrow> go_int i"
  by (cases s) (auto simp: go_int_def split: option.splits if_splits)

lemma set_itoa: "set (itoa i) \<subseteq> insert CHR ''-'' {c. is_digit c}"
  using nat_digits_all_digits by (auto simp: itoa_def list_all_iff)

lemma itoa_not_Nil [simp]: "itoa i \<noteq> []"
  by (simp add: itoa_def)

end
