(* ===== verification/Store.thy ===== *)
theory Store
  imports Go_Strings
begin

text \<open>
  \<open>internal/store/store.go\<close>: scopes, blocklists, and the directory tree that persists them.
  A directory is an association list from file names to nodes; a file holds a parsed JSON
  document (each list present or \<open>null\<close>) or bytes that do not parse. Every system call that
  can fail has a fault in \<open>store_io\<close>. Saving is the sequence of the system calls it makes,
  given by the list of the disks it passes through, so that a crash between any two calls can
  be stated. The locale \<open>blocklist_store\<close> is the contract the engine relies on.
\<close>

section \<open>Scopes and blocklists\<close>

record scope =
  Global :: bool
  UID :: int

definition GlobalScope :: scope where
  "GlobalScope = \<lparr>Global = True, UID = 0\<rparr>"

definition UserScope :: "int \<Rightarrow> scope" where
  "UserScope uid = \<lparr>Global = False, UID = uid\<rparr>"

lemma scope_sel [simp]:
  "Global GlobalScope" "UID GlobalScope = 0" "\<not> Global (UserScope u)" "UID (UserScope u) = u"
  by (simp_all add: GlobalScope_def UserScope_def)

definition Label :: "scope \<Rightarrow> string" where
  "Label s = (if Global s then ''global'' else ''user:'' @ itoa (UID s))"

record blocklist =
  Domains :: "string list"
  IPs :: "string list"

definition empty_blocklist :: blocklist where
  "empty_blocklist = \<lparr>Domains = [], IPs = []\<rparr>"

definition Clone :: "blocklist \<Rightarrow> blocklist" where
  "Clone b = \<lparr>Domains = [] @ Domains b, IPs = [] @ IPs b\<rparr>"

lemma Clone_same [simp]: "Clone b = b"
  by (simp add: Clone_def)

section \<open>List operations\<close>

text \<open>\<open>sortedUnique\<close>: drop empty strings and repetitions, then sort.\<close>

fun unique_loop :: "string set \<Rightarrow> string list \<Rightarrow> string list \<Rightarrow> string list" where
  "unique_loop seen out [] = out"
| "unique_loop seen out (v # vs) =
     (if v = [] \<or> v \<in> seen then unique_loop seen out vs
      else unique_loop (insert v seen) (out @ [v]) vs)"

definition sorted_unique :: "string list \<Rightarrow> string list" where
  "sorted_unique xs = sort (unique_loop {} [] xs)"

text \<open>\<open>addUnique\<close>: append what is not there yet and count it.\<close>

fun add_loop :: "string set \<Rightarrow> string list \<Rightarrow> nat \<Rightarrow> string list \<Rightarrow> string list \<times> nat" where
  "add_loop existing dst n [] = (dst, n)"
| "add_loop existing dst n (v # vs) =
     (if v \<in> existing then add_loop existing dst n vs
      else add_loop (insert v existing) (dst @ [v]) (n + 1) vs)"

definition add_unique :: "string list \<Rightarrow> string list \<Rightarrow> string list \<times> nat" where
  "add_unique dst add =
     (case add_loop (set dst) dst 0 add of (dst', n) \<Rightarrow> (sorted_unique dst', n))"

text \<open>
  \<open>removeAll\<close>: keep what is not listed and count what is dropped. \<open>out\<close> is a slice of the array the
  loop ranges over: with \<open>k\<close> elements left to read from position \<open>i\<close> on, what is kept is written to
  position \<open>j\<close> of the same array.
\<close>

fun remove_loop :: "string set \<Rightarrow> nat \<Rightarrow> nat \<Rightarrow> nat \<Rightarrow> nat \<Rightarrow> string list \<Rightarrow> string list \<times> nat \<times> nat" where
  "remove_loop rm 0 i j n arr = (arr, j, n)"
| "remove_loop rm (Suc k) i j n arr =
     (let v = arr ! i in
      if v \<in> rm then remove_loop rm k (i + 1) j (n + 1) arr
      else remove_loop rm k (i + 1) (j + 1) n (arr[j := v]))"

definition remove_all :: "string list \<Rightarrow> string list \<Rightarrow> string list \<times> nat" where
  "remove_all dst remove =
     (case remove_loop (set remove) (length dst) 0 0 0 dst of
        (arr, j, n) \<Rightarrow> (sorted_unique (take j arr), n))"

definition AddDomains :: "string list \<Rightarrow> blocklist \<Rightarrow> blocklist \<times> nat" where
  "AddDomains ds b = (case add_unique (Domains b) ds of (xs, n) \<Rightarrow> (b\<lparr>Domains := xs\<rparr>, n))"

definition AddIPs :: "string list \<Rightarrow> blocklist \<Rightarrow> blocklist \<times> nat" where
  "AddIPs is b = (case add_unique (IPs b) is of (xs, n) \<Rightarrow> (b\<lparr>IPs := xs\<rparr>, n))"

definition RemoveDomains :: "string list \<Rightarrow> blocklist \<Rightarrow> blocklist \<times> nat" where
  "RemoveDomains ds b = (case remove_all (Domains b) ds of (xs, n) \<Rightarrow> (b\<lparr>Domains := xs\<rparr>, n))"

definition RemoveIPs :: "string list \<Rightarrow> blocklist \<Rightarrow> blocklist \<times> nat" where
  "RemoveIPs is b = (case remove_all (IPs b) is of (xs, n) \<Rightarrow> (b\<lparr>IPs := xs\<rparr>, n))"

subsection \<open>What the list operations compute\<close>

lemma unique_loop_spec:
  "set out \<subseteq> seen \<Longrightarrow> distinct out \<Longrightarrow> [] \<notin> set out \<Longrightarrow>
   distinct (unique_loop seen out xs) \<and>
   set (unique_loop seen out xs) = set out \<union> (set xs - seen - {[]}) \<and> [] \<notin> set (unique_loop seen out xs)"
proof (induction seen out xs rule: unique_loop.induct)
  case (2 seen out v vs)
  show ?case
  proof (cases "v = [] \<or> v \<in> seen")
    case True
    with 2 show ?thesis by auto
  next
    case False
    then have "distinct (out @ [v])" "set (out @ [v]) \<subseteq> insert v seen" "[] \<notin> set (out @ [v])"
      using 2(3-5) by auto
    with 2(2) [OF False] False show ?thesis by auto
  qed
qed simp

lemma sorted_unique_set [simp]: "set (sorted_unique xs) = set xs - {[]}"
  using unique_loop_spec [of "[]" "{}" xs] by (simp add: sorted_unique_def)

lemma sorted_unique_sorted [simp]: "strict_sorted (sorted_unique xs)"
  using unique_loop_spec [of "[]" "{}" xs] by (simp add: sorted_unique_def strict_sorted_sort)

lemma sorted_unique_id: "strict_sorted xs \<Longrightarrow> [] \<notin> set xs \<Longrightarrow> sorted_unique xs = xs"
  by (auto simp: strict_sorted_unique)

lemma add_loop_spec:
  "add_loop ex dst n add = (dst', m) \<Longrightarrow> finite ex \<Longrightarrow> set dst \<subseteq> ex \<Longrightarrow>
   set dst' = set dst \<union> (set add - ex) \<and> m = n + card (set add - ex)"
proof (induction ex dst n add rule: add_loop.induct)
  case (2 ex dst n v vs)
  show ?case
  proof (cases "v \<in> ex")
    case True
    then have "set (v # vs) - ex = set vs - ex" by auto
    with 2 True show ?thesis by simp
  next
    case False
    then have "set (v # vs) - ex = insert v (set vs - insert v ex)" by auto
    moreover have "card (insert v (set vs - insert v ex)) = Suc (card (set vs - insert v ex))" by simp
    ultimately show ?thesis using 2(2) [OF False] 2(3-5) False by auto
  qed
qed simp

lemma add_unique_spec:
  assumes "add_unique dst add = (dst', n)"
  shows "set dst' = (set dst \<union> set add) - {[]}" "strict_sorted dst'" "n = card (set add - set dst)"
proof -
  obtain d where d: "add_loop (set dst) dst 0 add = (d, n)" "dst' = sorted_unique d"
    using assms by (auto simp: add_unique_def split: prod.splits)
  then have "set d = set dst \<union> (set add - set dst)" "n = card (set add - set dst)"
    using add_loop_spec [OF d(1)] by simp_all
  then show "set dst' = (set dst \<union> set add) - {[]}" "strict_sorted dst'" "n = card (set add - set dst)"
    using d by auto
qed

text \<open>Writing never overtakes reading, so the loop filters the list although it overwrites it.\<close>

lemma remove_loop_spec:
  assumes "remove_loop rm k i j n arr = (arr', j', n')" "j \<le> i" "i + k = length arr"
  shows "take j' arr' = take j arr @ filter (\<lambda>v. v \<notin> rm) (drop i arr) \<and>
    n' = n + length (filter (\<lambda>v. v \<in> rm) (drop i arr))"
  using assms
proof (induction k arbitrary: i j n arr)
  case (Suc k)
  then have d: "drop i arr = arr ! i # drop (i + 1) arr" by (simp add: Cons_nth_drop_Suc)
  show ?case
  proof (cases "arr ! i \<in> rm")
    case True
    then show ?thesis using Suc.IH [of "i + 1" j "n + 1" arr] Suc.prems d by simp
  next
    case False
    let ?arr = "arr[j := arr ! i]"
    have "take (j + 1) ?arr = take j arr @ [arr ! i]" "drop (i + 1) ?arr = drop (i + 1) arr"
      using Suc.prems by (simp_all add: take_Suc_conv_app_nth)
    then show ?thesis using Suc.IH [of "i + 1" "j + 1" n ?arr] Suc.prems False d by simp
  qed
qed simp

lemma remove_all_filter:
  "remove_all dst rm = (sorted_unique (filter (\<lambda>v. v \<notin> set rm) dst), length (filter (\<lambda>v. v \<in> set rm) dst))"
proof -
  obtain arr j n where l: "remove_loop (set rm) (length dst) 0 0 0 dst = (arr, j, n)"
    by (cases "remove_loop (set rm) (length dst) 0 0 0 dst")
  then show ?thesis using remove_loop_spec [OF l] by (simp add: remove_all_def)
qed

lemma remove_all_spec:
  assumes "remove_all dst rm = (dst', n)"
  shows "set dst' = set dst - set rm - {[]}" "strict_sorted dst'"
    and "distinct dst \<Longrightarrow> n = card (set dst \<inter> set rm)"
proof -
  have r: "dst' = sorted_unique (filter (\<lambda>v. v \<notin> set rm) dst)" "n = length (filter (\<lambda>v. v \<in> set rm) dst)"
    using assms by (auto simp: remove_all_filter)
  show "set dst' = set dst - set rm - {[]}" "strict_sorted dst'"
    by (auto simp: r)
  show "n = card (set dst \<inter> set rm)" if "distinct dst"
    using that distinct_card [of "filter (\<lambda>v. v \<in> set rm) dst"] r(2)
    by (simp add: Int_def conj_commute)
qed

text \<open>The invariant of a blocklist: both lists strictly sorted, no empty entry\<close>

definition wf_list :: "string list \<Rightarrow> bool" where
  "wf_list xs \<longleftrightarrow> strict_sorted xs \<and> [] \<notin> set xs"

definition wf_blocklist :: "blocklist \<Rightarrow> bool" where
  "wf_blocklist b \<longleftrightarrow> wf_list (Domains b) \<and> wf_list (IPs b)"

lemma wf_list_sorted_unique [simp]: "wf_list (sorted_unique xs)"
  by (simp add: wf_list_def)

lemma wf_list_id: "wf_list xs \<Longrightarrow> sorted_unique xs = xs"
  by (simp add: wf_list_def sorted_unique_id)

lemma wf_list_unique: "wf_list xs \<Longrightarrow> wf_list ys \<Longrightarrow> xs = ys \<longleftrightarrow> set xs = set ys"
  by (simp add: wf_list_def strict_sorted_unique)

lemma wf_empty_blocklist [simp]: "wf_blocklist empty_blocklist"
  by (simp add: wf_blocklist_def wf_list_def empty_blocklist_def)

lemma wf_list_add_unique: "add_unique dst add = (dst', n) \<Longrightarrow> wf_list dst'"
  by (auto simp: wf_list_def add_unique_spec)

lemma wf_list_remove_all: "remove_all dst rm = (dst', n) \<Longrightarrow> wf_list dst'"
  by (auto simp: wf_list_def remove_all_spec)

section \<open>The disk\<close>

text \<open>
  A file holds a JSON object with the two lists, each of them possibly absent or \<open>null\<close>, or
  bytes that \<open>json.Unmarshal\<close> rejects (an empty or half-written file among them).
\<close>

datatype json_file = Garbage | Doc "string list option" "string list option"

datatype node = Dir | File json_file

type_synonym dir = "(string \<times> node) list"

text \<open>The base directory and its subdirectory \<open>users\<close>, which may be missing\<close>

record disk =
  base :: dir
  users :: "dir option"

datatype place = Base | Users

definition place_dir :: "disk \<Rightarrow> place \<Rightarrow> dir option" where
  "place_dir d p = (case p of Base \<Rightarrow> Some (base d) | Users \<Rightarrow> users d)"

definition set_place_dir :: "disk \<Rightarrow> place \<Rightarrow> dir \<Rightarrow> disk" where
  "set_place_dir d p es = (case p of Base \<Rightarrow> d\<lparr>base := es\<rparr> | Users \<Rightarrow> d\<lparr>users := Some es\<rparr>)"

definition disk_get :: "disk \<Rightarrow> place \<times> string \<Rightarrow> node option" where
  "disk_get d pn = (case place_dir d (fst pn) of None \<Rightarrow> None | Some es \<Rightarrow> map_of es (snd pn))"

definition disk_put :: "disk \<Rightarrow> place \<times> string \<Rightarrow> node \<Rightarrow> disk" where
  "disk_put d pn v =
     (case place_dir d (fst pn) of None \<Rightarrow> d | Some es \<Rightarrow> set_place_dir d (fst pn) (AList.update (snd pn) v es))"

definition disk_del :: "disk \<Rightarrow> place \<times> string \<Rightarrow> disk" where
  "disk_del d pn =
     (case place_dir d (fst pn) of None \<Rightarrow> d | Some es \<Rightarrow> set_place_dir d (fst pn) (AList.delete (snd pn) es))"

lemma place_dir_set [simp]:
  "place_dir (set_place_dir d p es) q = (if p = q then Some es else place_dir d q)"
  by (cases p; cases q) (auto simp: place_dir_def set_place_dir_def)

definition has_place :: "disk \<Rightarrow> place \<Rightarrow> bool" where
  "has_place d p \<longleftrightarrow> place_dir d p \<noteq> None"

lemma disk_get_put:
  "has_place d (fst pn) \<Longrightarrow>
   disk_get (disk_put d pn v) qn = (if qn = pn then Some v else disk_get d qn)"
  by (cases pn; cases qn) (auto simp: has_place_def disk_get_def disk_put_def update_conv')

lemma disk_get_del: "disk_get (disk_del d pn) qn = (if qn = pn then None else disk_get d qn)"
  by (cases pn; cases qn)
    (auto simp: disk_get_def disk_del_def delete_conv' split: option.splits)

lemma has_place_put [simp]: "has_place (disk_put d pn v) q = has_place d q"
  by (auto simp: has_place_def disk_put_def split: option.splits)

lemma has_place_del [simp]: "has_place (disk_del d pn) q = has_place d q"
  by (auto simp: has_place_def disk_del_def split: option.splits)

section \<open>The store's operations\<close>

text \<open>
  Where a save may fail: \<open>os.CreateTemp\<close>, \<open>Write\<close>, \<open>Chmod\<close>, \<open>Close\<close>, \<open>os.Rename\<close>.
  \<open>json.MarshalIndent\<close> does not fail on two string lists.
\<close>

datatype save_stage = AtCreate | AtWrite | AtChmod | AtClose | AtRename

datatype store_error =
    ReadError scope
  | ParseError scope
  | SaveError save_stage scope
  | ListError

text \<open>
  The faults of one store call, and the suffix \<open>os.CreateTemp\<close> picks for the file \<open>.tmp-*\<close>.
\<close>

record store_io =
  read_fault :: "scope \<Rightarrow> bool"
  list_fault :: bool
  save_fault :: "scope \<Rightarrow> save_stage option"
  temp_suffix :: string

definition no_faults :: store_io where
  "no_faults = \<lparr>read_fault = (\<lambda>_. False), list_fault = False, save_fault = (\<lambda>_. None), temp_suffix = ''1''\<rparr>"

text \<open>\<open>New\<close>: create \<open>users\<close> if needed.\<close>

definition new_store :: "disk \<Rightarrow> disk" where
  "new_store d = (case users d of None \<Rightarrow> d\<lparr>users := Some []\<rparr> | Some _ \<Rightarrow> d)"

definition path :: "scope \<Rightarrow> place \<times> string" where
  "path s = (if Global s then (Base, ''global.json'') else (Users, itoa (UID s) @ ''.json''))"

definition doc_blocklist :: "string list option \<Rightarrow> string list option \<Rightarrow> blocklist" where
  "doc_blocklist ds is =
     \<lparr>Domains = (case ds of None \<Rightarrow> [] | Some xs \<Rightarrow> xs), IPs = (case is of None \<Rightarrow> [] | Some xs \<Rightarrow> xs)\<rparr>"

definition load_locked :: "store_io \<Rightarrow> disk \<Rightarrow> scope \<Rightarrow> store_error + blocklist" where
  "load_locked io d s =
     (if read_fault io s then Inl (ReadError s)
      else (case disk_get d (path s) of
              None \<Rightarrow> Inr empty_blocklist
            | Some Dir \<Rightarrow> Inl (ReadError s)
            | Some (File Garbage) \<Rightarrow> Inl (ParseError s)
            | Some (File (Doc ds is)) \<Rightarrow> Inr (doc_blocklist ds is)))"

text \<open>
  \<open>saveLocked\<close>: the disks after each system call, oldest first, and the result. The deferred
  \<open>os.Remove\<close> takes the temporary file away on every error path.
\<close>

definition save_locked ::
    "store_io \<Rightarrow> disk \<Rightarrow> scope \<Rightarrow> blocklist \<Rightarrow> disk list \<times> store_error option" where
  "save_locked io d s bl =
     (let doc = Doc (Some (sorted_unique (Domains bl))) (Some (sorted_unique (IPs bl)));
          final = path s;
          tmp = (fst final, ''.tmp-'' @ temp_suffix io);
          created = disk_put d tmp (File Garbage);
          written = disk_put created tmp (File doc);
          fail = (\<lambda>ds stage. (ds, Some (SaveError stage s)))
      in if \<not> has_place d (fst final) then fail [] AtCreate
         else (case save_fault io s of
                 Some AtCreate \<Rightarrow> fail [] AtCreate
               | Some AtWrite \<Rightarrow> fail [created, disk_del created tmp] AtWrite
               | Some AtChmod \<Rightarrow> fail [created, written, disk_del written tmp] AtChmod
               | Some AtClose \<Rightarrow> fail [created, written, disk_del written tmp] AtClose
               | Some AtRename \<Rightarrow> fail [created, written, disk_del written tmp] AtRename
               | None \<Rightarrow>
                   if disk_get d final = Some Dir
                   then fail [created, written, disk_del written tmp] AtRename
                   else ([created, written, disk_put (disk_del written tmp) final (File doc)], None)))"

text \<open>The disk a save leaves behind\<close>

definition final_disk :: "disk \<Rightarrow> disk list \<Rightarrow> disk" where
  "final_disk d ds = last (d # ds)"

text \<open>\<open>Mutate\<close>: load, apply the function to the list, save.\<close>

definition mutate ::
    "store_io \<Rightarrow> disk \<Rightarrow> scope \<Rightarrow> (blocklist \<Rightarrow> store_error + blocklist \<times> 'r) \<Rightarrow> disk \<times> (store_error + 'r)" where
  "mutate io d s fn =
     (case load_locked io d s of
        Inl e \<Rightarrow> (d, Inl e)
      | Inr bl \<Rightarrow>
          (case fn bl of
             Inl e \<Rightarrow> (d, Inl e)
           | Inr (bl', r) \<Rightarrow>
               (case save_locked io d s bl' of
                  (ds, Some e) \<Rightarrow> (final_disk d ds, Inl e)
                | (ds, None) \<Rightarrow> (final_disk d ds, Inr r))))"

text \<open>\<open>ListUserUIDs\<close>\<close>

definition uid_of_entry :: "string \<times> node \<Rightarrow> int option" where
  "uid_of_entry e =
     (if snd e = Dir then None
      else if \<not> has_suffix (fst e) ''.json'' then None
      else atoi (trim_suffix (fst e) ''.json''))"

definition list_user_uids :: "store_io \<Rightarrow> disk \<Rightarrow> store_error + int list" where
  "list_user_uids io d =
     (if list_fault io then Inl ListError
      else (case users d of
              None \<Rightarrow> Inr []
            | Some es \<Rightarrow> Inr (sort (List.map_filter uid_of_entry es))))"

section \<open>File names\<close>

definition same_scope :: "scope \<Rightarrow> scope \<Rightarrow> bool" where
  "same_scope s t \<longleftrightarrow> (Global s \<and> Global t) \<or> (\<not> Global s \<and> \<not> Global t \<and> UID s = UID t)"

lemma same_scope_refl [simp]: "same_scope s s"
  by (simp add: same_scope_def)

lemma path_eq_iff: "path s = path t \<longleftrightarrow> same_scope s t"
  by (auto simp: path_def same_scope_def)

lemma same_scope_simps [simp]:
  "same_scope (UserScope u) (UserScope v) \<longleftrightarrow> u = v"
  "\<not> same_scope GlobalScope (UserScope v)" "\<not> same_scope (UserScope v) GlobalScope"
  "same_scope s (UserScope u) \<longleftrightarrow> \<not> Global s \<and> UID s = u"
  "same_scope s GlobalScope \<longleftrightarrow> Global s"
  by (auto simp: same_scope_def UserScope_def GlobalScope_def)

lemma itoa_hd: "\<exists>c r. itoa i = c # r \<and> (is_digit c \<or> c = CHR ''-'')"
proof -
  obtain c r where "itoa i = c # r"
    by (cases "itoa i") (auto simp: itoa_def split: if_splits)
  then show ?thesis using set_itoa [of i] by auto
qed

lemma path_not_temp: "path s \<noteq> (p, ''.tmp-'' @ x)"
proof -
  obtain c r where "itoa (UID s) = c # r" "is_digit c \<or> c = CHR ''-''"
    using itoa_hd by blast
  then show ?thesis by (auto simp: path_def is_digit_def)
qed

text \<open>
  What the code relies on from \<open>os.CreateTemp\<close>: the file is new, and the suffix is a string
  of decimal digits.
\<close>

definition temp_ok :: "store_io \<Rightarrow> disk \<Rightarrow> scope \<Rightarrow> bool" where
  "temp_ok io d s \<longleftrightarrow>
     list_all is_digit (temp_suffix io) \<and> disk_get d (fst (path s), ''.tmp-'' @ temp_suffix io) = None"

section \<open>What a disk says about a scope\<close>

text \<open>The list stored for a scope; \<open>None\<close> if its file cannot be read as one.\<close>

definition content :: "disk \<Rightarrow> scope \<Rightarrow> blocklist option" where
  "content d s =
     (case disk_get d (path s) of
        None \<Rightarrow> Some empty_blocklist
      | Some (File (Doc ds is)) \<Rightarrow> Some (doc_blocklist ds is)
      | _ \<Rightarrow> None)"

lemma load_content: "load_locked io d s = Inr bl \<Longrightarrow> content d s = Some bl"
  by (auto simp: load_locked_def content_def split: if_splits option.splits node.splits json_file.splits)

lemma content_load:
  "content d s = Some bl \<Longrightarrow> \<not> read_fault io s \<Longrightarrow> load_locked io d s = Inr bl"
  by (auto simp: load_locked_def content_def split: option.splits node.splits json_file.splits)

lemma load_no_content:
  "content d s = None \<Longrightarrow> \<exists>e. load_locked io d s = Inl e"
  by (auto simp: load_locked_def content_def split: option.splits node.splits json_file.splits)

text \<open>What is saved: both lists sorted, without repetitions and empty strings\<close>

definition tidy :: "blocklist \<Rightarrow> blocklist" where
  "tidy b = \<lparr>Domains = sorted_unique (Domains b), IPs = sorted_unique (IPs b)\<rparr>"

lemma wf_tidy [simp]: "wf_blocklist (tidy b)"
  by (simp add: wf_blocklist_def tidy_def)

lemma tidy_wf: "wf_blocklist b \<Longrightarrow> tidy b = b"
  by (simp add: wf_blocklist_def tidy_def wf_list_id)

lemma doc_tidy [simp]:
  "doc_blocklist (Some (sorted_unique (Domains b))) (Some (sorted_unique (IPs b))) = tidy b"
  by (simp add: doc_blocklist_def tidy_def)

section \<open>Saving is atomic\<close>

text \<open>
  The disks of a save differ from the first only in the temporary file, until the rename
  puts the new document in place; the temporary file is gone at the end.
\<close>

definition temp_path :: "store_io \<Rightarrow> scope \<Rightarrow> place \<times> string" where
  "temp_path io s = (fst (path s), ''.tmp-'' @ temp_suffix io)"

definition saved_doc :: "blocklist \<Rightarrow> node" where
  "saved_doc b = File (Doc (Some (sorted_unique (Domains b))) (Some (sorted_unique (IPs b))))"

lemma temp_path_neq: "path t \<noteq> temp_path io s" "temp_path io s \<noteq> path t"
  by (metis temp_path_def path_not_temp)+

lemma fst_temp_path [simp]: "fst (temp_path io s) = fst (path s)"
  by (simp add: temp_path_def)

lemma save_locked_ok:
  assumes "save_locked io d s bl = (ds, None)"
  shows "has_place d (fst (path s))"
    and "ds = (let created = disk_put d (temp_path io s) (File Garbage);
                   written = disk_put created (temp_path io s) (saved_doc bl)
               in [created, written, disk_put (disk_del written (temp_path io s)) (path s) (saved_doc bl)])"
  using assms
  by (auto simp: save_locked_def Let_def temp_path_def saved_doc_def
      split: if_splits option.splits save_stage.splits)

lemma save_locked_err:
  assumes "save_locked io d s bl = (ds, Some e)"
  shows "ds = [] \<or>
     (has_place d (fst (path s)) \<and>
      (let created = disk_put d (temp_path io s) (File Garbage);
           written = disk_put created (temp_path io s) (saved_doc bl)
       in ds = [created, disk_del created (temp_path io s)] \<or>
          ds = [created, written, disk_del written (temp_path io s)]))"
  using assms
  by (auto simp: save_locked_def Let_def temp_path_def saved_doc_def
      split: if_splits option.splits save_stage.splits)

lemma save_disks_get:
  assumes "save_locked io d s bl = (ds, r)" "x \<in> set (d # ds)" "pn \<noteq> temp_path io s"
  shows "disk_get x pn = disk_get d pn \<or> (r = None \<and> pn = path s \<and> x = last ds \<and> disk_get x pn = Some (saved_doc bl))"
proof (cases r)
  case None
  note ok = save_locked_ok [OF assms(1) [unfolded None]]
  show ?thesis
    using assms(2,3) ok None
    by (auto simp: Let_def disk_get_put disk_get_del temp_path_neq split: if_splits)
next
  case (Some e)
  show ?thesis
    using assms(2,3) save_locked_err [OF assms(1) [unfolded Some]]
    by (auto simp: Let_def disk_get_put disk_get_del temp_path_neq split: if_splits)
qed

lemma saved_content: "disk_get x (path s) = Some (saved_doc bl) \<Longrightarrow> content x s = Some (tidy bl)"
  by (simp add: content_def saved_doc_def)

theorem save_atomic:
  assumes "save_locked io d s bl = (ds, r)" "x \<in> set (d # ds)"
  shows "content x t = content d t \<or> (r = None \<and> same_scope s t \<and> x = last ds \<and> content x t = Some (tidy bl))"
proof -
  have "disk_get x (path t) = disk_get d (path t) \<or>
     (r = None \<and> path t = path s \<and> x = last ds \<and> disk_get x (path t) = Some (saved_doc bl))"
    using assms temp_path_neq(1) by (rule save_disks_get)
  then show ?thesis
  proof
    assume "disk_get x (path t) = disk_get d (path t)"
    then show ?thesis by (simp add: content_def)
  next
    assume a: "r = None \<and> path t = path s \<and> x = last ds \<and> disk_get x (path t) = Some (saved_doc bl)"
    then have "disk_get x (path t) = Some (saved_doc bl)" by blast
    then have "content x t = Some (tidy bl)" by (rule saved_content)
    then show ?thesis using a path_eq_iff [of s t] by auto
  qed
qed

lemma save_ok_content:
  assumes "save_locked io d s bl = (ds, None)"
  shows "content (final_disk d ds) t = (if same_scope s t then Some (tidy bl) else content d t)"
proof (cases "same_scope s t")
  case True
  then have p: "path t = path s" by (metis path_eq_iff)
  have "disk_get (final_disk d ds) (path s) = Some (saved_doc bl)"
    using save_locked_ok [OF assms]
    by (auto simp: final_disk_def Let_def disk_get_put)
  then show ?thesis using True p saved_content [of "final_disk d ds" t bl] by simp
next
  case False
  have "final_disk d ds \<in> set (d # ds)" unfolding final_disk_def by (rule last_in_set) simp
  then show ?thesis using save_atomic [OF assms, of "final_disk d ds" t] False by auto
qed

lemma save_err_content:
  assumes "save_locked io d s bl = (ds, Some e)"
  shows "content (final_disk d ds) t = content d t"
proof -
  have "final_disk d ds \<in> set (d # ds)" unfolding final_disk_def by (rule last_in_set) simp
  then show ?thesis using save_atomic [OF assms, of "final_disk d ds" t] by auto
qed

section \<open>The invariant of the directory tree\<close>

text \<open>
  Every entry of \<open>users\<close> that counts as a list is named by the canonical decimal form of a
  64-bit number, names do not repeat, and every document parses and is a well-formed blocklist.
\<close>

definition wf_users :: "dir \<Rightarrow> bool" where
  "wf_users es \<longleftrightarrow> distinct (map fst es) \<and>
     (\<forall>e \<in> set es. \<forall>u. uid_of_entry e = Some u \<longrightarrow> fst e = itoa u @ ''.json'')"

definition wf_disk :: "disk \<Rightarrow> bool" where
  "wf_disk d \<longleftrightarrow> (\<exists>es. users d = Some es \<and> wf_users es) \<and>
     (\<forall>s. \<exists>bl. content d s = Some bl \<and> wf_blocklist bl)"

lemma uid_of_itoa: "go_int u \<Longrightarrow> nd \<noteq> Dir \<Longrightarrow> uid_of_entry (itoa u @ ''.json'', nd) = Some u"
  using trim_suffix_append [of "itoa u" "''.json''"] atoi_itoa
  by (simp add: uid_of_entry_def has_suffix_iff)

lemma uid_of_entry_range: "uid_of_entry e = Some u \<Longrightarrow> go_int u"
  by (auto simp: uid_of_entry_def atoi_range split: if_splits)

lemma wf_new_store:
  assumes "users d = None" "content d GlobalScope = Some g" "wf_blocklist g"
  shows "wf_disk (new_store d)"
proof -
  have get: "disk_get (new_store d) (Base, n) = disk_get d (Base, n)" "disk_get (new_store d) (Users, n) = None" for n
    using assms(1) by (auto simp: new_store_def disk_get_def place_dir_def)
  have "\<exists>bl. content (new_store d) s = Some bl \<and> wf_blocklist bl" for s
    using assms(2,3) get
    by (cases "Global s") (auto simp: content_def path_def GlobalScope_def)
  then show ?thesis using assms(1) by (simp add: wf_disk_def new_store_def wf_users_def)
qed

text \<open>The uids that \<open>ListUserUIDs\<close> returns: strictly increasing, one for each stored list\<close>

lemma distinct_map_filter_uids:
  "wf_users es \<Longrightarrow> distinct (List.map_filter uid_of_entry es)"
proof (induction es)
  case Nil
  then show ?case by simp
next
  case (Cons e es)
  have IH: "distinct (List.map_filter uid_of_entry es)"
    using Cons by (auto simp: wf_users_def)
  have "u \<notin> set (List.map_filter uid_of_entry es)" if u: "uid_of_entry e = Some u" for u
  proof
    assume "u \<in> set (List.map_filter uid_of_entry es)"
    then obtain e' where e': "e' \<in> set es" "uid_of_entry e' = Some u"
      by (auto simp: List.map_filter_def)
    then have "fst e = fst e'" using Cons.prems u by (auto simp: wf_users_def)
    then show False using Cons.prems e' by (auto simp: wf_users_def)
  qed
  then show ?case using IH by (auto simp: List.map_filter_simps split: option.splits)
qed

lemma list_user_uids_spec:
  assumes "wf_disk d" "list_user_uids io d = Inr us"
  shows "strict_sorted us" "\<And>u. u \<in> set us \<Longrightarrow> go_int u"
    and "\<And>u. go_int u \<Longrightarrow> u \<notin> set us \<Longrightarrow> content d (UserScope u) = Some empty_blocklist"
proof -
  obtain es where es: "users d = Some es" "wf_users es" using assms(1) by (auto simp: wf_disk_def)
  then have us: "us = sort (List.map_filter uid_of_entry es)"
    using assms(2) by (auto simp: list_user_uids_def split: if_splits)
  show "strict_sorted us" unfolding us strict_sorted_sort by (rule distinct_map_filter_uids) (rule es)
  show "go_int u" if "u \<in> set us" for u
    using that us by (auto simp: List.map_filter_def uid_of_entry_range)
  show "content d (UserScope u) = Some empty_blocklist" if "go_int u" "u \<notin> set us" for u
  proof (cases "map_of es (itoa u @ ''.json'')")
    case None
    then show ?thesis using es by (simp add: content_def path_def UserScope_def disk_get_def place_dir_def)
  next
    case (Some nd)
    then have "(itoa u @ ''.json'', nd) \<in> set es" by (rule map_of_SomeD)
    then have "nd = Dir"
      using that us uid_of_itoa [of u nd] by (force simp: List.map_filter_def)
    then have "content d (UserScope u) = None"
      using es Some by (simp add: content_def path_def UserScope_def disk_get_def place_dir_def)
    then show ?thesis using assms(1) by (metis wf_disk_def option.distinct(1))
  qed
qed

text \<open>Saving keeps the invariant at every system call.\<close>

lemma uid_of_temp: "list_all is_digit x \<Longrightarrow> uid_of_entry (''.tmp-'' @ x, nd) = None"
proof -
  assume "list_all is_digit x"
  then have "CHR ''n'' \<notin> set (''.tmp-'' @ x)" by (auto simp: list_all_iff is_digit_def)
  then have "''.tmp-'' @ x \<noteq> t @ ''.json''" for t by (metis Un_iff list.set_intros set_append)
  then have "\<not> has_suffix (''.tmp-'' @ x) ''.json''" unfolding has_suffix_iff by blast
  then show ?thesis by (simp add: uid_of_entry_def)
qed

lemma wf_users_update:
  assumes "wf_users es" "\<And>u. uid_of_entry (n, v) = Some u \<Longrightarrow> n = itoa u @ ''.json''"
  shows "wf_users (AList.update n v es)"
proof -
  have old: "e = (n, v) \<or> e \<in> set es" if "e \<in> set (AList.update n v es)" for e
    using that by (induction es) (auto split: if_splits)
  have "fst e = itoa u @ ''.json''"
    if "e \<in> set (AList.update n v es)" "uid_of_entry e = Some u" for e u
    using old [OF that(1)]
  proof
    assume "e = (n, v)"
    then show ?thesis using assms(2) that(2) by simp
  next
    assume "e \<in> set es"
    then show ?thesis using assms(1) that(2) by (simp add: wf_users_def)
  qed
  moreover have "distinct (map fst (AList.update n v es))"
    using assms by (simp add: wf_users_def distinct_update)
  ultimately show ?thesis unfolding wf_users_def by blast
qed

lemma set_delete_subset: "set (AList.delete n es) \<subseteq> set es"
  by (induction es) auto

lemma wf_users_delete: "wf_users es \<Longrightarrow> wf_users (AList.delete n es)"
  using distinct_delete [of es n] set_delete_subset [of n es] unfolding wf_users_def by blast

text \<open>The entries a save writes: the temporary file and the list of a 64-bit uid\<close>

definition entry_ok :: "place \<times> string \<Rightarrow> node \<Rightarrow> bool" where
  "entry_ok pn v \<longleftrightarrow> (fst pn = Users \<longrightarrow> (\<forall>u. uid_of_entry (snd pn, v) = Some u \<longrightarrow> snd pn = itoa u @ ''.json''))"

definition users_ok :: "disk \<Rightarrow> bool" where
  "users_ok d \<longleftrightarrow> (\<exists>es. users d = Some es \<and> wf_users es)"

lemma users_ok_put: "users_ok d \<Longrightarrow> entry_ok pn v \<Longrightarrow> users_ok (disk_put d pn v)"
  using wf_users_update
  by (cases pn; cases "fst pn") (auto simp: users_ok_def entry_ok_def disk_put_def place_dir_def set_place_dir_def)

lemma users_ok_del: "users_ok d \<Longrightarrow> users_ok (disk_del d pn)"
  using wf_users_delete
  by (cases pn; cases "fst pn") (auto simp: users_ok_def disk_del_def place_dir_def set_place_dir_def)

lemma entry_ok_temp: "list_all is_digit (temp_suffix io) \<Longrightarrow> entry_ok (temp_path io s) v"
  by (simp add: entry_ok_def temp_path_def uid_of_temp [simplified])

lemma entry_ok_path: "go_int (UID s) \<Longrightarrow> entry_ok (path s) (saved_doc bl)"
  using uid_of_itoa [of "UID s" "saved_doc bl"]
  by (auto simp: entry_ok_def path_def saved_doc_def)

lemma save_users_ok:
  assumes "save_locked io d s bl = (ds, r)" "users_ok d" "go_int (UID s)" "list_all is_digit (temp_suffix io)"
    and "x \<in> set (d # ds)"
  shows "users_ok x"
proof -
  note put = users_ok_put users_ok_del entry_ok_temp [OF assms(4)] entry_ok_path [OF assms(3)]
  show ?thesis
  proof (cases r)
    case None
    show ?thesis using assms(2,5) save_locked_ok(2) [OF assms(1) [unfolded None]]
      by (auto simp: Let_def put)
  next
    case (Some e)
    show ?thesis using assms(2,5) save_locked_err [OF assms(1) [unfolded Some]]
      by (auto simp: Let_def put)
  qed
qed

theorem save_keeps_wf:
  assumes "save_locked io d s bl = (ds, r)" "wf_disk d" "go_int (UID s)" "list_all is_digit (temp_suffix io)"
    and "x \<in> set (d # ds)"
  shows "wf_disk x"
proof -
  have "users_ok d" using assms(2) by (simp add: wf_disk_def users_ok_def)
  then have "users_ok x" by (rule save_users_ok [OF assms(1) _ assms(3-5)])
  moreover have "\<exists>b. content x t = Some b \<and> wf_blocklist b" for t
  proof -
    obtain b where "content d t = Some b" "wf_blocklist b" using assms(2) by (auto simp: wf_disk_def)
    then show ?thesis using save_atomic [OF assms(1,5), of t] wf_tidy by auto
  qed
  ultimately show ?thesis by (simp add: wf_disk_def users_ok_def)
qed

section \<open>Mutating a scope\<close>

lemma final_disk_in: "final_disk d ds \<in> set (d # ds)"
  unfolding final_disk_def by (rule last_in_set) simp

lemma final_disk_Nil [simp]: "final_disk d [] = d"
  by (simp add: final_disk_def)

lemma mutate_ok:
  assumes "mutate io d s fn = (d', Inr r)"
  shows "\<exists>bl bl'. content d s = Some bl \<and> fn bl = Inr (bl', r) \<and>
    (\<forall>t. content d' t = (if same_scope s t then Some (tidy bl') else content d t))"
  using assms
  by (auto simp: mutate_def load_content save_ok_content split: sum.splits prod.splits option.splits)

lemma mutate_err:
  assumes "mutate io d s fn = (d', Inl e)"
  shows "content d' t = content d t"
  using assms
  by (auto simp: mutate_def save_err_content split: sum.splits prod.splits option.splits)

lemma mutate_wf:
  assumes "mutate io d s fn = (d', r)" "wf_disk d" "go_int (UID s)" "list_all is_digit (temp_suffix io)"
  shows "wf_disk d'"
proof -
  have "wf_disk (final_disk d ds)" if "save_locked io d s bl = (ds, q)" for ds bl q
    using save_keeps_wf [OF that assms(2-4)] final_disk_in by blast
  then show ?thesis using assms(1,2)
    by (auto simp: mutate_def split: sum.splits prod.splits option.splits)
qed

section \<open>The contract of the store\<close>

text \<open>
  What the engine relies on: \<open>get\<close> is the list a store holds for a scope; loading returns it;
  a successful mutation replaces exactly one scope's list by the tidied result; a failed one
  changes nothing; the listed uids cover every user with a non-empty list.
\<close>

locale blocklist_store =
  fixes load :: "'io \<Rightarrow> 'd \<Rightarrow> scope \<Rightarrow> 'e + blocklist"
    and mutate :: "'io \<Rightarrow> 'd \<Rightarrow> scope \<Rightarrow> (blocklist \<Rightarrow> 'e + blocklist \<times> 'r) \<Rightarrow> 'd \<times> ('e + 'r)"
    and uids :: "'io \<Rightarrow> 'd \<Rightarrow> 'e + int list"
    and get :: "'d \<Rightarrow> scope \<Rightarrow> blocklist option"
    and inv :: "'d \<Rightarrow> bool"
    and io_ok :: "'io \<Rightarrow> bool"
  assumes get_inv: "inv d \<Longrightarrow> \<exists>bl. get d s = Some bl \<and> wf_blocklist bl"
    and load_get: "load io d s = Inr bl \<Longrightarrow> get d s = Some bl"
    and mutate_get: "mutate io d s fn = (d', Inr r) \<Longrightarrow>
      \<exists>bl bl'. get d s = Some bl \<and> fn bl = Inr (bl', r) \<and>
        (\<forall>t. get d' t = (if same_scope s t then Some (tidy bl') else get d t))"
    and mutate_fail: "mutate io d s fn = (d', Inl e) \<Longrightarrow> get d' t = get d t"
    and mutate_inv: "mutate io d s fn = (d', q) \<Longrightarrow> inv d \<Longrightarrow> go_int (UID s) \<Longrightarrow> io_ok io \<Longrightarrow> inv d'"
    and uids_sorted: "inv d \<Longrightarrow> uids io d = Inr us \<Longrightarrow> strict_sorted us"
    and uids_range: "inv d \<Longrightarrow> uids io d = Inr us \<Longrightarrow> u \<in> set us \<Longrightarrow> go_int u"
    and uids_cover: "inv d \<Longrightarrow> uids io d = Inr us \<Longrightarrow> go_int u \<Longrightarrow> u \<notin> set us \<Longrightarrow>
      get d (UserScope u) = Some empty_blocklist"
begin

text \<open>The list of a scope after any mutation: the old one, or the tidied new one.\<close>

lemma mutate_cases:
  assumes "mutate io d s fn = (d', q)"
  shows "get d' t = get d t \<or> (\<exists>r bl bl'. q = Inr r \<and> same_scope s t \<and> get d s = Some bl \<and>
    fn bl = Inr (bl', r) \<and> get d' t = Some (tidy bl'))"
proof (cases q)
  case (Inl e)
  then show ?thesis using assms mutate_fail by blast
next
  case (Inr r)
  then show ?thesis using assms mutate_get [of io d s fn d' r] by (metis (full_types))
qed

text \<open>Other scopes are never touched.\<close>

lemma mutate_frame: "mutate io d s fn = (d', q) \<Longrightarrow> \<not> same_scope s t \<Longrightarrow> get d' t = get d t"
  using mutate_cases by blast

lemma load_wf: "inv d \<Longrightarrow> load io d s = Inr bl \<Longrightarrow> wf_blocklist bl"
  using get_inv load_get by (metis option.inject)

end

definition temp_digits :: "store_io \<Rightarrow> bool" where
  "temp_digits io \<longleftrightarrow> list_all is_digit (temp_suffix io)"

interpretation fs_store: blocklist_store load_locked mutate list_user_uids content wf_disk temp_digits
proof (unfold_locales, goal_cases)
  case 1
  then show ?case by (simp add: wf_disk_def)
next
  case 2
  then show ?case by (rule load_content)
next
  case 3
  then show ?case by (rule mutate_ok)
next
  case 4
  then show ?case by (rule mutate_err)
next
  case 5
  then show ?case unfolding temp_digits_def by (rule mutate_wf)
qed (erule list_user_uids_spec, assumption+)+

end
