(* ===== verification/Go_IP.thy ===== *)
theory Go_IP
  imports Go_Strings
begin

text \<open>
  Addresses of Go's package \<open>net\<close>: \<open>net.IP\<close> is a byte slice of 4 or 16 bytes,
  \<open>net.ParseIP\<close> reads dotted-decimal IPv4 and RFC 4291 IPv6 text (no zone), \<open>IP.To4\<close>
  recognises IPv4 and IPv4-mapped addresses, and \<open>IP.String\<close> prints the RFC 5952 form.
  The main result is that parsing reads back what printing wrote; the locale \<open>address_text\<close>
  states that contract and derives from it what the validating code relies on.
\<close>

section \<open>Text and its value\<close>

type_synonym ip = "8 word list"

abbreviation octet :: "8 word \<Rightarrow> nat" where
  "octet b \<equiv> unat b"

text \<open>Lower-case hexadecimal without leading zeros, and its value\<close>

definition hex_char :: "nat \<Rightarrow> char" where
  "hex_char n = (if n < 10 then char_of (48 + n) else char_of (87 + n))"

fun hex_digits :: "nat \<Rightarrow> string" where
  "hex_digits n = (if n < 16 then [] else hex_digits (n div 16)) @ [hex_char (n mod 16)]"

declare hex_digits.simps [simp del]

definition is_hex :: "char \<Rightarrow> bool" where
  "is_hex c \<longleftrightarrow> is_digit c \<or> (97 \<le> byte_of c \<and> byte_of c \<le> 102) \<or> (65 \<le> byte_of c \<and> byte_of c \<le> 70)"

definition hex_val :: "char \<Rightarrow> nat" where
  "hex_val c =
     (if is_digit c then byte_of c - 48
      else if 97 \<le> byte_of c then byte_of c - 97 + 10
      else byte_of c - 65 + 10)"

definition hex_value :: "string \<Rightarrow> nat" where
  "hex_value s = foldl (\<lambda>n c. 16 * n + hex_val c) 0 s"

section \<open>Parsing\<close>

text \<open>One decimal field of an IPv4 address: no leading zero, at most 255\<close>

definition parse_octet :: "string \<Rightarrow> 8 word option" where
  "parse_octet s =
     (if s = [] \<or> \<not> list_all is_digit s then None
      else if hd s = CHR ''0'' \<and> 1 < length s then None
      else if 255 < digits_value s then None
      else Some (of_nat (digits_value s)))"

definition parse_ipv4 :: "string \<Rightarrow> ip option" where
  "parse_ipv4 s =
     (case map parse_octet (split_on CHR ''.'' s) of
        [Some a, Some b, Some c, Some d] \<Rightarrow> Some [a, b, c, d]
      | _ \<Rightarrow> None)"

definition group_bytes :: "nat \<Rightarrow> ip" where
  "group_bytes g = [of_nat (g div 256), of_nat (g mod 256)]"

text \<open>
  The loop of the IPv6 parser: at most \<open>n\<close> more groups, the bytes read so far and the
  position of \<open>::\<close>; the result also holds the text that is left.
\<close>

fun parse6_loop :: "nat \<Rightarrow> string \<Rightarrow> ip \<Rightarrow> nat option \<Rightarrow> (string \<times> ip \<times> nat option) option" where
  "parse6_loop 0 s bs ell = Some (s, bs, ell)"
| "parse6_loop (Suc n) s bs ell =
     (let ds = takeWhile is_hex s; r = dropWhile is_hex s; bs' = bs @ group_bytes (hex_value ds) in
      if ds = [] \<or> 4 < length ds then None
      else
        (case r of
           [] \<Rightarrow> Some ([], bs', ell)
         | c # r' \<Rightarrow>
             if c = CHR ''.'' then
               (if ell = None \<and> length bs \<noteq> 12 then None
                else if 16 < length bs + 4 then None
                else (case parse_ipv4 s of None \<Rightarrow> None | Some q \<Rightarrow> Some ([], bs @ q, ell)))
             else if c \<noteq> CHR '':'' then None
             else
               (case r' of
                  [] \<Rightarrow> None
                | c2 # r'' \<Rightarrow>
                    if c2 \<noteq> CHR '':'' then parse6_loop n r' bs' ell
                    else if ell \<noteq> None then None
                    else if r'' = [] then Some ([], bs', Some (length bs'))
                    else parse6_loop n r'' bs' (Some (length bs')))))"

text \<open>The bytes the ellipsis stands for are filled in at the end.\<close>

definition expand_ellipsis :: "ip \<Rightarrow> nat option \<Rightarrow> ip option" where
  "expand_ellipsis bs ell =
     (if length bs < 16 then
        (case ell of
           None \<Rightarrow> None
         | Some e \<Rightarrow> Some (take e bs @ replicate (16 - length bs) 0 @ drop e bs))
      else if ell \<noteq> None then None
      else Some bs)"

definition parse_ipv6 :: "string \<Rightarrow> ip option" where
  "parse_ipv6 s =
     (if CHR ''%'' \<in> set s then None
      else if s = ''::'' then Some (replicate 16 0)
      else
        (case (if has_prefix s ''::'' then parse6_loop 8 (drop 2 s) [] (Some 0)
               else parse6_loop 8 s [] None) of
           None \<Rightarrow> None
         | Some (rest, bs, ell) \<Rightarrow> if rest \<noteq> [] then None else expand_ellipsis bs ell))"

definition v4_mapped :: "ip \<Rightarrow> ip" where
  "v4_mapped q = replicate 10 0 @ [255, 255] @ q"

text \<open>\<open>net.ParseIP\<close>: the first of the bytes \<open>.\<close>, \<open>:\<close> and \<open>%\<close> decides the family.\<close>

definition parse_ip :: "string \<Rightarrow> ip option" where
  "parse_ip s =
     (case find (\<lambda>c. c = CHR ''.'' \<or> c = CHR '':'' \<or> c = CHR ''%'') s of
        None \<Rightarrow> None
      | Some c \<Rightarrow>
          if c = CHR ''.'' then map_option v4_mapped (parse_ipv4 s)
          else if c = CHR '':'' then parse_ipv6 s
          else None)"

section \<open>Printing\<close>

text \<open>\<open>IP.To4\<close>\<close>

definition to4 :: "ip \<Rightarrow> ip option" where
  "to4 a =
     (if length a = 4 then Some a
      else if length a = 16 \<and> take 12 a = replicate 10 0 @ [255, 255] then Some (drop 12 a)
      else None)"

definition dotted :: "ip \<Rightarrow> string" where
  "dotted q = join ''.'' (map (\<lambda>b. nat_digits (octet b)) q)"

fun groups :: "ip \<Rightarrow> nat list" where
  "groups (a # b # r) = (256 * octet a + octet b) # groups r"
| "groups _ = []"

text \<open>The first longest run of at least two zero groups, as \<open>(start, end)\<close>\<close>

definition zero_run :: "nat list \<Rightarrow> nat \<Rightarrow> nat" where
  "zero_run gs i = length (takeWhile (\<lambda>g. g = 0) (drop i gs))"

definition better_run :: "nat list \<Rightarrow> nat \<times> nat \<Rightarrow> nat \<Rightarrow> nat \<times> nat" where
  "better_run gs z i =
     (if 2 \<le> zero_run gs i \<and> snd z - fst z < zero_run gs i then (i, i + zero_run gs i) else z)"

definition longest_run :: "nat list \<Rightarrow> nat \<times> nat" where
  "longest_run gs = foldl (better_run gs) (255, 255) [0..<length gs]"

definition string6 :: "nat list \<Rightarrow> string" where
  "string6 gs =
     (let (zs, ze) = longest_run gs in
      if zs = 255 then join '':'' (map hex_digits gs)
      else join '':'' (map hex_digits (take zs gs)) @ ''::'' @ join '':'' (map hex_digits (drop ze gs)))"

text \<open>\<open>IP.String\<close>; lengths other than 0, 4 and 16 print as \<open>?\<close> and the bytes in hexadecimal.\<close>

definition hex_byte :: "8 word \<Rightarrow> string" where
  "hex_byte b = [hex_char (octet b div 16), hex_char (octet b mod 16)]"

definition ip_string :: "ip \<Rightarrow> string" where
  "ip_string a =
     (if a = [] then ''<nil>''
      else if length a \<noteq> 4 \<and> length a \<noteq> 16 then CHR ''?'' # concat (map hex_byte a)
      else (case to4 a of Some q \<Rightarrow> dotted q | None \<Rightarrow> string6 (groups a)))"

text \<open>The 16-byte form of an address: the value \<open>ParseIP\<close> returns for its text\<close>

definition wf_ip :: "ip \<Rightarrow> bool" where
  "wf_ip a \<longleftrightarrow> length a = 4 \<or> length a = 16"

definition to16 :: "ip \<Rightarrow> ip" where
  "to16 a = (if length a = 4 then v4_mapped a else a)"

section \<open>Hexadecimal and decimal fields\<close>

lemma byte_hex_char:
  "n < 16 \<Longrightarrow> byte_of (hex_char n) = (if n < 10 then 48 + n else 87 + n)"
  by (simp add: hex_char_def)

lemma is_hex_char [simp]: "n < 16 \<Longrightarrow> is_hex (hex_char n)"
  by (auto simp: is_hex_def is_digit_def byte_hex_char)

lemma hex_val_char [simp]: "n < 16 \<Longrightarrow> hex_val (hex_char n) = n"
  by (auto simp: hex_val_def is_digit_def byte_hex_char)

lemma not_hex [simp]: "\<not> is_hex CHR '':''" "\<not> is_hex CHR ''.''" "\<not> is_hex CHR ''%''"
  by (simp_all add: is_hex_def is_digit_def)

lemma hex_digits_not_Nil [simp]: "hex_digits n \<noteq> []"
  by (subst hex_digits.simps) simp

lemma hex_digits_all: "list_all is_hex (hex_digits n)"
proof (induction n rule: hex_digits.induct)
  case (1 n)
  then show ?case by (subst hex_digits.simps) simp
qed

lemma hex_value_snoc: "hex_value (s @ [c]) = 16 * hex_value s + hex_val c"
  by (simp add: hex_value_def)

lemma hex_value_digits [simp]: "hex_value (hex_digits n) = n"
proof (induction n rule: hex_digits.induct)
  case (1 n)
  have "hex_value (if n < 16 then [] else hex_digits (n div 16)) = n div 16"
    using 1 by (simp add: hex_value_def)
  then show ?case by (subst hex_digits.simps) (simp add: hex_value_snoc)
qed

lemma hex_digits_length: "n < 16 ^ k \<Longrightarrow> 0 < k \<Longrightarrow> length (hex_digits n) \<le> k"
proof (induction n arbitrary: k rule: hex_digits.induct)
  case (1 n)
  show ?case
  proof (cases "n < 16")
    case True
    then show ?thesis using 1(3) by (subst hex_digits.simps) simp
  next
    case False
    obtain j where k: "k = Suc j" using 1(3) by (cases k) auto
    have "0 < j" using 1(2) False k by (cases j) auto
    note j = k this
    have "n div 16 < 16 ^ j" using 1(2) j by (simp add: less_mult_imp_div_less mult.commute)
    then have "length (hex_digits (n div 16)) \<le> j" using 1(1) False j by simp
    then show ?thesis using False j by (subst hex_digits.simps) simp
  qed
qed

lemma octet_less [simp]: "octet b < 256"
  using unsigned_less [of b] by simp

lemma nat_digits_hd0: "nat_digits n = CHR ''0'' # s \<Longrightarrow> s = []"
proof (induction n arbitrary: s rule: nat_digits.induct)
  case (1 n)
  show ?case
  proof (cases "n < 10")
    case True
    then show ?thesis using 1(2) by (subst (asm) nat_digits.simps) simp
  next
    case False
    obtain c t where ct: "nat_digits (n div 10) = c # t"
      by (cases "nat_digits (n div 10)") auto
    have e: "nat_digits n = c # t @ [digit_char (n mod 10)]"
      using False ct by (subst nat_digits.simps) simp
    then have "c = CHR ''0''" using 1(2) by simp
    then have "t = []" using 1(1) False ct by simp
    then have "n div 10 = digit_val (CHR ''0'')"
      using digits_value_nat_digits [of "n div 10"] ct \<open>c = _\<close> by (simp add: digits_value_def)
    then show ?thesis using False by (simp add: digit_val_def)
  qed
qed

lemma parse_octet_digits [simp]: "parse_octet (nat_digits (octet b)) = Some b"
proof -
  have "\<not> (hd (nat_digits (octet b)) = CHR ''0'' \<and> 1 < length (nat_digits (octet b)))"
    using nat_digits_hd0 [of "octet b"] by (cases "nat_digits (octet b)") auto
  moreover have "\<not> 255 < octet b" using octet_less [of b] by linarith
  ultimately show ?thesis by (simp add: parse_octet_def nat_digits_all_digits)
qed

section \<open>IPv4\<close>

lemma dot_notin_digits [simp]: "CHR ''.'' \<notin> set (nat_digits n)"
  using nat_digits_all_digits [of n] by (auto simp: list_all_iff is_digit_def)

lemma parse_dotted: "length q = 4 \<Longrightarrow> parse_ipv4 (dotted q) = Some q"
proof -
  assume "length q = 4"
  then obtain a b c d where q: "q = [a, b, c, d]"
    by (auto simp: length_Suc_conv numeral_eq_Suc)
  have "split_on CHR ''.'' (dotted q) = map (\<lambda>b. nat_digits (octet b)) q"
    unfolding dotted_def by (rule split_join) (auto simp: q)
  then show ?thesis by (simp add: parse_ipv4_def q)
qed

lemma parse_ipv4_length: "parse_ipv4 s = Some q \<Longrightarrow> length q = 4"
  by (auto simp: parse_ipv4_def split: list.splits option.splits)

lemma find_first: "\<forall>x \<in> set xs. \<not> P x \<Longrightarrow> P y \<Longrightarrow> find P (xs @ y # ys) = Some y"
  by (induction xs) auto

lemma find_dotted:
  assumes "length q = 4"
  shows "find (\<lambda>c. c = CHR ''.'' \<or> c = CHR '':'' \<or> c = CHR ''%'') (dotted q) = Some CHR ''.''"
proof -
  obtain a r where q: "q = a # r" using assms by (cases q) auto
  have r: "r \<noteq> []" using assms q by auto
  have e: "dotted q = nat_digits (octet a) @ CHR ''.'' # dotted r"
    using r by (cases r) (simp_all add: dotted_def q)
  have "\<forall>x \<in> set (nat_digits (octet a)). \<not> (x = CHR ''.'' \<or> x = CHR '':'' \<or> x = CHR ''%'')"
    using nat_digits_all_digits [of "octet a"] by (auto simp: list_all_iff is_digit_def)
  then show ?thesis unfolding e by (rule find_first) simp
qed

lemma parse_ip_dotted: "length q = 4 \<Longrightarrow> parse_ip (dotted q) = Some (v4_mapped q)"
  by (simp add: parse_ip_def find_dotted parse_dotted)

section \<open>IPv6: printing a list of groups and reading it back\<close>

definition groups_bytes :: "nat list \<Rightarrow> ip" where
  "groups_bytes gs = concat (map group_bytes gs)"

definition small_groups :: "nat list \<Rightarrow> bool" where
  "small_groups gs \<longleftrightarrow> (\<forall>g \<in> set gs. g < 65536)"

abbreviation colons :: "nat list \<Rightarrow> string" where
  "colons gs \<equiv> join '':'' (map hex_digits gs)"

lemma groups_bytes_simps [simp]:
  "groups_bytes [] = []"
  "groups_bytes (g # gs) = group_bytes g @ groups_bytes gs"
  "groups_bytes (gs @ hs) = groups_bytes gs @ groups_bytes hs"
  by (simp_all add: groups_bytes_def)

lemma length_group_bytes [simp]: "length (group_bytes g) = 2"
  by (simp add: group_bytes_def)

lemma length_groups_bytes [simp]: "length (groups_bytes gs) = 2 * length gs"
  by (induction gs) auto

lemma small_groups_simps [simp]:
  "small_groups []"
  "small_groups (g # gs) \<longleftrightarrow> g < 65536 \<and> small_groups gs"
  by (simp_all add: small_groups_def)

lemma small_groups_take_drop: "small_groups gs \<Longrightarrow> small_groups (take n gs) \<and> small_groups (drop n gs)"
  by (auto simp: small_groups_def dest: in_set_takeD in_set_dropD)

lemma takeWhile_hex_digits:
  "c = CHR '':'' \<Longrightarrow> takeWhile is_hex (hex_digits g @ c # s) = hex_digits g
     \<and> dropWhile is_hex (hex_digits g @ c # s) = c # s"
  using hex_digits_all [of g] by (auto simp: list_all_iff takeWhile_append2 dropWhile_append2)

lemma takeWhile_hex_digits_end:
  "takeWhile is_hex (hex_digits g) = hex_digits g \<and> dropWhile is_hex (hex_digits g) = []"
  using hex_digits_all [of g] by (auto simp: list_all_iff)

lemma hex_digits_4: "g < 65536 \<Longrightarrow> \<not> 4 < length (hex_digits g)"
  using hex_digits_length [of g 4] by simp

text \<open>One group of the loop: at the end of the text, before \<open>:\<close>, and before \<open>::\<close>.\<close>

lemma parse6_last:
  "g < 65536 \<Longrightarrow> parse6_loop (Suc n) (hex_digits g) bs ell = Some ([], bs @ group_bytes g, ell)"
  by (simp add: takeWhile_hex_digits_end hex_digits_4)

lemma parse6_colon:
  assumes "g < 65536" "c \<noteq> CHR '':''"
  shows "parse6_loop (Suc n) (hex_digits g @ CHR '':'' # c # s) bs ell
    = parse6_loop n (c # s) (bs @ group_bytes g) ell"
  using assms by (simp add: takeWhile_hex_digits hex_digits_4)

lemma parse6_ellipsis:
  assumes "g < 65536"
  shows "parse6_loop (Suc n) (hex_digits g @ ''::'' @ s) bs None
    = (if s = [] then Some ([], bs @ group_bytes g, Some (length bs + 2))
       else parse6_loop n s (bs @ group_bytes g) (Some (length bs + 2)))"
  using assms by (simp add: takeWhile_hex_digits hex_digits_4)

lemma colons_hd:
  assumes "gs \<noteq> []" obtains c s where "colons gs @ r = c # s" "c \<noteq> CHR '':''"
proof -
  obtain g hs where gs: "gs = g # hs" using assms by (cases gs) auto
  obtain c t where ct: "hex_digits g = c # t" by (cases "hex_digits g") auto
  have "is_hex c" using hex_digits_all [of g] ct by simp
  then have "c \<noteq> CHR '':''" by auto
  moreover have "\<exists>s. colons gs @ r = c # s" by (cases hs) (auto simp: gs ct)
  ultimately show ?thesis using that by blast
qed

text \<open>A run of groups without an ellipsis\<close>

lemma parse6_groups:
  assumes "gs \<noteq> []" "length gs \<le> n" "small_groups gs"
  shows "parse6_loop n (colons gs) bs ell = Some ([], bs @ groups_bytes gs, ell)"
  using assms
proof (induction gs arbitrary: n bs)
  case Nil
  then show ?case by simp
next
  case (Cons g hs)
  obtain m where n: "n = Suc m" using Cons.prems by (cases n) auto
  show ?case
  proof (cases "hs = []")
    case True
    then show ?thesis using Cons.prems n parse6_last by simp
  next
    case False
    then obtain c s where cs: "colons hs @ [] = c # s" "c \<noteq> CHR '':''"
      using colons_hd by blast
    have "colons (g # hs) = hex_digits g @ CHR '':'' # c # s"
      using False cs by (cases hs) auto
    then have "parse6_loop n (colons (g # hs)) bs ell = parse6_loop m (colons hs) (bs @ group_bytes g) ell"
      using cs Cons.prems parse6_colon [of g c m s] n by simp
    then show ?thesis using Cons False n by simp
  qed
qed

text \<open>Groups, an ellipsis, and groups again\<close>

lemma parse6_two_runs:
  assumes "gs \<noteq> []" "length gs + length hs \<le> n" "small_groups gs" "small_groups hs"
  shows "parse6_loop n (colons gs @ ''::'' @ colons hs) bs None
    = Some ([], bs @ groups_bytes gs @ groups_bytes hs, Some (length bs + 2 * length gs))"
  using assms
proof (induction gs arbitrary: n bs)
  case Nil
  then show ?case by simp
next
  case (Cons g ks)
  obtain m where n: "n = Suc m" using Cons.prems by (cases n) auto
  show ?case
  proof (cases "ks = []")
    case True
    show ?thesis
    proof (cases "hs = []")
      case True
      then show ?thesis
        using \<open>ks = []\<close> Cons.prems n parse6_ellipsis [of g m "[]" bs] by simp
    next
      case False
      then have "colons hs \<noteq> []" by (cases hs rule: remdups_adj.cases) auto
      then have "parse6_loop n (colons [g] @ ''::'' @ colons hs) bs None
          = parse6_loop m (colons hs) (bs @ group_bytes g) (Some (length bs + 2))"
        using parse6_ellipsis [of g m "colons hs" bs] Cons.prems n by simp
      then show ?thesis
        using True False Cons.prems n parse6_groups [of hs m "bs @ group_bytes g" "Some (length bs + 2)"]
        by simp
    qed
  next
    case False
    then obtain c s where cs: "colons ks @ ''::'' @ colons hs = c # s" "c \<noteq> CHR '':''"
      using colons_hd by blast
    have "colons (g # ks) @ ''::'' @ colons hs = hex_digits g @ CHR '':'' # (colons ks @ ''::'' @ colons hs)"
      using False by (cases ks) auto
    then have "colons (g # ks) @ ''::'' @ colons hs = hex_digits g @ CHR '':'' # c # s"
      unfolding cs(1) .
    then have "parse6_loop n (colons (g # ks) @ ''::'' @ colons hs) bs None
        = parse6_loop m (colons ks @ ''::'' @ colons hs) (bs @ group_bytes g) None"
      using cs Cons.prems parse6_colon [of g c m s] n by simp
    then show ?thesis using Cons False n by simp
  qed
qed

section \<open>IPv6: the compressed run\<close>

text \<open>What the search for a run of zero groups keeps: no run yet, or a real one\<close>

definition run_ok :: "nat list \<Rightarrow> nat \<times> nat \<Rightarrow> bool" where
  "run_ok gs z \<longleftrightarrow> z = (255, 255) \<or>
     (fst z + 2 \<le> snd z \<and> snd z \<le> length gs \<and> (\<forall>k. fst z \<le> k \<and> k < snd z \<longrightarrow> gs ! k = 0))"

lemma zero_run_bound: "i \<le> length gs \<Longrightarrow> i + zero_run gs i \<le> length gs"
  using length_takeWhile_le [of "\<lambda>g. g = 0" "drop i gs"] by (simp add: zero_run_def)

lemma zero_run_zero:
  assumes "i \<le> k" "k < i + zero_run gs i" "i \<le> length gs"
  shows "gs ! k = 0"
proof -
  let ?t = "takeWhile (\<lambda>g. g = 0) (drop i gs)"
  have k: "k - i < length ?t" using assms by (simp add: zero_run_def)
  then have "?t ! (k - i) \<in> set ?t" by (rule nth_mem)
  then have "?t ! (k - i) = 0" by (auto dest: set_takeWhileD)
  moreover have "?t ! (k - i) = drop i gs ! (k - i)" using k by (rule takeWhile_nth)
  ultimately show ?thesis using assms by simp
qed

lemma better_run_ok: "run_ok gs z \<Longrightarrow> i \<le> length gs \<Longrightarrow> run_ok gs (better_run gs z i)"
  using zero_run_bound [of i gs] zero_run_zero [of i _ gs]
  by (auto simp: better_run_def run_ok_def)

lemma foldl_run_ok:
  "run_ok gs z \<Longrightarrow> (\<forall>i \<in> set is. i \<le> length gs) \<Longrightarrow> run_ok gs (foldl (better_run gs) z is)"
  by (induction "is" arbitrary: z) (simp_all add: better_run_ok)

lemma longest_run_ok: "run_ok gs (longest_run gs)"
  unfolding longest_run_def by (rule foldl_run_ok) (auto simp: run_ok_def)

lemma groups_bytes_zero: "\<forall>g \<in> set gs. g = 0 \<Longrightarrow> groups_bytes gs = replicate (2 * length gs) 0"
  by (induction gs) (auto simp: group_bytes_def)

lemma groups_bytes_run:
  assumes "run_ok gs (zs, ze)" "zs \<noteq> 255"
  shows "groups_bytes gs = groups_bytes (take zs gs) @ replicate (2 * (ze - zs)) 0 @ groups_bytes (drop ze gs)"
proof -
  have z: "zs \<le> ze" "ze \<le> length gs" "\<forall>k. zs \<le> k \<and> k < ze \<longrightarrow> gs ! k = 0"
    using assms by (auto simp: run_ok_def)
  have "gs = take zs gs @ drop zs (take ze gs) @ drop ze gs"
    using z(1) by (metis append.assoc append_take_drop_id min.absorb1 take_take)
  moreover have "groups_bytes (drop zs (take ze gs)) = replicate (2 * (ze - zs)) 0"
    using z groups_bytes_zero [of "drop zs (take ze gs)"] by (force simp: in_set_conv_nth)
  ultimately show ?thesis by (metis groups_bytes_simps(3))
qed

section \<open>IPv6: parsing reads back the printed form\<close>

lemma groups_small: "small_groups (groups a)"
proof (induction a rule: groups.induct)
  case (1 a b r)
  have "octet a \<le> 255" "octet b \<le> 255" using octet_less [of a] octet_less [of b] by linarith+
  then have "256 * octet a + octet b < 65536" by linarith
  with 1 show ?case by simp
qed simp_all

lemma group_bytes_octets: "group_bytes (256 * octet a + octet b) = [a, b]"
  by (simp add: group_bytes_def)

lemma groups_bytes_groups: "even (length a) \<Longrightarrow> groups_bytes (groups a) = a"
  by (induction a rule: groups.induct) (auto simp: group_bytes_octets)

lemma length_groups: "length (groups a) = length a div 2"
  by (induction a rule: groups.induct) auto

lemma colons_set: "c \<in> set (colons gs) \<Longrightarrow> is_hex c \<or> c = CHR '':''"
proof -
  assume "c \<in> set (colons gs)"
  then have "c \<in> {CHR '':''} \<union> \<Union> (set (map set (map hex_digits gs)))"
    using set_join_subset [of "'':''" "map hex_digits gs"] by auto
  then show ?thesis using hex_digits_all by (auto simp: list_all_iff)
qed

lemma string6_set: "c \<in> set (string6 gs) \<Longrightarrow> is_hex c \<or> c = CHR '':''"
  by (auto simp: string6_def split: prod.splits if_splits dest: colons_set)

lemma string6_colon: "length gs = 8 \<Longrightarrow> CHR '':'' \<in> set (string6 gs)"
proof -
  assume "length gs = 8"
  then obtain g h r where "gs = g # h # r" by (auto simp: length_Suc_conv numeral_eq_Suc)
  moreover obtain zs ze where "longest_run gs = (zs, ze)" by (cases "longest_run gs") auto
  ultimately show ?thesis by (auto simp: string6_def)
qed

lemma not_dot_hex: "\<not> is_hex c \<or> (c \<noteq> CHR ''.'' \<and> c \<noteq> CHR ''%'' \<and> c \<noteq> CHR '':'')"
  using not_hex by blast

lemma find_string6:
  assumes "length gs = 8"
  shows "find (\<lambda>c. c = CHR ''.'' \<or> c = CHR '':'' \<or> c = CHR ''%'') (string6 gs) = Some CHR '':''"
proof (cases "find (\<lambda>c. c = CHR ''.'' \<or> c = CHR '':'' \<or> c = CHR ''%'') (string6 gs)")
  case None
  then show ?thesis using string6_colon [OF assms] by (auto simp: find_None_iff)
next
  case (Some c)
  then have "c \<in> set (string6 gs)" "c = CHR ''.'' \<or> c = CHR '':'' \<or> c = CHR ''%''"
    using find_SomeD [OF Some] by auto
  then show ?thesis using Some string6_set [of c gs] not_dot_hex [of c] by auto
qed

lemma colons_no_prefix: "gs \<noteq> [] \<Longrightarrow> \<not> has_prefix (colons gs @ r) ''::''"
  using colons_hd [of gs r] by (metis has_prefix.simps(3))

lemma parse_string6:
  assumes len: "length gs = 8" and small: "small_groups gs"
  shows "parse_ipv6 (string6 gs) = Some (groups_bytes gs)"
proof -
  obtain zs ze where z: "longest_run gs = (zs, ze)" by (cases "longest_run gs") auto
  have ok: "run_ok gs (zs, ze)" using longest_run_ok [of gs] z by simp
  have pc: "CHR ''%'' \<notin> set (string6 gs)"
    using string6_set [of "CHR ''%''" gs] by auto
  show ?thesis
  proof (cases "zs = 255")
    case True
    then have s: "string6 gs = colons gs" using z by (simp add: string6_def)
    have ne: "gs \<noteq> []" using len by auto
    have np: "\<not> has_prefix (colons gs) ''::''" using colons_no_prefix [OF ne, of "[]"] by simp
    then have "colons gs \<noteq> ''::''" by auto
    moreover have "parse6_loop 8 (colons gs) [] None = Some ([], groups_bytes gs, None)"
      using parse6_groups [OF ne, of 8 "[]" None] len small by simp
    ultimately show ?thesis using pc np len by (simp add: parse_ipv6_def s expand_ellipsis_def)
  next
    case False
    let ?p = "take zs gs" and ?q = "drop ze gs"
    have r: "zs + 2 \<le> ze" "ze \<le> 8" using ok False len by (auto simp: run_ok_def)
    have s: "string6 gs = colons ?p @ ''::'' @ colons ?q" using z False by (simp add: string6_def)
    have lp: "length ?p = zs" and lq: "length ?q = 8 - ze" using r len by auto
    have sp: "small_groups ?p" and sq: "small_groups ?q"
      using small_groups_take_drop [OF small] by auto
    have bytes: "groups_bytes gs = groups_bytes ?p @ replicate (2 * (ze - zs)) 0 @ groups_bytes ?q"
      using ok False by (rule groups_bytes_run)
    have exp: "expand_ellipsis (groups_bytes ?p @ groups_bytes ?q) (Some (2 * zs)) = Some (groups_bytes gs)"
    proof -
      have "2 * zs + 2 * (8 - ze) < 16" and "16 - (2 * zs + 2 * (8 - ze)) = 2 * (ze - zs)" using r by auto
      then show ?thesis using lp lq by (simp add: expand_ellipsis_def bytes)
    qed
    show ?thesis
    proof (cases "zs = 0")
      case True
      show ?thesis
      proof (cases "?q = []")
        case True
        then have "groups_bytes gs = replicate 16 0" using bytes \<open>zs = 0\<close> lq r by simp
        then show ?thesis using pc True \<open>zs = 0\<close> by (simp add: parse_ipv6_def s)
      next
        case qne: False
        then have "colons ?q \<noteq> []" by (cases ?q rule: remdups_adj.cases) auto
        then have "string6 gs \<noteq> ''::''" using \<open>zs = 0\<close> s by simp
        moreover have "has_prefix (string6 gs) ''::''" "drop 2 (string6 gs) = colons ?q"
          using \<open>zs = 0\<close> s by simp_all
        moreover have "parse6_loop 8 (colons ?q) [] (Some 0) = Some ([], groups_bytes ?q, Some 0)"
          using parse6_groups [OF qne, of 8 "[]" "Some 0"] lq sq by simp
        ultimately show ?thesis using exp \<open>zs = 0\<close> pc by (simp add: parse_ipv6_def)
      qed
    next
      case pos: False
      then have pne: "?p \<noteq> []" using lp by auto
      have np: "\<not> has_prefix (string6 gs) ''::''" unfolding s using pne by (rule colons_no_prefix)
      moreover have "string6 gs \<noteq> ''::''" using np by auto
      moreover have "parse6_loop 8 (string6 gs) [] None
          = Some ([], groups_bytes ?p @ groups_bytes ?q, Some (2 * zs))"
        unfolding s using parse6_two_runs [OF pne, of ?q 8 "[]"] lp lq sp sq r by simp
      ultimately show ?thesis using exp pc by (simp add: parse_ipv6_def)
    qed
  qed
qed

lemma v4_mapped_to4: "length a = 16 \<Longrightarrow> to4 a = Some q \<Longrightarrow> v4_mapped q = a \<and> length q = 4"
proof -
  assume a: "length a = 16" "to4 a = Some q"
  then have "take 12 a = replicate 10 0 @ [255, 255]" "q = drop 12 a"
    by (auto simp: to4_def split: if_splits)
  then show ?thesis using a(1) append_take_drop_id [of 12 a] by (simp add: v4_mapped_def)
qed

lemma length_v4_mapped [simp]: "length (v4_mapped q) = 12 + length q"
  by (simp add: v4_mapped_def)

lemma to4_v4_mapped [simp]: "length q = 4 \<Longrightarrow> to4 (v4_mapped q) = Some q"
  by (simp add: to4_def v4_mapped_def)

theorem parse_ip_string:
  assumes "wf_ip a"
  shows "parse_ip (ip_string a) = Some (to16 a)"
proof (cases "to4 a")
  case (Some q)
  have q: "v4_mapped q = to16 a" "length q = 4"
    using assms Some v4_mapped_to4 [of a q] by (auto simp: wf_ip_def to16_def to4_def split: if_splits)
  then show ?thesis using assms Some parse_ip_dotted [of q]
    by (auto simp: ip_string_def wf_ip_def)
next
  case None
  then have len: "length a = 16" using assms by (auto simp: wf_ip_def to4_def)
  then have "ip_string a = string6 (groups a)" using None by (auto simp: ip_string_def)
  moreover have "length (groups a) = 8" "groups_bytes (groups a) = a"
    using len by (simp_all add: length_groups groups_bytes_groups)
  ultimately show ?thesis
    using len find_string6 [of "groups a"] parse_string6 [of "groups a"] groups_small
    by (simp add: parse_ip_def to16_def)
qed

section \<open>What a parsed address looks like\<close>

lemma parse6_loop_length:
  "parse6_loop n s bs ell = Some (r, bs', ell') \<Longrightarrow> length bs + 2 * n \<le> 16 \<Longrightarrow> length bs' \<le> 16"
proof (induction n arbitrary: s bs ell)
  case 0
  then show ?case by simp
next
  case (Suc n)
  let ?bs = "bs @ group_bytes (hex_value (takeWhile is_hex s))"
  have rec: "parse6_loop n t ?bs l = Some (r, bs', ell') \<Longrightarrow> length bs' \<le> 16" for t l
    using Suc.IH [of t ?bs l] Suc.prems(2) by simp
  have last: "length ?bs \<le> 16" using Suc.prems(2) by simp
  show ?case using Suc.prems last
    by (auto simp: Let_def split: if_splits list.splits option.splits dest: parse_ipv4_length rec)
qed

lemma expand_ellipsis_length: "expand_ellipsis bs ell = Some a \<Longrightarrow> length bs \<le> 16 \<Longrightarrow> length a = 16"
  by (auto simp: expand_ellipsis_def split: if_splits option.splits)

lemma parse_ip_length: "parse_ip s = Some a \<Longrightarrow> length a = 16"
proof -
  assume "parse_ip s = Some a"
  then consider q where "parse_ipv4 s = Some q" "a = v4_mapped q" | "parse_ipv6 s = Some a"
    by (auto simp: parse_ip_def split: option.splits if_splits)
  then show ?thesis
  proof cases
    case 1
    then show ?thesis by (simp add: parse_ipv4_length)
  next
    case 2
    then show ?thesis
      by (auto simp: parse_ipv6_def expand_ellipsis_length parse6_loop_length
          split: if_splits option.splits prod.splits dest!: parse6_loop_length expand_ellipsis_length)
  qed
qed

section \<open>The contract of address text\<close>

text \<open>
  A client that normalises addresses relies on a parser and a printer that agree up to a
  canonical form: a printed address parses to its canonical form, and a parsed address is
  well formed and already canonical.
\<close>

locale address_text =
  fixes parse :: "string \<Rightarrow> 'a option"
    and print :: "'a \<Rightarrow> string"
    and canon :: "'a \<Rightarrow> 'a"
    and valid :: "'a \<Rightarrow> bool"
  assumes parse_print: "valid a \<Longrightarrow> parse (print a) = Some (canon a)"
    and parse_valid: "parse s = Some a \<Longrightarrow> valid a \<and> canon a = a"
begin

lemma reparse: "parse s = Some a \<Longrightarrow> parse (print a) = Some a"
  using parse_valid [of s a] parse_print [of a] by simp

lemma print_inj: "parse s = Some a \<Longrightarrow> parse t = Some b \<Longrightarrow> print a = print b \<longleftrightarrow> a = b"
  by (metis option.inject reparse)

lemma print_inj_canon: "valid a \<Longrightarrow> valid b \<Longrightarrow> print a = print b \<Longrightarrow> canon a = canon b"
  by (metis option.inject parse_print)

lemma same_text_iff:
  "parse s = Some a \<Longrightarrow> parse t = Some b \<Longrightarrow> (parse s = parse t) \<longleftrightarrow> print a = print b"
  by (metis option.inject print_inj)

end

interpretation go_ip: address_text parse_ip ip_string to16 wf_ip
  by unfold_locales (auto simp: parse_ip_string wf_ip_def to16_def dest: parse_ip_length)

text \<open>Printed addresses hold only hexadecimal digits, dots and colons.\<close>

definition addr_char :: "char \<Rightarrow> bool" where
  "addr_char c \<longleftrightarrow> is_digit c \<or> (97 \<le> byte_of c \<and> byte_of c \<le> 102) \<or> c = CHR ''.'' \<or> c = CHR '':''"

lemma hex_digits_addr: "list_all addr_char (hex_digits n)"
proof (induction n rule: hex_digits.induct)
  case (1 n)
  have "addr_char (hex_char m)" if "m < 16" for m
    using that by (auto simp: addr_char_def is_digit_def byte_hex_char)
  with 1 show ?case by (subst hex_digits.simps) simp
qed

lemma join_chars: "list_all P sep \<Longrightarrow> (\<And>x. x \<in> set xs \<Longrightarrow> list_all P x) \<Longrightarrow> list_all P (join sep xs)"
  using set_join_subset [of sep xs] by (fastforce simp: list_all_iff)

lemma string6_addr: "list_all addr_char (string6 gs)"
proof -
  have "list_all addr_char (colons hs)" for hs
    by (rule join_chars) (auto simp: addr_char_def hex_digits_addr)
  then show ?thesis by (simp add: string6_def addr_char_def split: prod.splits)
qed

lemma dotted_addr: "list_all addr_char (dotted q)"
  unfolding dotted_def
proof (rule join_chars)
  fix x assume "x \<in> set (map (\<lambda>b. nat_digits (octet b)) q)"
  then show "list_all addr_char x"
    using nat_digits_all_digits by (auto simp: list_all_iff addr_char_def)
qed (simp add: addr_char_def)

lemma ip_string_addr: "wf_ip a \<Longrightarrow> list_all addr_char (ip_string a)"
  by (auto simp: ip_string_def wf_ip_def string6_addr dotted_addr split: option.splits)

lemma ip_string_not_Nil: "wf_ip a \<Longrightarrow> ip_string a \<noteq> []"
  using parse_ip_string [of a] by (auto simp: parse_ip_def)

end
