(* ===== verification/Backend.thy ===== *)
theory Backend
  imports Go_IP
begin

text \<open>
  \<open>internal/backend/backend.go\<close> and \<open>diff.go\<close>: the desired filtering state, the helpers that
  compare two states, the choice of a backend, and the contract of the Go interface
  \<open>Backend\<close> in two locales: \<open>backend\<close>, what the engine relies on, and \<open>whole_backend\<close>, all that the
  interface documents (atomic \<open>Apply\<close>, \<open>Teardown\<close>). A Go \<open>map[int]IPSet\<close> is an association list without
  repeated keys, in the order in which Go happens to iterate over it.
\<close>

section \<open>Desired state\<close>

record ipset =
  V4 :: "string list"
  V6 :: "string list"

definition empty_ipset :: ipset where
  "empty_ipset = \<lparr>V4 = [], V6 = []\<rparr>"

definition Empty :: "ipset \<Rightarrow> bool" where
  "Empty s \<longleftrightarrow> V4 s = [] \<and> V6 s = []"

record fw_state =
  GlobalSet :: ipset
  PerUser :: "(int \<times> ipset) list"

text \<open>Indexing a Go map: the zero value for a missing key\<close>

definition ipset_at :: "(int \<times> ipset) list \<Rightarrow> int \<Rightarrow> ipset" where
  "ipset_at m uid = (case map_of m uid of None \<Rightarrow> empty_ipset | Some s \<Rightarrow> s)"

text \<open>Which external command an error of a backend is about\<close>

datatype backend_error = NftFailed | IpsetFailed | IptablesFailed | IpsetListFailed

section \<open>Helpers\<close>

definition sorted_uids :: "(int \<times> ipset) list \<Rightarrow> int list" where
  "sorted_uids m = sort (map fst m)"

definition clone_ipset :: "ipset \<Rightarrow> ipset" where
  "clone_ipset s = \<lparr>V4 = [] @ V4 s, V6 = [] @ V6 s\<rparr>"

text \<open>The copy of the per-user map is filled key by key.\<close>

definition clone_state :: "fw_state \<Rightarrow> fw_state" where
  "clone_state s =
     \<lparr>GlobalSet = clone_ipset (GlobalSet s), PerUser = map (\<lambda>(uid, set). (uid, clone_ipset set)) (PerUser s)\<rparr>"

definition same_uids :: "(int \<times> ipset) list \<Rightarrow> (int \<times> ipset) list \<Rightarrow> bool" where
  "same_uids a b \<longleftrightarrow> length a = length b \<and> list_all (\<lambda>(uid, _). map_of b uid \<noteq> None) a"

definition diff_strings :: "string list \<Rightarrow> string list \<Rightarrow> string list \<times> string list" where
  "diff_strings prev next =
     (filter (\<lambda>v. v \<notin> set prev) next, filter (\<lambda>v. v \<notin> set next) prev)"

text \<open>\<open>Detect\<close>: what was found on the path, and whether \<open>nft list ruleset\<close> worked\<close>

datatype backend_kind = Nftables | IptablesIpset

definition has_working_nft :: "(string \<Rightarrow> bool) \<Rightarrow> bool \<Rightarrow> bool" where
  "has_working_nft look_path list_ruleset_ok \<longleftrightarrow> (if \<not> look_path ''nft'' then False else list_ruleset_ok)"

definition has_iptables_and_ipset :: "(string \<Rightarrow> bool) \<Rightarrow> bool" where
  "has_iptables_and_ipset look_path \<longleftrightarrow> look_path ''iptables'' \<and> look_path ''ipset''"

definition detect :: "(string \<Rightarrow> bool) \<Rightarrow> bool \<Rightarrow> backend_kind option" where
  "detect look_path list_ruleset_ok =
     (if has_working_nft look_path list_ruleset_ok then Some Nftables
      else if has_iptables_and_ipset look_path then Some IptablesIpset
      else None)"

subsection \<open>What the helpers compute\<close>

lemma clone_ipset_id [simp]: "clone_ipset s = s"
  by (simp add: clone_ipset_def)

lemma clone_state_id [simp]: "clone_state s = s"
  by (simp add: clone_state_def)

lemma set_sorted_uids [simp]: "set (sorted_uids m) = fst ` set m"
  by (simp add: sorted_uids_def)

lemma strict_sorted_uids: "distinct (map fst m) \<Longrightarrow> strict_sorted (sorted_uids m)"
  by (simp add: sorted_uids_def strict_sorted_sort)

lemma sorted_uids_unique:
  assumes "distinct (map fst a)" "distinct (map fst b)"
  shows "sorted_uids a = sorted_uids b \<longleftrightarrow> fst ` set a = fst ` set b"
  using assms strict_sorted_unique [OF strict_sorted_uids strict_sorted_uids, of a b] by simp

theorem same_uids_iff:
  assumes "distinct (map fst a)" "distinct (map fst b)"
  shows "same_uids a b \<longleftrightarrow> fst ` set a = fst ` set b"
proof -
  have keys: "list_all (\<lambda>(uid, _). map_of b uid \<noteq> None) a \<longleftrightarrow> fst ` set a \<subseteq> fst ` set b"
    by (force simp: list_all_iff map_of_eq_None_iff)
  have len: "length m = card (fst ` set m)" if "distinct (map fst m)" for m :: "(int \<times> ipset) list"
    using distinct_card [OF that] by simp
  show ?thesis
  proof
    assume "same_uids a b"
    then have "fst ` set a \<subseteq> fst ` set b" "card (fst ` set a) = card (fst ` set b)"
      using keys len assms by (auto simp: same_uids_def)
    then show "fst ` set a = fst ` set b" by (intro card_subset_eq) auto
  next
    assume e: "fst ` set a = fst ` set b"
    then have "length a = length b" using len assms by metis
    then show "same_uids a b" using keys e by (auto simp: same_uids_def)
  qed
qed

lemma same_uids_sorted:
  "distinct (map fst a) \<Longrightarrow> distinct (map fst b) \<Longrightarrow> same_uids a b \<longleftrightarrow> sorted_uids a = sorted_uids b"
  by (simp add: same_uids_iff sorted_uids_unique)

theorem diff_strings_spec:
  assumes "diff_strings prev next = (added, removed)"
  shows "set added = set next - set prev" "set removed = set prev - set next"
    and "(set prev \<union> set added) - set removed = set next"
    and "added = [] \<and> removed = [] \<longleftrightarrow> set prev = set next"
  using assms by (auto simp: diff_strings_def filter_empty_conv)

section \<open>Packets and what a state blocks\<close>

text \<open>
  An outgoing packet: the uid that owns its socket, its family, and its destination address
  in canonical text.
\<close>

record packet =
  skuid :: int
  is_v6 :: bool
  daddr :: string

definition family_of :: "bool \<Rightarrow> ipset \<Rightarrow> string list" where
  "family_of v6 s = (if v6 then V6 s else V4 s)"

text \<open>
  The specification: global addresses are dropped for every user, the addresses of a uid only
  for that uid.
\<close>

definition blocked :: "fw_state \<Rightarrow> packet \<Rightarrow> bool" where
  "blocked st p \<longleftrightarrow>
     daddr p \<in> set (family_of (is_v6 p) (GlobalSet st)) \<or>
     daddr p \<in> set (family_of (is_v6 p) (ipset_at (PerUser st) (skuid p)))"

text \<open>
  The states the engine hands to a backend: no repeated uid, uids the kernel knows (32 bits),
  and addresses in canonical text of their family.
\<close>

definition kernel_uid :: "int \<Rightarrow> bool" where
  "kernel_uid u \<longleftrightarrow> 0 \<le> u \<and> u < 2 ^ 32"

text \<open>The text of an address as \<open>IP.String\<close> prints it, by family\<close>

definition addr_text :: "bool \<Rightarrow> string \<Rightarrow> bool" where
  "addr_text v6 a \<longleftrightarrow>
     (case parse_ip a of None \<Rightarrow> False | Some x \<Rightarrow> ip_string x = a \<and> (to4 x = None \<longleftrightarrow> v6))"

definition wf_ipset :: "ipset \<Rightarrow> bool" where
  "wf_ipset s \<longleftrightarrow> distinct (V4 s) \<and> distinct (V6 s) \<and>
     list_all (addr_text False) (V4 s) \<and> list_all (addr_text True) (V6 s)"

definition wf_state :: "fw_state \<Rightarrow> bool" where
  "wf_state st \<longleftrightarrow> distinct (map fst (PerUser st)) \<and> wf_ipset (GlobalSet st) \<and>
     (\<forall>(uid, s) \<in> set (PerUser st). kernel_uid uid \<and> wf_ipset s)"

lemma addr_text_chars: "addr_text v6 a \<Longrightarrow> list_all addr_char a \<and> a \<noteq> []"
  using go_ip.parse_valid ip_string_addr ip_string_not_Nil
  by (fastforce simp: addr_text_def split: option.splits)

lemma addr_text_print:
  assumes "wf_ip x"
  shows "addr_text (to4 x = None) (ip_string x)"
proof -
  have 4: "to4 (to16 x) = to4 x"
    by (cases "length x = 4") (simp_all add: to16_def, simp add: to4_def)
  have "length (to16 x) = 16" using assms by (auto simp: to16_def wf_ip_def)
  then have "ip_string (to16 x) = ip_string x"
    using assms 4 by (cases "length x = 4") (auto simp: ip_string_def wf_ip_def to16_def to4_def)
  then show ?thesis using go_ip.parse_print [OF assms] 4 by (simp add: addr_text_def)
qed

lemma wf_empty_ipset [simp]: "wf_ipset empty_ipset"
  by (simp add: wf_ipset_def empty_ipset_def)

text \<open>The part of it that is about addresses\<close>

definition wf_sets :: "fw_state \<Rightarrow> bool" where
  "wf_sets st \<longleftrightarrow> wf_ipset (GlobalSet st) \<and> (\<forall>(uid, s) \<in> set (PerUser st). wf_ipset s)"

lemma wf_state_sets: "wf_state st \<Longrightarrow> wf_sets st"
  by (auto simp: wf_state_def wf_sets_def)

lemma wf_sets_at: "wf_sets st \<Longrightarrow> wf_ipset (ipset_at (PerUser st) uid)"
  by (auto simp: ipset_at_def wf_sets_def dest!: map_of_SomeD split: option.splits)

lemma wf_ipset_at: "wf_state st \<Longrightarrow> wf_ipset (ipset_at (PerUser st) uid)"
  by (rule wf_sets_at) (rule wf_state_sets)

lemma wf_state_uids: "wf_state st \<Longrightarrow> u \<in> set (sorted_uids (PerUser st)) \<Longrightarrow> kernel_uid u"
  by (auto simp: wf_state_def)

lemma ipset_at_notin: "u \<notin> set (sorted_uids m) \<Longrightarrow> ipset_at m u = empty_ipset"
  using map_of_eq_None_iff [of m u] by (simp add: ipset_at_def)

section \<open>The contract of a backend\<close>

text \<open>
  \<open>apply\<close> takes the backend's own record of what it applied last, together with the kernel's
  state, and returns both with the error. \<open>enforces b st\<close> says that packets are treated as
  \<open>st\<close> asks; \<open>inv\<close> is what the backend keeps about its record. The contract: applying keeps
  the invariant whatever happens, and without an error the new state is enforced.
\<close>

locale backend =
  fixes apply_state :: "'b \<Rightarrow> fw_state \<Rightarrow> 'b \<times> 'e option"
    and verdict :: "'b \<Rightarrow> packet \<Rightarrow> bool"
    and inv :: "'b \<Rightarrow> bool"
  assumes apply_inv: "inv b \<Longrightarrow> wf_state st \<Longrightarrow> apply_state b st = (b', r) \<Longrightarrow> inv b'"
    and apply_enforces: "inv b \<Longrightarrow> wf_state st \<Longrightarrow> apply_state b st = (b', None) \<Longrightarrow>
      verdict b' p \<longleftrightarrow> blocked st p"
begin

text \<open>Applying a list of states one after the other, as the engine does over time\<close>

fun apply_seq :: "'b \<Rightarrow> fw_state list \<Rightarrow> 'b \<times> 'e option list" where
  "apply_seq b [] = (b, [])"
| "apply_seq b (st # sts) =
     (case apply_state b st of (b', r) \<Rightarrow> case apply_seq b' sts of (b'', rs) \<Rightarrow> (b'', r # rs))"

lemma apply_seq_inv:
  "inv b \<Longrightarrow> \<forall>st \<in> set sts. wf_state st \<Longrightarrow> apply_seq b sts = (b', rs) \<Longrightarrow> inv b'"
  by (induction sts arbitrary: b b' rs) (auto split: prod.splits dest: apply_inv)

text \<open>Whatever failed before, the last successful application decides.\<close>

lemma apply_seq_last:
  assumes "inv b" "\<forall>st \<in> set sts. wf_state st" "wf_state st"
    and "apply_seq b (sts @ [st]) = (b', rs @ [None])"
  shows "verdict b' p \<longleftrightarrow> blocked st p"
  using assms
proof (induction sts arbitrary: b rs)
  case Nil
  then show ?case
    by (cases rs) (auto split: prod.splits dest: apply_enforces)
next
  case (Cons s sts)
  obtain b1 r1 where 1: "apply_state b s = (b1, r1)" by (cases "apply_state b s") auto
  obtain b2 rs2 where 2: "apply_seq b1 (sts @ [st]) = (b2, rs2)" by (cases "apply_seq b1 (sts @ [st])") auto
  have e: "b' = b2" "rs @ [None] = r1 # rs2" using Cons.prems(4) 1 2 by auto
  have "rs2 \<noteq> []" using 2 by (cases sts) (auto split: prod.splits)
  then obtain rs3 where rs3: "rs2 = rs3 @ [None]" using e(2) by (cases rs2 rule: rev_cases) auto
  show ?case
    by (rule Cons.IH [of b1 rs3]) (use Cons.prems 1 2 e rs3 in \<open>auto dest: apply_inv\<close>)
qed

end

text \<open>
  The rest of what the interface documents: an \<open>Apply\<close> that fails leaves in force what was in
  force, and after a \<open>Teardown\<close> without an error nothing is blocked.
\<close>

locale whole_backend = backend apply_state verdict inv
  for apply_state :: "'b \<Rightarrow> fw_state \<Rightarrow> 'b \<times> 'e option" and verdict :: "'b \<Rightarrow> packet \<Rightarrow> bool" and inv :: "'b \<Rightarrow> bool" +
  fixes teardown :: "'b \<Rightarrow> 'b \<times> 'e option"
  assumes apply_retains: "inv b \<Longrightarrow> wf_state st \<Longrightarrow> apply_state b st = (b', Some e) \<Longrightarrow> verdict b' p \<longleftrightarrow> verdict b p"
    and teardown_inv: "inv b \<Longrightarrow> teardown b = (b', r) \<Longrightarrow> inv b'"
    and teardown_removes: "inv b \<Longrightarrow> teardown b = (b', None) \<Longrightarrow> \<not> verdict b' p"
begin

text \<open>At every moment the firewall is that of the last application that succeeded.\<close>

lemma apply_seq_decided:
  assumes "inv b" "\<forall>st \<in> set sts. wf_state st" "apply_seq b sts = (b', rs)"
  shows "verdict b' p \<longleftrightarrow>
    (case filter (\<lambda>x. snd x = None) (rev (zip sts rs)) of [] \<Rightarrow> verdict b p | x # _ \<Rightarrow> blocked (fst x) p)"
  using assms
proof (induction sts arbitrary: b rs)
  case Nil
  then show ?case by simp
next
  case (Cons st sts)
  obtain b1 r1 where 1: "apply_state b st = (b1, r1)" by (cases "apply_state b st")
  obtain rs1 where 2: "apply_seq b1 sts = (b', rs1)" and rs: "rs = r1 # rs1"
    using Cons.prems(3) 1 by (auto split: prod.splits)
  have "inv b1" using Cons.prems(1,2) apply_inv [OF _ _ 1] by simp
  note ih = Cons.IH [OF this _ 2]
  have "verdict b1 p \<longleftrightarrow> (if r1 = None then blocked st p else verdict b p)"
    using Cons.prems(1,2) apply_enforces [of b st b1 p] apply_retains [of b st b1 _ p] 1 by (cases r1) auto
  then show ?case using ih Cons.prems(2)
    by (cases "filter (\<lambda>x. snd x = None) (rev (zip sts rs1))") (auto simp: rs)
qed

end

end
