(* ===== verification/Resolver.thy ===== *)
theory Resolver
  imports Backend
begin

text \<open>
  \<open>internal/resolver/resolver.go\<close>: the lookup of one domain, and \<open>ResolveMany\<close> as the step
  relation of its goroutines: a feeder, a pool of workers and the collecting loop, which
  communicate over unbuffered channels. Every schedule ends, no reachable state is stuck,
  at most \<open>concurrency\<close> lookups run at a time, and the two result maps do not depend on the
  schedule: they are those of the sequential \<open>resolve_many\<close>.
\<close>

section \<open>One domain\<close>

record resolved =
  RV4 :: "string list"
  RV6 :: "string list"

text \<open>A duration in nanoseconds; the default of \<open>New\<close> is five seconds\<close>

definition second :: int where
  "second = 1000000000"

definition new_timeout :: "int \<Rightarrow> int" where
  "new_timeout timeout = (if timeout \<le> 0 then 5 * second else timeout)"

text \<open>The loop with the map \<open>seen\<close>, then \<open>sort.Strings\<close>\<close>

fun unseen :: "string list \<Rightarrow> string list \<Rightarrow> string list" where
  "unseen seen [] = []"
| "unseen seen (v # vs) = (if v \<in> set seen then unseen seen vs else v # unseen (set_put v seen) vs)"

definition sorted_unique_strings :: "string list \<Rightarrow> string list" where
  "sorted_unique_strings vs = sort (unseen [] vs)"

fun split_families :: "ip list \<Rightarrow> resolved \<Rightarrow> resolved" where
  "split_families [] res = res"
| "split_families (ip # ips) res =
     (case to4 ip of
        Some v4 \<Rightarrow> split_families ips (res\<lparr>RV4 := RV4 res @ [ip_string v4]\<rparr>)
      | None \<Rightarrow> split_families ips (res\<lparr>RV6 := RV6 res @ [ip_string ip]\<rparr>))"

text \<open>\<open>lookup\<close> is what the system resolver answers within the timeout.\<close>

definition resolve :: "(string \<Rightarrow> 'e + ip list) \<Rightarrow> string \<Rightarrow> 'e + resolved" where
  "resolve lookup domain =
     (case lookup domain of
        Inl e \<Rightarrow> Inl e
      | Inr ips \<Rightarrow>
          let res = split_families ips \<lparr>RV4 = [], RV6 = []\<rparr> in
          Inr (res\<lparr>RV4 := sorted_unique_strings (RV4 res), RV6 := sorted_unique_strings (RV6 res)\<rparr>))"

lemma set_unseen: "set (unseen seen vs) = set vs - set seen"
  by (induction vs arbitrary: seen) auto

lemma distinct_unseen: "distinct (unseen seen vs)"
  by (induction vs arbitrary: seen) (auto simp: set_unseen)

lemma sorted_unique_strings_spec:
  "strict_sorted (sorted_unique_strings vs)" "set (sorted_unique_strings vs) = set vs"
  by (simp_all add: sorted_unique_strings_def strict_sorted_sort distinct_unseen set_unseen)

lemma split_families_eq:
  "RV4 (split_families ips res) = RV4 res @ map (\<lambda>ip. ip_string (the (to4 ip))) (filter (\<lambda>ip. to4 ip \<noteq> None) ips)"
  "RV6 (split_families ips res) = RV6 res @ map ip_string (filter (\<lambda>ip. to4 ip = None) ips)"
  by (induction ips arbitrary: res) (auto split: option.splits)

text \<open>A result of the resolver: both lists strictly sorted, each address in the text of its family\<close>

definition wf_resolved :: "resolved \<Rightarrow> bool" where
  "wf_resolved res \<longleftrightarrow> strict_sorted (RV4 res) \<and> strict_sorted (RV6 res) \<and>
     list_all (addr_text False) (RV4 res) \<and> list_all (addr_text True) (RV6 res)"

lemma to4_idem: "to4 ip = Some x \<Longrightarrow> to4 x = Some x \<and> length x = 4"
  by (auto simp: to4_def split: if_splits)

lemma to4_string: "wf_ip ip \<Longrightarrow> to4 ip = Some x \<Longrightarrow> ip_string x = ip_string ip"
proof -
  assume "wf_ip ip" and 4: "to4 ip = Some x"
  then have "length ip = 4 \<or> length ip = 16" by (simp add: wf_ip_def)
  moreover have "x \<noteq> []" "ip \<noteq> []" using to4_idem [OF 4] calculation by auto
  ultimately show ?thesis using 4 to4_idem [OF 4] by (auto simp: ip_string_def)
qed

theorem resolve_spec:
  assumes "lookup d = Inr ips" "resolve lookup d = Inr res"
  shows "set (RV4 res) = {ip_string (the (to4 ip)) | ip. ip \<in> set ips \<and> to4 ip \<noteq> None}"
    and "set (RV6 res) = {ip_string ip | ip. ip \<in> set ips \<and> to4 ip = None}"
    and "list_all wf_ip ips \<Longrightarrow> wf_resolved res"
proof -
  let ?r = "split_families ips \<lparr>RV4 = [], RV6 = []\<rparr>"
  have res: "RV4 res = sorted_unique_strings (RV4 ?r)" "RV6 res = sorted_unique_strings (RV6 ?r)"
    using assms by (auto simp: resolve_def Let_def)
  show v4: "set (RV4 res) = {ip_string (the (to4 ip)) | ip. ip \<in> set ips \<and> to4 ip \<noteq> None}"
    unfolding res(1) sorted_unique_strings_spec(2) split_families_eq by auto
  show v6: "set (RV6 res) = {ip_string ip | ip. ip \<in> set ips \<and> to4 ip = None}"
    unfolding res(2) sorted_unique_strings_spec(2) split_families_eq by auto
  show "wf_resolved res" if wf: "list_all wf_ip ips"
  proof -
    have "addr_text False (ip_string (the (to4 ip)))" if "ip \<in> set ips" "to4 ip \<noteq> None" for ip
    proof -
      have "wf_ip ip" using that(1) wf by (simp add: list_all_iff)
      then show ?thesis using that(2) addr_text_print [of ip] to4_string [of ip] by auto
    qed
    moreover have "addr_text True (ip_string ip)" if "ip \<in> set ips" "to4 ip = None" for ip
      using addr_text_print [of ip] that wf by (simp add: list_all_iff)
    ultimately show ?thesis
      unfolding wf_resolved_def list_all_iff v4 v6 res(1,2)
      using sorted_unique_strings_spec(1) v4 v6 res by auto
  qed
qed

section \<open>Many domains, one after the other\<close>

text \<open>\<open>f\<close> is what a lookup answers for each domain during the call.\<close>

fun resolve_many :: "(string \<Rightarrow> 'e + resolved) \<Rightarrow> string list \<Rightarrow> (string \<times> resolved) list \<times> (string \<times> 'e) list" where
  "resolve_many f [] = ([], [])"
| "resolve_many f (d # ds) =
     (case resolve_many f ds of
        (results, failures) \<Rightarrow>
          (case f d of
             Inl e \<Rightarrow> (results, (d, e) # failures)
           | Inr res \<Rightarrow> ((d, res) # results, failures)))"

lemma resolve_many_maps:
  assumes "resolve_many f ds = (results, failures)"
  shows "map_of results d = (if d \<in> set ds then (case f d of Inl e \<Rightarrow> None | Inr r \<Rightarrow> Some r) else None)"
    and "map_of failures d = (if d \<in> set ds then (case f d of Inl e \<Rightarrow> Some e | Inr r \<Rightarrow> None) else None)"
  using assms by (induction ds arbitrary: results failures) (auto split: prod.splits sum.splits)

lemma resolve_many_keys:
  assumes "resolve_many f ds = (results, failures)"
  shows "set (map fst results) \<subseteq> set ds" "set (map fst failures) \<subseteq> set ds"
    and "distinct ds \<Longrightarrow> distinct (map fst results) \<and> distinct (map fst failures)"
proof -
  have "set (map fst results) \<subseteq> set ds \<and> set (map fst failures) \<subseteq> set ds \<and>
      (distinct ds \<longrightarrow> distinct (map fst results) \<and> distinct (map fst failures))"
    using assms by (induction ds arbitrary: results failures) (force split: prod.splits sum.splits)+
  then show "set (map fst results) \<subseteq> set ds" "set (map fst failures) \<subseteq> set ds"
    "distinct ds \<Longrightarrow> distinct (map fst results) \<and> distinct (map fst failures)" by auto
qed

section \<open>Many domains, concurrently\<close>

datatype 'e worker = Idle | Working string | Sending string "'e + resolved" | Stopped

text \<open>
  The feeder's remaining domains, the workers, the maps of the collecting loop, and whether
  the result channel is closed, which ends that loop
\<close>

record 'e pool =
  queue :: "string list"
  workers :: "'e worker list"
  results :: "string \<Rightarrow> resolved option"
  failures :: "string \<Rightarrow> 'e option"
  closed :: bool

fun collect :: "string \<Rightarrow> 'e + resolved \<Rightarrow> 'e pool \<Rightarrow> 'e pool" where
  "collect d (Inl e) p = p\<lparr>failures := (failures p)(d \<mapsto> e)\<rparr>"
| "collect d (Inr r) p = p\<lparr>results := (results p)(d \<mapsto> r)\<rparr>"

definition start_pool :: "string list \<Rightarrow> int \<Rightarrow> 'e pool" where
  "start_pool domains concurrency =
     \<lparr>queue = domains, workers = replicate (nat (if concurrency < 1 then 1 else concurrency)) Idle,
      results = (\<lambda>_. None), failures = (\<lambda>_. None), closed = False\<rparr>"

inductive pool_step :: "(string \<Rightarrow> 'e + resolved) \<Rightarrow> 'e pool \<Rightarrow> 'e pool \<Rightarrow> bool" for f where
  take_job: "queue p = d # ds \<Longrightarrow> i < length (workers p) \<Longrightarrow> workers p ! i = Idle \<Longrightarrow>
    pool_step f p (p\<lparr>queue := ds, workers := (workers p)[i := Working d]\<rparr>)"
| look_up: "i < length (workers p) \<Longrightarrow> workers p ! i = Working d \<Longrightarrow>
    pool_step f p (p\<lparr>workers := (workers p)[i := Sending d (f d)]\<rparr>)"
| deliver: "i < length (workers p) \<Longrightarrow> workers p ! i = Sending d r \<Longrightarrow> \<not> closed p \<Longrightarrow>
    pool_step f p (collect d r (p\<lparr>workers := (workers p)[i := Idle]\<rparr>))"
| stop: "queue p = [] \<Longrightarrow> i < length (workers p) \<Longrightarrow> workers p ! i = Idle \<Longrightarrow>
    pool_step f p (p\<lparr>workers := (workers p)[i := Stopped]\<rparr>)"
| close_out: "\<forall>w \<in> set (workers p). w = Stopped \<Longrightarrow> \<not> closed p \<Longrightarrow> pool_step f p (p\<lparr>closed := True\<rparr>)"

definition pool_run :: "(string \<Rightarrow> 'e + resolved) \<Rightarrow> 'e pool \<Rightarrow> 'e pool \<Rightarrow> bool" where
  "pool_run f = (pool_step f)\<^sup>*\<^sup>*"

inductive_cases pool_stepE: "pool_step f p p'"

subsection \<open>Domains on their way\<close>

fun carried :: "'e worker \<Rightarrow> string list" where
  "carried (Working d) = [d]"
| "carried (Sending d r) = [d]"
| "carried _ = []"

definition in_flight :: "'e worker list \<Rightarrow> string list" where
  "in_flight ws = concat (map carried ws)"

lemma in_flight_update:
  "i < length ws \<Longrightarrow>
   mset (in_flight (ws[i := w])) + mset (carried (ws ! i)) = mset (in_flight ws) + mset (carried w)"
  by (induction ws arbitrary: i) (auto simp: in_flight_def nth_Cons' list_update_def split: nat.splits)

lemma length_in_flight: "length (in_flight ws) \<le> length ws"
proof (induction ws)
  case (Cons w ws)
  have "length (carried w) \<le> 1" by (cases w) auto
  then show ?case using Cons by (simp add: in_flight_def)
qed (simp add: in_flight_def)

definition pending :: "'e pool \<Rightarrow> string multiset" where
  "pending p = mset (queue p) + mset (in_flight (workers p))"

text \<open>
  Each domain is pending or in exactly one result map, with the answer of its lookup; the
  workers are as many as asked for; and they only stop when the queue is empty.
\<close>

definition pool_inv :: "(string \<Rightarrow> 'e + resolved) \<Rightarrow> string list \<Rightarrow> nat \<Rightarrow> 'e pool \<Rightarrow> bool" where
  "pool_inv f domains n p \<longleftrightarrow>
     length (workers p) = n \<and>
     pending p \<subseteq># mset domains \<and>
     (\<forall>d \<in> set domains. d \<in># pending p \<longleftrightarrow> results p d = None \<and> failures p d = None) \<and>
     (\<forall>d r. Sending d r \<in> set (workers p) \<longrightarrow> r = f d) \<and>
     (\<forall>d. results p d = None \<or> f d = Inr (the (results p d)) \<and> d \<in> set domains) \<and>
     (\<forall>d. failures p d = None \<or> f d = Inl (the (failures p d)) \<and> d \<in> set domains) \<and>
     (Stopped \<in> set (workers p) \<longrightarrow> queue p = []) \<and>
     (closed p \<longrightarrow> (\<forall>w \<in> set (workers p). w = Stopped))"

lemma in_flight_replicate: "in_flight (replicate n Idle) = []"
  by (induction n) (auto simp: in_flight_def)

lemma start_inv:
  "pool_inv f domains (nat (if concurrency < 1 then 1 else concurrency)) (start_pool domains concurrency)"
  by (auto simp: pool_inv_def start_pool_def pending_def in_flight_replicate)

lemma workers_collect [simp]:
  "workers (collect d r p) = workers p" "queue (collect d r p) = queue p" "closed (collect d r p) = closed p"
  by (cases r; simp)+

lemma pending_update:
  assumes "i < length (workers p)" "workers p ! i = w"
  shows "pending (p\<lparr>workers := (workers p)[i := w']\<rparr>) + mset (carried w) = pending p + mset (carried w')"
  using in_flight_update [OF assms(1), of w'] assms(2) by (simp add: pending_def ac_simps)

lemma step_inv:
  assumes "pool_step f p p'" "distinct domains" "pool_inv f domains n p"
  shows "pool_inv f domains n p'"
  using assms(1)
proof cases
  case (take_job d ds i)
  have "pending p' = pending p"
    using pending_update [OF take_job(3,4), of "Working d"] take_job(1,2) by (simp add: pending_def)
  moreover have "Idle \<in> set (workers p)" using take_job(3,4) nth_mem by fastforce
  ultimately show ?thesis using assms(3) take_job set_update_subset_insert [of "workers p" i "Working d"]
    by (auto simp: pool_inv_def)
next
  case (look_up i d)
  have "pending p' = pending p" using pending_update [OF look_up(2,3), of "Sending d (f d)"] look_up(1) by simp
  moreover have "Working d \<in> set (workers p)" using look_up(2,3) nth_mem by fastforce
  ultimately show ?thesis using assms(3) look_up set_update_subset_insert [of "workers p" i "Sending d (f d)"]
    by (auto simp: pool_inv_def)
next
  case (deliver i d r)
  have w: "Sending d r \<in> set (workers p)" using deliver(2,3) nth_mem [of i "workers p"] by simp
  then have r: "r = f d" using assms(3) by (auto simp: pool_inv_def)
  have pend: "add_mset d (pending p') = pending p"
    using pending_update [OF deliver(2,3), of Idle] deliver(1) by (cases r) (simp_all add: pending_def)
  then have d: "d \<in># pending p" by (metis union_single_eq_member)
  have sub: "pending p \<subseteq># mset domains" using assms(3) by (simp add: pool_inv_def)
  then have dd: "d \<in> set domains" using d mset_subset_eqD by fastforce
  have one: "count (pending p) d \<le> 1"
  proof -
    have "count (mset domains) d \<le> 1" using assms(2) dd by (simp add: distinct_count_atmost_1)
    then show ?thesis using mset_subset_eq_count [OF sub, of d] by linarith
  qed
  have c: "count (pending p) x = count (pending p') x + (if x = d then 1 else 0)" for x
    using arg_cong [OF pend, of "\<lambda>m. count m x"] by (auto split: if_splits)
  have mem: "x \<in># pending p' \<longleftrightarrow> x \<in># pending p \<and> x \<noteq> d" for x
    using c [of x] one by (auto simp: count_greater_zero_iff [symmetric] simp del: count_greater_zero_iff)
  have "pending p' \<subseteq># pending p" by (rule mset_subset_eqI) (simp add: c)
  then have "pending p' \<subseteq># mset domains" using sub subset_mset.order_trans by blast
  then show ?thesis
    using assms(3) deliver r dd mem set_update_subset_insert [of "workers p" i Idle]
    by (cases "f d") (auto simp: pool_inv_def)
next
  case (stop i)
  have "pending p' = pending p" using pending_update [OF stop(3,4), of Stopped] stop(1) by simp
  moreover have "Idle \<in> set (workers p)" using stop(3,4) nth_mem by fastforce
  ultimately show ?thesis using assms(3) stop set_update_subset_insert [of "workers p" i Stopped]
    by (auto simp: pool_inv_def)
next
  case close_out
  have "pending p' = pending p" using close_out(1) by (simp add: pending_def)
  then show ?thesis using assms(3) close_out by (auto simp: pool_inv_def)
qed

lemma run_inv:
  assumes "pool_run f p p'" "distinct domains" "pool_inv f domains n p"
  shows "pool_inv f domains n p'"
  using assms(1) unfolding pool_run_def
  by (induction rule: rtranclp_induct) (use assms(2,3) step_inv in blast)+

subsection \<open>Every schedule ends with the same maps\<close>

fun effort :: "'e worker \<Rightarrow> nat" where
  "effort Idle = 1"
| "effort (Working d) = 3"
| "effort (Sending d r) = 2"
| "effort Stopped = 0"

definition pool_measure :: "'e pool \<Rightarrow> nat" where
  "pool_measure p = 3 * length (queue p) + sum_list (map effort (workers p)) + (if closed p then 0 else 1)"

lemma sum_effort_update:
  "i < length ws \<Longrightarrow>
   sum_list (map effort (ws[i := w])) + effort (ws ! i) = sum_list (map effort ws) + effort w"
  by (induction ws arbitrary: i) (auto simp: nth_Cons' list_update_def split: nat.splits)

lemma step_measure:
  assumes "pool_step f p p'"
  shows "pool_measure p' < pool_measure p"
  using assms
proof cases
  case (take_job d ds i)
  then show ?thesis using sum_effort_update [of i "workers p" "Working d"] by (simp add: pool_measure_def)
next
  case (look_up i d)
  then show ?thesis using sum_effort_update [of i "workers p" "Sending d (f d)"] by (simp add: pool_measure_def)
next
  case (deliver i d r)
  then show ?thesis using sum_effort_update [of i "workers p" Idle] by (simp add: pool_measure_def)
next
  case (stop i)
  then show ?thesis using sum_effort_update [of i "workers p" Stopped] by (simp add: pool_measure_def)
next
  case close_out
  then show ?thesis by (simp add: pool_measure_def)
qed

theorem pool_terminates: "wfp (\<lambda>p' p. pool_step f p p')"
  by (rule wfp_if_convertible_to_nat [of _ pool_measure]) (rule step_measure)

theorem pool_progress:
  assumes "pool_inv f domains n p" "0 < n" "\<not> closed p"
  shows "\<exists>p'. pool_step f p p'"
proof (cases "\<forall>w \<in> set (workers p). w = Stopped")
  case True
  then show ?thesis using assms(3) by (blast intro: close_out)
next
  case False
  then obtain i where i: "i < length (workers p)" "workers p ! i \<noteq> Stopped"
    by (auto simp: in_set_conv_nth)
  show ?thesis
  proof (cases "workers p ! i")
    case Idle
    then show ?thesis using i(1) by (cases "queue p") (blast intro: take_job stop)+
  next
    case (Working d)
    then show ?thesis using i(1) by (blast intro: look_up)
  next
    case (Sending d r)
    then show ?thesis using i(1) assms(3) by (blast intro: deliver)
  next
    case Stopped
    then show ?thesis using i(2) by simp
  qed
qed

lemma in_flight_stopped: "\<forall>w \<in> set ws. w = Stopped \<Longrightarrow> in_flight ws = []"
  by (induction ws) (auto simp: in_flight_def)

lemma closed_result:
  assumes "pool_inv f domains n p" "0 < n" "closed p" "resolve_many f domains = (rs, fs)"
  shows "results p = map_of rs" "failures p = map_of fs"
proof -
  have st: "\<forall>w \<in> set (workers p). w = Stopped" and "workers p \<noteq> []"
    using assms(1-3) by (auto simp: pool_inv_def)
  then have "Stopped \<in> set (workers p)" by (cases "workers p") auto
  then have "queue p = []" using assms(1) by (auto simp: pool_inv_def)
  then have "pending p = {#}" using st by (simp add: pending_def in_flight_stopped)
  then have all: "d \<in> set domains \<Longrightarrow> results p d \<noteq> None \<or> failures p d \<noteq> None" for d
    using assms(1) by (auto simp: pool_inv_def)
  have r: "results p d = None \<or> f d = Inr (the (results p d)) \<and> d \<in> set domains"
    and e: "failures p d = None \<or> f d = Inl (the (failures p d)) \<and> d \<in> set domains" for d
    using assms(1) unfolding pool_inv_def by blast+
  show "results p = map_of rs"
  proof
    fix d show "results p d = map_of rs d"
      using all [of d] r [of d] e [of d]
      by (cases "d \<in> set domains"; cases "f d") (auto simp: resolve_many_maps(1) [OF assms(4)])
  qed
  show "failures p = map_of fs"
  proof
    fix d show "failures p d = map_of fs d"
      using all [of d] r [of d] e [of d]
      by (cases "d \<in> set domains"; cases "f d") (auto simp: resolve_many_maps(2) [OF assms(4)])
  qed
qed

text \<open>
  From the start every run goes on until the channel is closed, and then the maps are those
  of the sequential function.
\<close>

theorem concurrent_resolution:
  assumes "distinct domains" "pool_run f (start_pool domains c) p"
  shows "closed p \<Longrightarrow> resolve_many f domains = (rs, fs) \<Longrightarrow> results p = map_of rs \<and> failures p = map_of fs"
    and "\<not> closed p \<Longrightarrow> \<exists>p'. pool_step f p p'"
    and "length (in_flight (workers p)) \<le> nat (if c < 1 then 1 else c)"
proof -
  let ?n = "nat (if c < 1 then 1 else c)"
  have inv: "pool_inv f domains ?n p" by (rule run_inv [OF assms(2,1) start_inv])
  have n: "0 < ?n" by simp
  show "closed p \<Longrightarrow> resolve_many f domains = (rs, fs) \<Longrightarrow> results p = map_of rs \<and> failures p = map_of fs"
    using closed_result [OF inv n] by blast
  show "\<not> closed p \<Longrightarrow> \<exists>p'. pool_step f p p'" by (rule pool_progress [OF inv n])
  have "length (workers p) = ?n" using inv by (simp add: pool_inv_def)
  then show "length (in_flight (workers p)) \<le> ?n" using length_in_flight [of "workers p"] by simp
qed

text \<open>Every run can be continued until the channel is closed, and cannot go on forever.\<close>

theorem pool_completes:
  assumes "distinct domains" "pool_run f (start_pool domains c) p"
  shows "\<exists>p'. pool_run f p p' \<and> closed p'"
  using assms(2)
proof (induction "pool_measure p" arbitrary: p rule: less_induct)
  case less
  show ?case
  proof (cases "closed p")
    case True
    then show ?thesis by (auto simp: pool_run_def)
  next
    case False
    then obtain q where q: "pool_step f p q" using concurrent_resolution(2) [OF assms(1) less.prems] by blast
    have "pool_run f (start_pool domains c) q" using less.prems q by (simp add: pool_run_def)
    then obtain p' where "pool_run f q p'" "closed p'" using less.hyps [OF step_measure [OF q]] by blast
    then show ?thesis using q by (auto simp: pool_run_def intro: converse_rtranclp_into_rtranclp)
  qed
qed

end
