(* ===== verification/Engine.thy ===== *)
theory Engine
  imports Store Resolver
begin

text \<open>
  \<open>cmd/webblockd/engine.go\<close>: the engine that turns the stored lists and the cache of resolved
  addresses into the state it hands to the backend. Each critical section of \<open>Rebuild\<close> (the
  code that runs with \<open>e.mu\<close> held) is a function of the shared state; \<open>rebuild\<close> composes them
  with the resolution in between. Times are nanoseconds. Where Go ranges over a map the order
  is the parameter \<open>map_order\<close>.
\<close>

section \<open>State\<close>

datatype resolve_mode = ResolveMissing | ResolveExpired | ResolveAll

record cache_entry =
  res :: resolved
  expires :: int

type_synonym cache = "(string \<times> cache_entry) list"

datatype log_event = KeptPrevious string string | NoAddresses string string

text \<open>The disk is the store's; the backend keeps its own state.\<close>

record 'b engine =
  disk_of :: disk
  be_state :: 'b
  cache :: cache
  log :: "log_event list"

text \<open>What \<open>NewEngine\<close> is given\<close>

record 'b engine_cfg =
  be_apply :: "'b \<Rightarrow> fw_state \<Rightarrow> 'b \<times> backend_error option"
  map_order :: "string list \<Rightarrow> string list"
  concurrency :: int
  ttl :: int

definition minute :: int where
  "minute = 60 * second"

definition new_engine :: "'b engine_cfg \<Rightarrow> 'b engine_cfg" where
  "new_engine c =
     c\<lparr>concurrency := (if concurrency c < 1 then 1 else concurrency c),
       ttl := (if ttl c \<le> 0 then 15 * minute else ttl c)\<rparr>"

datatype engine_error = StoreFailed store_error | BackendFailed backend_error

section \<open>Reading the store\<close>

text \<open>\<open>userLists[uid] = bl\<close> in a loop over the uids\<close>

fun load_users ::
    "store_io \<Rightarrow> disk \<Rightarrow> int list \<Rightarrow> (int \<times> blocklist) list \<Rightarrow> store_error + (int \<times> blocklist) list" where
  "load_users io d [] ulists = Inr ulists"
| "load_users io d (uid # uids) ulists =
     (case load_locked io d (UserScope uid) of
        Inl e \<Rightarrow> Inl e
      | Inr bl \<Rightarrow> load_users io d uids (AList.update uid bl ulists))"

definition load_all :: "store_io \<Rightarrow> disk \<Rightarrow> store_error + blocklist \<times> (int \<times> blocklist) list" where
  "load_all io d =
     (case load_locked io d GlobalScope of
        Inl e \<Rightarrow> Inl e
      | Inr global \<Rightarrow>
          (case list_user_uids io d of
             Inl e \<Rightarrow> Inl e
           | Inr uids \<Rightarrow>
               (case load_users io d uids [] of
                  Inl e \<Rightarrow> Inl e
                | Inr ulists \<Rightarrow> Inr (global, ulists))))"

section \<open>From lists to the desired state\<close>

fun put_lists :: "(int \<times> blocklist) list \<Rightarrow> string list \<Rightarrow> string list" where
  "put_lists [] wanted = wanted"
| "put_lists ((uid, bl) # ulists) wanted = put_lists ulists (set_put_all (Domains bl) wanted)"

definition wanted_domains :: "blocklist \<Rightarrow> (int \<times> blocklist) list \<Rightarrow> string list" where
  "wanted_domains global ulists = put_lists ulists (set_put_all (Domains global) [])"

definition needs_resolving :: "int \<Rightarrow> resolve_mode \<Rightarrow> cache \<Rightarrow> string \<Rightarrow> bool" where
  "needs_resolving now mode c d =
     (case map_of c d of
        None \<Rightarrow> True
      | Some entry \<Rightarrow>
          if mode = ResolveAll then True
          else if mode = ResolveExpired \<and> expires entry < now then True
          else False)"

definition domains_to_resolve ::
    "(string list \<Rightarrow> string list) \<Rightarrow> int \<Rightarrow> resolve_mode \<Rightarrow> cache \<Rightarrow> string list \<Rightarrow> string list" where
  "domains_to_resolve ord now mode c wanted = filter (needs_resolving now mode c) (ord wanted)"

definition keys :: "(string list \<Rightarrow> string list) \<Rightarrow> string list \<Rightarrow> string list" where
  "keys ord m = ord m"

text \<open>The two sets \<open>ipSetForLocked\<close> builds, first from the addresses, then from the domains\<close>

fun put_ips :: "string list \<Rightarrow> string list \<times> string list \<Rightarrow> string list \<times> string list" where
  "put_ips [] acc = acc"
| "put_ips (ip # ips) (v4, v6) =
     (case parse_ip ip of
        None \<Rightarrow> put_ips ips (v4, v6)
      | Some parsed \<Rightarrow>
          (case to4 parsed of
             Some p4 \<Rightarrow> put_ips ips (set_put (ip_string p4) v4, v6)
           | None \<Rightarrow> put_ips ips (v4, set_put (ip_string parsed) v6)))"

fun put_domains :: "cache \<Rightarrow> string list \<Rightarrow> string list \<times> string list \<Rightarrow> string list \<times> string list" where
  "put_domains c [] acc = acc"
| "put_domains c (d # ds) (v4, v6) =
     (case map_of c d of
        None \<Rightarrow> put_domains c ds (v4, v6)
      | Some entry \<Rightarrow> put_domains c ds (set_put_all (RV4 (res entry)) v4, set_put_all (RV6 (res entry)) v6))"

definition ip_set_for :: "(string list \<Rightarrow> string list) \<Rightarrow> cache \<Rightarrow> blocklist \<Rightarrow> ipset" where
  "ip_set_for ord c bl =
     (case put_domains c (Domains bl) (put_ips (IPs bl) ([], [])) of
        (v4, v6) \<Rightarrow> \<lparr>V4 = keys ord v4, V6 = keys ord v6\<rparr>)"

definition prune :: "string list \<Rightarrow> cache \<Rightarrow> cache" where
  "prune wanted c = filter (\<lambda>(d, e). d \<in> set wanted) c"

definition build_state ::
    "(string list \<Rightarrow> string list) \<Rightarrow> cache \<Rightarrow> blocklist \<Rightarrow> (int \<times> blocklist) list \<Rightarrow> fw_state" where
  "build_state ord c global ulists =
     \<lparr>GlobalSet = ip_set_for ord c global,
      PerUser = filter (\<lambda>(uid, s). \<not> Empty s) (map (\<lambda>(uid, bl). (uid, ip_set_for ord c bl)) ulists)\<rparr>"

definition build_and_apply ::
    "'b engine_cfg \<Rightarrow> blocklist \<Rightarrow> (int \<times> blocklist) list \<Rightarrow> 'b engine \<Rightarrow> 'b engine \<times> engine_error option" where
  "build_and_apply cfg global ulists eng =
     (let c = prune (wanted_domains global ulists) (cache eng) in
      case be_apply cfg (be_state eng) (build_state (map_order cfg) c global ulists) of
        (b, r) \<Rightarrow> (eng\<lparr>cache := c, be_state := b\<rparr>, map_option BackendFailed r))"

section \<open>Rebuild\<close>

text \<open>
  The first critical section: either done (after an error or on the fast path), or the
  domains to resolve.
\<close>

definition rebuild_begin ::
    "'b engine_cfg \<Rightarrow> store_io \<Rightarrow> int \<Rightarrow> resolve_mode \<Rightarrow> 'b engine \<Rightarrow>
     ('b engine \<times> engine_error option) + string list" where
  "rebuild_begin cfg io now mode eng =
     (case load_all io (disk_of eng) of
        Inl e \<Rightarrow> Inl (eng, Some (StoreFailed e))
      | Inr (global, ulists) \<Rightarrow>
          let todo = domains_to_resolve (map_order cfg) now mode (cache eng) (wanted_domains global ulists) in
          if length todo = 0 then Inl (build_and_apply cfg global ulists eng) else Inr todo)"

text \<open>\<open>e.cache[d] = cacheEntry{...}\<close> for every result\<close>

fun store_results :: "int \<Rightarrow> (string \<times> resolved) list \<Rightarrow> cache \<Rightarrow> cache" where
  "store_results fresh [] c = c"
| "store_results fresh ((d, r) # rs) c =
     store_results fresh rs (AList.update d \<lparr>res = r, expires = fresh\<rparr> c)"

fun failure_log :: "string list \<Rightarrow> cache \<Rightarrow> (string \<times> string) list \<Rightarrow> log_event list" where
  "failure_log wanted c [] = []"
| "failure_log wanted c ((d, e) # fs) =
     (if d \<notin> set wanted then failure_log wanted c fs
      else (if map_of c d \<noteq> None then KeptPrevious d e else NoAddresses d e) # failure_log wanted c fs)"

definition rebuild_finish ::
    "'b engine_cfg \<Rightarrow> store_io \<Rightarrow> int \<Rightarrow> (string \<times> resolved) list \<times> (string \<times> string) list \<Rightarrow> 'b engine \<Rightarrow>
     'b engine \<times> engine_error option" where
  "rebuild_finish cfg io now outcome eng =
     (case outcome of
        (found, failed) \<Rightarrow>
          let eng1 = eng\<lparr>cache := store_results (now + ttl cfg) found (cache eng)\<rparr> in
          (case load_all io (disk_of eng1) of
             Inl e \<Rightarrow> (eng1, Some (StoreFailed e))
           | Inr (global, ulists) \<Rightarrow>
               let eng2 = eng1\<lparr>log := log eng1 @ failure_log (wanted_domains global ulists) (cache eng1) failed\<rparr> in
               build_and_apply cfg global ulists eng2))"

text \<open>
  What the outside contributes to one call: the faults of the two loads, the two readings of
  the clock, and the answers of the name service.
\<close>

record world =
  io_first :: store_io
  io_second :: store_io
  now_first :: int
  now_second :: int
  answers :: "string \<Rightarrow> string + resolved"

definition rebuild ::
    "'b engine_cfg \<Rightarrow> world \<Rightarrow> resolve_mode \<Rightarrow> 'b engine \<Rightarrow> 'b engine \<times> engine_error option" where
  "rebuild cfg w mode eng =
     (case rebuild_begin cfg (io_first w) (now_first w) mode eng of
        Inl r \<Rightarrow> r
      | Inr todo \<Rightarrow> rebuild_finish cfg (io_second w) (now_second w) (resolve_many (answers w) todo) eng)"

section \<open>Requests\<close>

definition change_entries ::
    "'b engine_cfg \<Rightarrow> store_io \<Rightarrow> world \<Rightarrow> scope \<Rightarrow> (blocklist \<Rightarrow> store_error + blocklist \<times> nat \<times> nat) \<Rightarrow>
     'b engine \<Rightarrow> 'b engine \<times> nat \<times> nat \<times> engine_error option" where
  "change_entries cfg io w scope fn eng =
     (case mutate io (disk_of eng) scope fn of
        (d, Inl e) \<Rightarrow> (eng\<lparr>disk_of := d\<rparr>, 0, 0, Some (StoreFailed e))
      | (d, Inr (n, m)) \<Rightarrow>
          (case rebuild cfg w ResolveMissing (eng\<lparr>disk_of := d\<rparr>) of (eng', r) \<Rightarrow> (eng', n, m, r)))"

definition add_fn :: "string list \<Rightarrow> string list \<Rightarrow> blocklist \<Rightarrow> store_error + blocklist \<times> nat \<times> nat" where
  "add_fn domains ips bl =
     (case AddDomains domains bl of (bl1, n) \<Rightarrow> case AddIPs ips bl1 of (bl2, m) \<Rightarrow> Inr (bl2, n, m))"

definition remove_fn :: "string list \<Rightarrow> string list \<Rightarrow> blocklist \<Rightarrow> store_error + blocklist \<times> nat \<times> nat" where
  "remove_fn domains ips bl =
     (case RemoveDomains domains bl of (bl1, n) \<Rightarrow> case RemoveIPs ips bl1 of (bl2, m) \<Rightarrow> Inr (bl2, n, m))"

definition add_entries where
  "add_entries cfg io w scope domains ips eng = change_entries cfg io w scope (add_fn domains ips) eng"

definition remove_entries where
  "remove_entries cfg io w scope domains ips eng = change_entries cfg io w scope (remove_fn domains ips) eng"

text \<open>\<open>RefreshLoop\<close>: one rebuild per tick; a failed one is logged and the loop goes on\<close>

definition refresh_interval :: "int \<Rightarrow> int" where
  "refresh_interval interval = (if interval \<le> 0 then 5 * minute else interval)"

fun refresh_loop :: "'b engine_cfg \<Rightarrow> world list \<Rightarrow> 'b engine \<Rightarrow> 'b engine \<times> engine_error list" where
  "refresh_loop cfg [] eng = (eng, [])"
| "refresh_loop cfg (w # ws) eng =
     (case rebuild cfg w ResolveExpired eng of
        (eng1, r) \<Rightarrow>
          case refresh_loop cfg ws eng1 of
            (eng2, es) \<Rightarrow> (eng2, (case r of None \<Rightarrow> es | Some e \<Rightarrow> e # es)))"

end
