(* ===== verification/Engine_Spec.thy ===== *)
theory Engine_Spec
  imports Engine
begin

text \<open>
  What the engine's functions compute: the state built from the lists and the cache blocks
  exactly the listed addresses; the cache after a rebuild; and, for every backend that keeps
  its contract, that a successful rebuild makes the kernel block what is on disk.
\<close>

section \<open>The addresses of a list\<close>

definition cached_addrs :: "bool \<Rightarrow> resolved \<Rightarrow> string list" where
  "cached_addrs v6 r = (if v6 then RV6 r else RV4 r)"

text \<open>The specification: an address is listed directly, or a listed domain resolved to it.\<close>

definition listed :: "cache \<Rightarrow> blocklist \<Rightarrow> bool \<Rightarrow> string \<Rightarrow> bool" where
  "listed c bl v6 a \<longleftrightarrow>
     (\<exists>ip \<in> set (IPs bl). \<exists>x. parse_ip ip = Some x \<and> (to4 x = None \<longleftrightarrow> v6) \<and> ip_string x = a) \<or>
     (\<exists>d \<in> set (Domains bl). \<exists>e. map_of c d = Some e \<and> a \<in> set (cached_addrs v6 (res e)))"

definition pick :: "bool \<Rightarrow> string list \<times> string list \<Rightarrow> string list" where
  "pick v6 p = (if v6 then snd p else fst p)"

lemma parse_ip_wf: "parse_ip s = Some x \<Longrightarrow> wf_ip x"
  using parse_ip_length by (simp add: wf_ip_def)

lemma set_put_ips:
  "set (pick v6 (put_ips ips acc)) = set (pick v6 acc) \<union>
     {a. \<exists>ip \<in> set ips. \<exists>x. parse_ip ip = Some x \<and> (to4 x = None \<longleftrightarrow> v6) \<and> ip_string x = a}"
proof (induction ips arbitrary: acc)
  case (Cons ip ips)
  obtain v4 w6 where acc: "acc = (v4, w6)" by (cases acc)
  show ?case
  proof (cases "parse_ip ip")
    case None
    then show ?thesis using Cons.IH by (simp add: acc)
  next
    case (Some x)
    then have "to4 x = Some y \<Longrightarrow> ip_string y = ip_string x" for y
      using to4_string parse_ip_wf by blast
    then show ?thesis using Cons.IH Some
      by (cases "to4 x") (auto simp: acc pick_def)
  qed
qed (simp add: pick_def)

lemma set_put_domains:
  "set (pick v6 (put_domains c ds acc)) = set (pick v6 acc) \<union>
     {a. \<exists>d \<in> set ds. \<exists>e. map_of c d = Some e \<and> a \<in> set (cached_addrs v6 (res e))}"
proof (induction ds arbitrary: acc)
  case (Cons d ds)
  obtain v4 w6 where acc: "acc = (v4, w6)" by (cases acc)
  show ?case using Cons.IH
    by (cases "map_of c d") (auto simp: acc pick_def cached_addrs_def)
qed (simp add: pick_def)

lemma distinct_put_ips: "distinct (pick v6 acc) \<Longrightarrow> distinct (pick v6 (put_ips ips acc))"
  by (induction ips acc rule: put_ips.induct) (auto simp: pick_def split: option.splits)

lemma distinct_put_domains: "distinct (pick v6 acc) \<Longrightarrow> distinct (pick v6 (put_domains c ds acc))"
  by (induction c ds acc rule: put_domains.induct) (auto simp: pick_def split: option.splits)

lemma family_ip_set:
  "family_of v6 (ip_set_for ord c bl) = ord (pick v6 (put_domains c (Domains bl) (put_ips (IPs bl) ([], []))))"
  by (simp add: family_of_def ip_set_for_def pick_def keys_def split: prod.splits)

theorem ip_set_for_spec:
  assumes "iteration_order ord"
  shows "set (family_of v6 (ip_set_for ord c bl)) = {a. listed c bl v6 a}"
    and "distinct (family_of v6 (ip_set_for ord c bl))"
proof -
  show "set (family_of v6 (ip_set_for ord c bl)) = {a. listed c bl v6 a}"
    unfolding family_ip_set iteration_order_set [OF assms] set_put_domains set_put_ips
    by (auto simp: pick_def listed_def)
  show "distinct (family_of v6 (ip_set_for ord c bl))"
    unfolding family_ip_set iteration_order_distinct [OF assms]
    by (intro distinct_put_domains distinct_put_ips) (simp add: pick_def)
qed

text \<open>Only canonical texts of the right family get into a state.\<close>

definition wf_cache :: "cache \<Rightarrow> bool" where
  "wf_cache c \<longleftrightarrow> distinct (map fst c) \<and> (\<forall>x \<in> set c. wf_resolved (res (snd x)))"

lemma listed_text:
  assumes "wf_cache c" "listed c bl v6 a"
  shows "addr_text v6 a"
proof -
  consider ip x where "parse_ip ip = Some x" "to4 x = None \<longleftrightarrow> v6" "ip_string x = a"
    | d e where "map_of c d = Some e" "a \<in> set (cached_addrs v6 (res e))"
    using assms(2) by (auto simp: listed_def)
  then show ?thesis
  proof cases
    case 1
    then show ?thesis using addr_text_print [OF parse_ip_wf [OF 1(1)]] by simp
  next
    case 2
    then have "(d, e) \<in> set c" by (blast dest: map_of_SomeD)
    then have "wf_resolved (res e)" using assms(1) by (auto simp: wf_cache_def)
    then show ?thesis using 2(2) by (auto simp: cached_addrs_def wf_resolved_def list_all_iff split: if_splits)
  qed
qed

lemma wf_ip_set_for:
  assumes "iteration_order ord" "wf_cache c"
  shows "wf_ipset (ip_set_for ord c bl)"
proof -
  have "list_all (addr_text v6) (family_of v6 (ip_set_for ord c bl))" for v6
    using listed_text [OF assms(2)] by (auto simp: list_all_iff ip_set_for_spec(1) [OF assms(1)])
  from this [of False] this [of True] show ?thesis
    using ip_set_for_spec(2) [OF assms(1), of False c bl] ip_set_for_spec(2) [OF assms(1), of True c bl]
    by (simp add: wf_ipset_def family_of_def)
qed

section \<open>The desired state\<close>

lemma Empty_family: "Empty s \<longleftrightarrow> (\<forall>v6. family_of v6 s = [])"
  by (auto simp: Empty_def family_of_def)

lemma listed_empty [simp]: "\<not> listed c empty_blocklist v6 a"
  by (simp add: listed_def empty_blocklist_def)

lemma built_users:
  assumes "distinct (map fst ulists)"
  shows "map_of (PerUser (build_state ord c global ulists)) u =
     (case map_of ulists u of
        None \<Rightarrow> None
      | Some bl \<Rightarrow> if Empty (ip_set_for ord c bl) then None else Some (ip_set_for ord c bl))"
proof -
  let ?m = "map (\<lambda>(uid, bl). (uid, ip_set_for ord c bl)) ulists"
  have "map fst ?m = map fst ulists" by (induction ulists) auto
  then have "distinct (map fst ?m)" using assms by (simp only:)
  from map_of_filter_value [OF this, of "\<lambda>s. \<not> Empty s" u] show ?thesis
    by (simp add: build_state_def map_of_map_pair split: option.splits)
qed

theorem build_state_blocked:
  assumes "iteration_order ord" "distinct (map fst ulists)"
  shows "blocked (build_state ord c global ulists) p \<longleftrightarrow>
     listed c global (is_v6 p) (daddr p) \<or>
     (\<exists>bl. map_of ulists (skuid p) = Some bl \<and> listed c bl (is_v6 p) (daddr p))"
proof -
  let ?st = "build_state ord c global ulists"
  have g: "daddr p \<in> set (family_of (is_v6 p) (GlobalSet ?st)) \<longleftrightarrow> listed c global (is_v6 p) (daddr p)"
    by (simp add: build_state_def ip_set_for_spec(1) [OF assms(1)])
  have none: "\<not> listed c bl (is_v6 p) (daddr p)" if "Empty (ip_set_for ord c bl)" for bl
    using that ip_set_for_spec(1) [OF assms(1), of "is_v6 p" c bl] by (simp add: Empty_family)
  have empty: "family_of (is_v6 p) empty_ipset = []" by (simp add: family_of_def empty_ipset_def)
  have "daddr p \<in> set (family_of (is_v6 p) (ipset_at (PerUser ?st) (skuid p))) \<longleftrightarrow>
      (\<exists>bl. map_of ulists (skuid p) = Some bl \<and> listed c bl (is_v6 p) (daddr p))"
    unfolding ipset_at_def built_users [OF assms(2)]
    by (auto simp: empty none ip_set_for_spec(1) [OF assms(1)] split: option.splits)
  then show ?thesis unfolding blocked_def g by blast
qed

lemma built_keys: "fst ` set (PerUser (build_state ord c global ulists)) \<subseteq> fst ` set ulists"
  by (force simp: build_state_def)

lemma distinct_built:
  "distinct (map fst ulists) \<Longrightarrow> distinct (map fst (PerUser (build_state ord c global ulists)))"
  unfolding build_state_def by (induction ulists) (auto simp: image_iff)

lemma ip_set_empty:
  assumes "iteration_order ord"
  shows "Empty (ip_set_for ord c empty_blocklist)"
proof -
  have "set (family_of v6 (ip_set_for ord c empty_blocklist)) = {}" for v6
    by (simp add: ip_set_for_spec(1) [OF assms])
  then show ?thesis by (simp add: Empty_family)
qed

lemma wf_build_state:
  assumes "iteration_order ord" "wf_cache c" "distinct (map fst ulists)"
    and "\<forall>(u, bl) \<in> set ulists. bl = empty_blocklist \<or> kernel_uid u"
  shows "wf_state (build_state ord c global ulists)"
proof -
  have "kernel_uid u \<and> wf_ipset s" if us: "(u, s) \<in> set (PerUser (build_state ord c global ulists))" for u s
  proof -
    obtain bl where bl: "(u, bl) \<in> set ulists" "s = ip_set_for ord c bl" "\<not> Empty s"
      using us by (auto simp: build_state_def)
    then have "bl \<noteq> empty_blocklist" using ip_set_empty [OF assms(1)] by auto
    then show ?thesis using bl assms(4) wf_ip_set_for [OF assms(1,2)] by auto
  qed
  then have "\<forall>(u, s) \<in> set (PerUser (build_state ord c global ulists)). kernel_uid u \<and> wf_ipset s" by blast
  moreover have "wf_ipset (GlobalSet (build_state ord c global ulists))"
    using wf_ip_set_for [OF assms(1,2)] by (simp add: build_state_def)
  ultimately show ?thesis using distinct_built [OF assms(3)] by (simp add: wf_state_def)
qed

section \<open>Reading the store\<close>

lemma load_users_spec:
  assumes "load_users io d uids acc = Inr ulists" "distinct (map fst acc)"
  shows "distinct (map fst ulists)"
    and "map_of ulists u = (if u \<in> set uids then content d (UserScope u) else map_of acc u)"
proof -
  have "distinct (map fst ulists) \<and>
      (\<forall>u. map_of ulists u = (if u \<in> set uids then content d (UserScope u) else map_of acc u))"
    using assms
  proof (induction uids arbitrary: acc)
    case (Cons uid uids)
    then obtain bl where bl: "load_locked io d (UserScope uid) = Inr bl"
      "load_users io d uids (AList.update uid bl acc) = Inr ulists" by (auto split: sum.splits)
    have "content d (UserScope uid) = Some bl" by (rule load_content [OF bl(1)])
    with Cons.IH [OF bl(2)] Cons.prems(2) show ?case
      by (auto simp: distinct_update update_conv')
  qed simp
  then show "distinct (map fst ulists)"
    "map_of ulists u = (if u \<in> set uids then content d (UserScope u) else map_of acc u)" by blast+
qed

text \<open>The lists that were loaded are those on disk; a user without a file has an empty list.\<close>

definition user_list :: "disk \<Rightarrow> int \<Rightarrow> blocklist" where
  "user_list d u = (case content d (UserScope u) of None \<Rightarrow> empty_blocklist | Some bl \<Rightarrow> bl)"

definition global_list :: "disk \<Rightarrow> blocklist" where
  "global_list d = (case content d GlobalScope of None \<Rightarrow> empty_blocklist | Some bl \<Rightarrow> bl)"

lemma load_all_spec:
  assumes "load_all io d = Inr (global, ulists)" "wf_disk d"
  shows "global = global_list d" "distinct (map fst ulists)"
    and "map_of ulists u = Some bl \<Longrightarrow> bl = user_list d u \<and> go_int u"
    and "go_int u \<Longrightarrow> map_of ulists u = None \<Longrightarrow> user_list d u = empty_blocklist"
proof -
  obtain uids where u: "load_locked io d GlobalScope = Inr global" "list_user_uids io d = Inr uids"
    "load_users io d uids [] = Inr ulists"
    using assms(1) by (auto simp: load_all_def split: sum.splits)
  note us = list_user_uids_spec [OF assms(2) u(2)]
  note l = load_users_spec [OF u(3)]
  show "global = global_list d" using load_content [OF u(1)] by (simp add: global_list_def)
  show "distinct (map fst ulists)" using l(1) by simp
  show "map_of ulists u = Some bl \<Longrightarrow> bl = user_list d u \<and> go_int u"
    using l(2) [of u] us(2) by (auto simp: user_list_def split: if_splits)
  show "go_int u \<Longrightarrow> map_of ulists u = None \<Longrightarrow> user_list d u = empty_blocklist"
    using l(2) [of u] us(3) assms(2) by (fastforce simp: user_list_def wf_disk_def split: if_splits)
qed

lemma set_wanted:
  "set (wanted_domains global ulists) = set (Domains global) \<union> (\<Union>(u, bl) \<in> set ulists. set (Domains bl))"
proof -
  have "set (put_lists ulists w) = set w \<union> (\<Union>(u, bl) \<in> set ulists. set (Domains bl))" for w
    by (induction ulists w rule: put_lists.induct) auto
  then show ?thesis by (simp add: wanted_domains_def)
qed

lemma distinct_wanted: "distinct (wanted_domains global ulists)"
proof -
  have "distinct (put_lists ulists w) = distinct w" for w
    by (induction ulists w rule: put_lists.induct) auto
  then show ?thesis by (simp add: wanted_domains_def)
qed

text \<open>A domain is wanted if the global list or some user's list has it.\<close>

definition wanted_on :: "disk \<Rightarrow> string \<Rightarrow> bool" where
  "wanted_on d x \<longleftrightarrow> x \<in> set (Domains (global_list d)) \<or> (\<exists>u. go_int u \<and> x \<in> set (Domains (user_list d u)))"

lemma wanted_disk:
  assumes "load_all io d = Inr (global, ulists)" "wf_disk d"
  shows "x \<in> set (wanted_domains global ulists) \<longleftrightarrow> wanted_on d x"
proof -
  note l = load_all_spec [OF assms]
  have "(\<exists>(u, bl) \<in> set ulists. x \<in> set (Domains bl)) \<longleftrightarrow> (\<exists>u. go_int u \<and> x \<in> set (Domains (user_list d u)))"
  proof
    assume "\<exists>(u, bl) \<in> set ulists. x \<in> set (Domains bl)"
    then obtain u bl where "(u, bl) \<in> set ulists" "x \<in> set (Domains bl)" by auto
    then show "\<exists>u. go_int u \<and> x \<in> set (Domains (user_list d u))" using l(2) l(3) [of u bl] by auto
  next
    assume "\<exists>u. go_int u \<and> x \<in> set (Domains (user_list d u))"
    then obtain u where u: "go_int u" "x \<in> set (Domains (user_list d u))" by blast
    then obtain bl where "map_of ulists u = Some bl"
      using l(4) [of u] by (cases "map_of ulists u") (auto simp: empty_blocklist_def)
    then show "\<exists>(u, bl) \<in> set ulists. x \<in> set (Domains bl)"
      using u(2) l(3) [of u bl] by (auto dest!: map_of_SomeD)
  qed
  then show ?thesis by (auto simp: set_wanted wanted_on_def l(1))
qed

section \<open>The cache\<close>

lemma map_of_prune: "map_of (prune wanted c) d = (if d \<in> set wanted then map_of c d else None)"
  by (induction c) (auto simp: prune_def)

lemma wf_prune: "wf_cache c \<Longrightarrow> wf_cache (prune wanted c)"
  by (auto simp: wf_cache_def prune_def distinct_map_filter)

lemma store_results_map:
  assumes "distinct (map fst rs)"
  shows "map_of (store_results fresh rs c) d =
    (case map_of rs d of None \<Rightarrow> map_of c d | Some r \<Rightarrow> Some \<lparr>res = r, expires = fresh\<rparr>)"
  using assms
proof (induction rs arbitrary: c)
  case (Cons x rs)
  obtain d' r where x: "x = (d', r)" by (cases x)
  have "map_of rs d' = None" using Cons.prems by (simp add: x map_of_eq_None_iff)
  then show ?case using Cons by (auto simp: x update_conv' split: option.splits)
qed simp

lemma wf_cache_update:
  assumes "wf_cache c" "wf_resolved r"
  shows "wf_cache (AList.update d \<lparr>res = r, expires = fresh\<rparr> c)"
proof -
  have "x = (d, \<lparr>res = r, expires = fresh\<rparr>) \<or> x \<in> set c"
    if "x \<in> set (AList.update d \<lparr>res = r, expires = fresh\<rparr> c)" for x
    using that by (rule set_update_cases)
  then show ?thesis using assms by (fastforce simp: wf_cache_def distinct_update)
qed

lemma wf_store_results:
  "wf_cache c \<Longrightarrow> (\<forall>x \<in> set rs. wf_resolved (snd x)) \<Longrightarrow> wf_cache (store_results fresh rs c)"
  by (induction rs arbitrary: c) (auto simp: wf_cache_update)

lemma set_domains_to_resolve:
  "iteration_order ord \<Longrightarrow>
   d \<in> set (domains_to_resolve ord now mode c wanted) \<longleftrightarrow> d \<in> set wanted \<and> needs_resolving now mode c d"
  by (simp add: domains_to_resolve_def iteration_order_set)

text \<open>The modes in the order of the source's \<open>iota\<close>: a later mode resolves at least as much.\<close>

fun mode_rank :: "resolve_mode \<Rightarrow> nat" where
  "mode_rank ResolveMissing = 0"
| "mode_rank ResolveExpired = 1"
| "mode_rank ResolveAll = 2"

lemma mode_rank_inj: "mode_rank m = mode_rank m' \<Longrightarrow> m = m'"
  by (cases m; cases m') simp_all

instantiation resolve_mode :: linorder
begin

definition less_eq_resolve_mode :: "resolve_mode \<Rightarrow> resolve_mode \<Rightarrow> bool" where
  "less_eq_resolve_mode m m' \<longleftrightarrow> mode_rank m \<le> mode_rank m'"

definition less_resolve_mode :: "resolve_mode \<Rightarrow> resolve_mode \<Rightarrow> bool" where
  "less_resolve_mode m m' \<longleftrightarrow> mode_rank m < mode_rank m'"

instance
  by standard (auto simp: less_eq_resolve_mode_def less_resolve_mode_def mode_rank_inj)

end

lemma needs_resolving_mono: "m \<le> m' \<Longrightarrow> needs_resolving now m c d \<Longrightarrow> needs_resolving now m' c d"
  by (cases m; cases m') (auto simp: needs_resolving_def less_eq_resolve_mode_def split: option.splits)

lemma needs_resolving_later: "now \<le> now' \<Longrightarrow> needs_resolving now m c d \<Longrightarrow> needs_resolving now' m c d"
  by (auto simp: needs_resolving_def split: option.splits if_splits)

lemma domains_to_resolve_mono:
  assumes "iteration_order ord" "m \<le> m'" "now \<le> now'"
  shows "set (domains_to_resolve ord now m c wanted) \<subseteq> set (domains_to_resolve ord now' m' c wanted)"
  using assms needs_resolving_mono needs_resolving_later by (fastforce simp: set_domains_to_resolve)

lemma distinct_domains_to_resolve:
  "iteration_order ord \<Longrightarrow> distinct wanted \<Longrightarrow> distinct (domains_to_resolve ord now mode c wanted)"
  by (simp add: domains_to_resolve_def iteration_order_distinct)

lemma resolve_many_results:
  assumes "resolve_many f ds = (rs, fs)"
  shows "\<forall>x \<in> set rs. f (fst x) = Inr (snd x) \<and> fst x \<in> set ds"
  using assms by (induction ds arbitrary: rs fs) (fastforce split: prod.splits sum.splits)+

section \<open>One rebuild\<close>

lemma build_and_apply_disk [simp]: "disk_of (fst (build_and_apply cfg global ulists eng)) = disk_of eng"
  by (simp add: build_and_apply_def Let_def split: prod.splits)

text \<open>The ways through \<open>rebuild\<close>: a failed load, the fast path, a failed second load, the slow path\<close>

lemma rebuild_cases:
  assumes "rebuild cfg w mode eng = (eng', r)"
  obtains
    (no_load) e where "eng' = eng" "r = Some (StoreFailed e)" "load_all (io_first w) (disk_of eng) = Inl e"
  | (fast) global ulists where "load_all (io_first w) (disk_of eng) = Inr (global, ulists)"
      "domains_to_resolve (map_order cfg) (now_first w) mode (cache eng) (wanted_domains global ulists) = []"
      "build_and_apply cfg global ulists eng = (eng', r)"
  | (no_reload) global ulists todo rs fs e where "load_all (io_first w) (disk_of eng) = Inr (global, ulists)"
      "todo = domains_to_resolve (map_order cfg) (now_first w) mode (cache eng) (wanted_domains global ulists)"
      "resolve_many (answers w) todo = (rs, fs)"
      "eng' = eng\<lparr>cache := store_results (now_second w + ttl cfg) rs (cache eng)\<rparr>" "r = Some (StoreFailed e)"
  | (slow) global ulists todo rs fs global' ulists' evs where
      "load_all (io_first w) (disk_of eng) = Inr (global, ulists)"
      "todo = domains_to_resolve (map_order cfg) (now_first w) mode (cache eng) (wanted_domains global ulists)"
      "resolve_many (answers w) todo = (rs, fs)"
      "load_all (io_second w) (disk_of eng) = Inr (global', ulists')"
      "build_and_apply cfg global' ulists'
         (eng\<lparr>cache := store_results (now_second w + ttl cfg) rs (cache eng), log := evs\<rparr>) = (eng', r)"
proof (cases "load_all (io_first w) (disk_of eng)")
  case (Inl e)
  show ?thesis by (rule no_load [OF _ _ Inl]) (use Inl assms in \<open>simp_all add: rebuild_def rebuild_begin_def\<close>)
next
  case (Inr gl)
  obtain global ulists where l1: "load_all (io_first w) (disk_of eng) = Inr (global, ulists)"
    using Inr by (cases gl) auto
  define todo where "todo = domains_to_resolve (map_order cfg) (now_first w) mode (cache eng) (wanted_domains global ulists)"
  obtain rs fs where rs: "resolve_many (answers w) todo = (rs, fs)" by (cases "resolve_many (answers w) todo") auto
  show ?thesis
  proof (cases "todo = []")
    case True
    show ?thesis
      by (rule fast [OF l1]) (use True assms l1 in \<open>simp_all add: todo_def rebuild_def rebuild_begin_def\<close>)
  next
    case False
    then have b: "rebuild cfg w mode eng = rebuild_finish cfg (io_second w) (now_second w) (rs, fs) eng"
      using l1 rs by (simp add: rebuild_def rebuild_begin_def todo_def Let_def)
    show ?thesis
    proof (cases "load_all (io_second w) (disk_of eng)")
      case (Inl e)
      show ?thesis
        by (rule no_reload [OF l1 todo_def rs, of e]) (use Inl assms b in \<open>simp_all add: rebuild_finish_def\<close>)
    next
      case (Inr gl')
      obtain global' ulists' where l2: "load_all (io_second w) (disk_of eng) = Inr (global', ulists')"
        using Inr by (cases gl') auto
      show ?thesis
        by (rule slow [OF l1 todo_def rs l2]) (use assms b l2 in \<open>simp add: rebuild_finish_def\<close>)
    qed
  qed
qed

lemma build_and_apply_cache:
  "build_and_apply cfg global ulists eng = (eng', r) \<Longrightarrow> cache eng' = prune (wanted_domains global ulists) (cache eng)"
  by (auto simp: build_and_apply_def Let_def split: prod.splits)

lemma build_and_apply_error:
  "build_and_apply cfg global ulists eng = (eng', r) \<Longrightarrow> r \<noteq> Some (StoreFailed e)"
  by (auto simp: build_and_apply_def Let_def split: prod.splits)

text \<open>
  The cache after a rebuild that could read the store: unwanted domains are gone; a domain
  that needed resolving has the new addresses with a fresh expiry, or keeps what it had if
  its lookup failed; all others are unchanged.
\<close>

definition expected_cache :: "'b engine_cfg \<Rightarrow> world \<Rightarrow> resolve_mode \<Rightarrow> 'b engine \<Rightarrow> string \<Rightarrow> cache_entry option" where
  "expected_cache cfg w mode eng d =
     (if \<not> wanted_on (disk_of eng) d then None
      else if needs_resolving (now_first w) mode (cache eng) d then
        (case answers w d of
           Inr r \<Rightarrow> Some \<lparr>res = r, expires = now_second w + ttl cfg\<rparr>
         | Inl e \<Rightarrow> map_of (cache eng) d)
      else map_of (cache eng) d)"

theorem rebuild_cache:
  assumes "rebuild cfg w mode eng = (eng', r)" "iteration_order (map_order cfg)" "wf_disk (disk_of eng)"
    and "\<forall>e. r \<noteq> Some (StoreFailed e)"
  shows "map_of (cache eng') d = expected_cache cfg w mode eng d"
  using assms(1)
proof (cases rule: rebuild_cases)
  case (fast global ulists)
  have none: "wanted_on (disk_of eng) x \<Longrightarrow> \<not> needs_resolving (now_first w) mode (cache eng) x" for x
    using set_domains_to_resolve [OF assms(2), of x "now_first w" mode "cache eng" "wanted_domains global ulists"]
      fast(2) wanted_disk [OF fast(1) assms(3), of x] by simp
  show ?thesis
    using none [of d] wanted_disk [OF fast(1) assms(3), of d]
    by (simp add: build_and_apply_cache [OF fast(3)] map_of_prune expected_cache_def)
next
  case (slow global ulists todo rs fs global' ulists' evs)
  have t: "x \<in> set todo \<longleftrightarrow> wanted_on (disk_of eng) x \<and> needs_resolving (now_first w) mode (cache eng) x" for x
    using set_domains_to_resolve [OF assms(2)] wanted_disk [OF slow(1) assms(3)] by (simp add: slow(2))
  have dt: "distinct todo" unfolding slow(2) by (rule distinct_domains_to_resolve [OF assms(2) distinct_wanted])
  have "map_of (store_results (now_second w + ttl cfg) rs (cache eng)) d =
      (case map_of rs d of None \<Rightarrow> map_of (cache eng) d | Some r \<Rightarrow> Some \<lparr>res = r, expires = now_second w + ttl cfg\<rparr>)"
    using resolve_many_keys(3) [OF slow(3) dt] by (intro store_results_map) simp
  then show ?thesis
    using wanted_disk [OF slow(4) assms(3), of d]
    by (simp add: build_and_apply_cache [OF slow(5)] map_of_prune expected_cache_def
        resolve_many_maps(1) [OF slow(3)] t split: sum.splits)
qed (use assms(4) in auto)

text \<open>When the store cannot be read the kernel keeps what was applied before.\<close>

theorem rebuild_store_failure:
  assumes "rebuild cfg w mode eng = (eng', Some (StoreFailed e))"
  shows "be_state eng' = be_state eng \<and> disk_of eng' = disk_of eng"
  using assms by (cases rule: rebuild_cases) (auto dest: build_and_apply_error)

lemma rebuild_disk: "rebuild cfg w mode eng = (eng', r) \<Longrightarrow> disk_of eng' = disk_of eng"
proof -
  assume a: "rebuild cfg w mode eng = (eng', r)"
  have d: "build_and_apply cfg g us x = (eng', r) \<Longrightarrow> disk_of eng' = disk_of x" for g us x
    using build_and_apply_disk [of cfg g us x] by simp
  show ?thesis using a by (cases rule: rebuild_cases) (auto dest: d)
qed

end
