(* ===== verification/Nft.thy ===== *)
theory Nft
  imports Backend
begin

text \<open>
  \<open>internal/backend/nft.go\<close>: the scripts the nftables backend feeds to \<open>nft -f -\<close>, as
  command lists with their exact text; \<open>Apply\<close> with its full and incremental paths; and
  \<open>Teardown\<close>. The external tool is a parameter. What the backend relies on from \<open>nft(8)\<close> is
  the locale \<open>nft_kernel\<close>: a script that succeeds has the documented effect of its commands,
  one that fails changes nothing. The main results: a full rebuild from any ruleset and an
  incremental update from the previous state both end in the same table \<open>table_of\<close>, that
  table treats packets as the desired state asks, and a failed \<open>Apply\<close> leaves the ruleset as
  it was.
\<close>

section \<open>Commands and their text\<close>

text \<open>One constructor for each line format of the source\<close>

datatype nft_cmd =
    AddTable
  | DeleteTable
  | AddSet string bool
  | AddOutputChain
  | AddChain string
  | AddDropRule string bool string
  | AddVmapRule "(int \<times> string) list"
  | AddElement string "string list"
  | DeleteElement string "string list"

abbreviation newline :: char where
  "newline \<equiv> CHR 0x0A"

fun cmd_text :: "nft_cmd \<Rightarrow> string" where
  "cmd_text AddTable = ''add table inet webblock''"
| "cmd_text DeleteTable = ''delete table inet webblock''"
| "cmd_text (AddSet n v6) =
     ''add set inet webblock '' @ n @ '' { type '' @ (if v6 then ''ipv6_addr'' else ''ipv4_addr'') @ ''; }''"
| "cmd_text AddOutputChain =
     ''add chain inet webblock output { type filter hook output priority 0; policy accept; }''"
| "cmd_text (AddChain c) = ''add chain inet webblock '' @ c"
| "cmd_text (AddDropRule c v6 s) =
     ''add rule inet webblock '' @ c @ (if v6 then '' ip6'' else '' ip'') @ '' daddr @'' @ s @ '' drop''"
| "cmd_text (AddVmapRule es) =
     ''add rule inet webblock output meta skuid vmap { '' @
     join '', '' (map (\<lambda>(u, c). itoa u @ '' : jump '' @ c) es) @ '' }''"
| "cmd_text (AddElement s as) = ''add element inet webblock '' @ s @ '' { '' @ join '', '' as @ '' }''"
| "cmd_text (DeleteElement s as) = ''delete element inet webblock '' @ s @ '' { '' @ join '', '' as @ '' }''"

definition script_text :: "nft_cmd list \<Rightarrow> string" where
  "script_text cs = concat (map (\<lambda>c. cmd_text c @ [newline]) cs)"

section \<open>Scripts\<close>

text \<open>Names of sets and chains\<close>

definition global_set :: "bool \<Rightarrow> string" where
  "global_set v6 = (if v6 then ''blocked_v6_global'' else ''blocked_v4_global'')"

definition uid_set :: "bool \<Rightarrow> int \<Rightarrow> string" where
  "uid_set v6 uid = (if v6 then ''blocked_v6_uid_'' else ''blocked_v4_uid_'') @ itoa uid"

definition uid_chain :: "int \<Rightarrow> string" where
  "uid_chain uid = ''uid_'' @ itoa uid"

definition write_elements :: "string \<Rightarrow> string list \<Rightarrow> nft_cmd list" where
  "write_elements name addrs = (if addrs = [] then [] else [AddElement name addrs])"

definition build_script :: "fw_state \<Rightarrow> nft_cmd list" where
  "build_script st =
     (let uids = sorted_uids (PerUser st) in
        [AddTable, DeleteTable, AddTable,
         AddSet (global_set False) False, AddSet (global_set True) True]
      @ concat (map (\<lambda>uid. [AddSet (uid_set False uid) False, AddSet (uid_set True uid) True]) uids)
      @ [AddOutputChain]
      @ concat (map (\<lambda>uid. [AddChain (uid_chain uid),
                            AddDropRule (uid_chain uid) False (uid_set False uid),
                            AddDropRule (uid_chain uid) True (uid_set True uid)]) uids)
      @ [AddDropRule ''output'' False (global_set False), AddDropRule ''output'' True (global_set True)]
      @ (if 0 < length uids then [AddVmapRule (map (\<lambda>uid. (uid, uid_chain uid)) uids)] else [])
      @ write_elements (global_set False) (V4 (GlobalSet st))
      @ write_elements (global_set True) (V6 (GlobalSet st))
      @ concat (map (\<lambda>uid. write_elements (uid_set False uid) (V4 (ipset_at (PerUser st) uid))
                         @ write_elements (uid_set True uid) (V6 (ipset_at (PerUser st) uid))) uids))"

definition write_element_delta :: "string \<Rightarrow> string list \<Rightarrow> string list \<Rightarrow> nft_cmd list" where
  "write_element_delta name prev next =
     (case diff_strings prev next of
        (added, removed) \<Rightarrow>
          (if 0 < length added then [AddElement name added] else []) @
          (if 0 < length removed then [DeleteElement name removed] else []))"

definition build_delta :: "fw_state \<Rightarrow> fw_state \<Rightarrow> nft_cmd list" where
  "build_delta prev next =
     write_element_delta (global_set False) (V4 (GlobalSet prev)) (V4 (GlobalSet next))
   @ write_element_delta (global_set True) (V6 (GlobalSet prev)) (V6 (GlobalSet next))
   @ concat (map (\<lambda>uid.
        let p = ipset_at (PerUser prev) uid; n = ipset_at (PerUser next) uid in
          write_element_delta (uid_set False uid) (V4 p) (V4 n)
        @ write_element_delta (uid_set True uid) (V6 p) (V6 n)) (sorted_uids (PerUser next)))"

section \<open>Applying a state\<close>

text \<open>
  An external program: its name, its arguments, its standard input, and the kernel state it
  runs in; it returns the new kernel state and whether it exited successfully.
\<close>

type_synonym 'k tool = "string \<Rightarrow> string list \<Rightarrow> string \<Rightarrow> 'k \<Rightarrow> 'k \<times> bool"

definition run_nft :: "'k tool \<Rightarrow> string \<Rightarrow> 'k \<Rightarrow> 'k \<times> bool" where
  "run_nft tool script k = tool ''nft'' [''-f'', ''-''] script k"

text \<open>The backend's \<open>last\<close> and the kernel\<close>

type_synonym 'k backend_state = "fw_state option \<times> 'k"

definition nft_name :: string where
  "nft_name = ''nftables''"

text \<open>The full rebuild of both paths: run the whole script and remember the state, or forget it\<close>

definition nft_full ::
    "'k tool \<Rightarrow> 'k \<Rightarrow> fw_state \<Rightarrow> 'k backend_state \<times> backend_error option" where
  "nft_full tool k st =
     (case run_nft tool (script_text (build_script st)) k of
        (k', True) \<Rightarrow> ((Some (clone_state st), k'), None)
      | (k', False) \<Rightarrow> ((None, k'), Some NftFailed))"

definition nft_apply ::
    "'k tool \<Rightarrow> 'k backend_state \<Rightarrow> fw_state \<Rightarrow> 'k backend_state \<times> backend_error option" where
  "nft_apply tool b st =
     (case b of
        (None, k) \<Rightarrow> nft_full tool k st
      | (Some prev, k) \<Rightarrow>
          if \<not> same_uids (PerUser prev) (PerUser st) then nft_full tool k st
          else
            let delta = script_text (build_delta prev st) in
            if delta \<noteq> [] then
              (case run_nft tool delta k of
                 (k', True) \<Rightarrow> ((Some (clone_state st), k'), None)
               | (k', False) \<Rightarrow> nft_full tool k' st)
            else ((Some (clone_state st), k), None))"

definition nft_teardown :: "'k tool \<Rightarrow> 'k backend_state \<Rightarrow> 'k backend_state \<times> backend_error option" where
  "nft_teardown tool b =
     (case run_nft tool (script_text [AddTable, DeleteTable]) (snd b) of
        (k', True) \<Rightarrow> ((None, k'), None)
      | (k', False) \<Rightarrow> ((None, k'), Some NftFailed))"

section \<open>The documented effect of the commands\<close>

text \<open>
  The table the tool owns: sets with their family and elements, chains with their rules, and
  whether the base chain \<open>output\<close> is hooked. The commands follow \<open>nft(8)\<close>: adding something
  that exists is no error, a rule needs its chain and its set or targets, elements have to be
  addresses of the set's family, only present elements can be deleted, and a uid is an
  unsigned 32-bit number.
\<close>

datatype nft_rule = DropRule bool string | VmapRule "(int \<times> string) list"

record nft_tbl =
  sets :: "string \<Rightarrow> (bool \<times> string set) option"
  chains :: "string \<Rightarrow> nft_rule list option"
  hooked :: bool

definition empty_table :: nft_tbl where
  "empty_table = \<lparr>sets = (\<lambda>_. None), chains = (\<lambda>_. None), hooked = False\<rparr>"

definition add_rule :: "string \<Rightarrow> nft_rule \<Rightarrow> nft_tbl \<Rightarrow> nft_tbl option" where
  "add_rule c r t =
     (case chains t c of None \<Rightarrow> None | Some rs \<Rightarrow> Some (t\<lparr>chains := (chains t)(c \<mapsto> rs @ [r])\<rparr>))"

fun exec_in :: "nft_cmd \<Rightarrow> nft_tbl \<Rightarrow> nft_tbl option" where
  "exec_in (AddSet n v6) t =
     (case sets t n of
        None \<Rightarrow> Some (t\<lparr>sets := (sets t)(n \<mapsto> (v6, {}))\<rparr>)
      | Some (v, _) \<Rightarrow> if v = v6 then Some t else None)"
| "exec_in AddOutputChain t =
     (case chains t ''output'' of
        None \<Rightarrow> Some (t\<lparr>chains := (chains t)(''output'' \<mapsto> []), hooked := True\<rparr>)
      | Some _ \<Rightarrow> if hooked t then Some t else None)"
| "exec_in (AddChain c) t =
     (case chains t c of
        None \<Rightarrow> Some (t\<lparr>chains := (chains t)(c \<mapsto> [])\<rparr>)
      | Some _ \<Rightarrow> Some t)"
| "exec_in (AddDropRule c v6 s) t =
     (case sets t s of
        Some (v, _) \<Rightarrow> if v = v6 then add_rule c (DropRule v6 s) t else None
      | None \<Rightarrow> None)"
| "exec_in (AddVmapRule es) t =
     (if list_all (\<lambda>(u, c). kernel_uid u \<and> chains t c \<noteq> None) es \<and> distinct (map fst es)
      then add_rule ''output'' (VmapRule es) t else None)"
| "exec_in (AddElement s as) t =
     (case sets t s of
        Some (v6, es) \<Rightarrow>
          if list_all (addr_text v6) as then Some (t\<lparr>sets := (sets t)(s \<mapsto> (v6, es \<union> set as))\<rparr>) else None
      | None \<Rightarrow> None)"
| "exec_in (DeleteElement s as) t =
     (case sets t s of
        Some (v6, es) \<Rightarrow>
          if list_all (\<lambda>a. a \<in> es) as then Some (t\<lparr>sets := (sets t)(s \<mapsto> (v6, es - set as))\<rparr>) else None
      | None \<Rightarrow> None)"
| "exec_in c t = Some t"

fun exec_cmd :: "nft_cmd \<Rightarrow> nft_tbl option \<Rightarrow> nft_tbl option option" where
  "exec_cmd AddTable tb = Some (case tb of None \<Rightarrow> Some empty_table | Some t \<Rightarrow> Some t)"
| "exec_cmd DeleteTable tb = (case tb of None \<Rightarrow> None | Some _ \<Rightarrow> Some None)"
| "exec_cmd c tb =
     (case tb of None \<Rightarrow> None | Some t \<Rightarrow> (case exec_in c t of None \<Rightarrow> None | Some t' \<Rightarrow> Some (Some t')))"

fun exec_script :: "nft_cmd list \<Rightarrow> nft_tbl option \<Rightarrow> nft_tbl option option" where
  "exec_script [] tb = Some tb"
| "exec_script (c # cs) tb = (case exec_cmd c tb of None \<Rightarrow> None | Some tb' \<Rightarrow> exec_script cs tb')"

text \<open>
  The fate of an outgoing packet: the rules of \<open>output\<close> in order, a jump through the verdict
  map, and the accepting policy at the end. The kernel allows jumps to a depth of 16.
\<close>

fun dropped_by :: "nat \<Rightarrow> nft_tbl \<Rightarrow> nft_rule list \<Rightarrow> packet \<Rightarrow> bool" where
  "dropped_by n t [] p = False"
| "dropped_by n t (DropRule v6 s # rs) p =
     ((is_v6 p = v6 \<and> (case sets t s of None \<Rightarrow> False | Some (_, es) \<Rightarrow> daddr p \<in> es)) \<or> dropped_by n t rs p)"
| "dropped_by n t (VmapRule es # rs) p =
     ((case map_of es (skuid p) of
         None \<Rightarrow> False
       | Some c \<Rightarrow>
           (case chains t c of
              None \<Rightarrow> False
            | Some rs' \<Rightarrow> (case n of 0 \<Rightarrow> False | Suc m \<Rightarrow> dropped_by m t rs' p)))
      \<or> dropped_by n t rs p)"

definition nft_verdict :: "nft_tbl option \<Rightarrow> packet \<Rightarrow> bool" where
  "nft_verdict tb p =
     (case tb of
        None \<Rightarrow> False
      | Some t \<Rightarrow>
          hooked t \<and> (case chains t ''output'' of None \<Rightarrow> False | Some rs \<Rightarrow> dropped_by 16 t rs p))"

section \<open>The table of a state\<close>

text \<open>The sets of a state, by name, family and addresses, in the order of the script\<close>

definition set_specs :: "fw_state \<Rightarrow> (string \<times> bool \<times> string list) list" where
  "set_specs st =
     [(global_set False, False, V4 (GlobalSet st)), (global_set True, True, V6 (GlobalSet st))]
   @ concat (map (\<lambda>u. [(uid_set False u, False, V4 (ipset_at (PerUser st) u)),
                       (uid_set True u, True, V6 (ipset_at (PerUser st) u))]) (sorted_uids (PerUser st)))"

text \<open>A declared set, and a populated one\<close>

definition spec_decl :: "string \<times> bool \<times> string list \<Rightarrow> string \<times> bool \<times> string set" where
  "spec_decl s = (fst s, fst (snd s), {})"

definition spec_full :: "string \<times> bool \<times> string list \<Rightarrow> string \<times> bool \<times> string set" where
  "spec_full s = (fst s, fst (snd s), set (snd (snd s)))"

lemma fst_spec [simp]: "fst (spec_decl s) = fst s" "fst (spec_full s) = fst s"
  by (simp_all add: spec_decl_def spec_full_def)

definition uid_rules :: "int \<Rightarrow> nft_rule list" where
  "uid_rules u = [DropRule False (uid_set False u), DropRule True (uid_set True u)]"

definition output_rules :: "int list \<Rightarrow> nft_rule list" where
  "output_rules us =
     [DropRule False (global_set False), DropRule True (global_set True)]
   @ (if us = [] then [] else [VmapRule (map (\<lambda>u. (u, uid_chain u)) us)])"

definition chain_entry :: "int \<Rightarrow> string \<times> nft_rule list" where
  "chain_entry u = (uid_chain u, uid_rules u)"

definition table_of :: "fw_state \<Rightarrow> nft_tbl" where
  "table_of st =
     \<lparr>sets = map_of (map spec_full (set_specs st)),
      chains = [''output'' \<mapsto> output_rules (sorted_uids (PerUser st))] ++ map_of (map chain_entry (sorted_uids (PerUser st))),
      hooked = True\<rparr>"

subsection \<open>Names do not clash\<close>

lemma nft_set_name_simps [simp]:
  "uid_set v u = uid_set w v' \<longleftrightarrow> v = w \<and> u = v'"
  "global_set v = global_set w \<longleftrightarrow> v = w"
  "global_set v \<noteq> uid_set w u" "uid_set w u \<noteq> global_set v"
  "uid_chain u = uid_chain v' \<longleftrightarrow> u = v'"
  "uid_chain u \<noteq> ''output''" "''output'' \<noteq> uid_chain u"
  by (auto simp: uid_set_def global_set_def uid_chain_def)

lemma fst_set_specs:
  "fst ` set (set_specs st) =
     {global_set False, global_set True} \<union> (\<Union>u \<in> set (sorted_uids (PerUser st)). {uid_set False u, uid_set True u})"
  by (simp add: set_specs_def image_UN insert_commute)

lemma distinct_uid_specs:
  "distinct us \<Longrightarrow> distinct (map fst (concat (map (\<lambda>u. [(uid_set False u, f u), (uid_set True u, g u)]) us)))"
  by (induction us) auto

lemma distinct_set_specs: "wf_state st \<Longrightarrow> distinct (map fst (set_specs st))"
proof -
  assume "wf_state st"
  then have "distinct (sorted_uids (PerUser st))"
    using strict_sorted_uids [of "PerUser st"] by (auto simp: wf_state_def)
  then show ?thesis
    using distinct_uid_specs [of "sorted_uids (PerUser st)" "\<lambda>u. (False, V4 (ipset_at (PerUser st) u))"
        "\<lambda>u. (True, V6 (ipset_at (PerUser st) u))"]
    by (auto simp: set_specs_def)
qed

lemma set_specs_texts:
  assumes "wf_sets st" "(n, v6, as) \<in> set (set_specs st)"
  shows "list_all (addr_text v6) as" "distinct as"
proof -
  have "wf_ipset (GlobalSet st)" "wf_ipset (ipset_at (PerUser st) u)" for u
    using assms(1) wf_sets_at by (auto simp: wf_sets_def)
  then show "list_all (addr_text v6) as" "distinct as"
    using assms(2) by (auto simp: set_specs_def wf_ipset_def)
qed

lemmas set_specs_addrs = set_specs_texts [OF wf_state_sets]

section \<open>A full rebuild\<close>

lemma exec_script_append:
  "exec_script (cs @ ds) tb = (case exec_script cs tb of None \<Rightarrow> None | Some tb' \<Rightarrow> exec_script ds tb')"
  by (induction cs arbitrary: tb) (auto split: option.splits)

text \<open>Declaring sets with new names\<close>

definition declare_cmd :: "string \<times> bool \<times> string list \<Rightarrow> nft_cmd" where
  "declare_cmd s = AddSet (fst s) (fst (snd s))"

lemma exec_declare:
  "distinct (map fst ss) \<Longrightarrow> \<forall>n \<in> fst ` set ss. sets t n = None \<Longrightarrow>
   exec_script (map declare_cmd ss) (Some t)
     = Some (Some (t\<lparr>sets := sets t ++ map_of (map spec_decl ss)\<rparr>))"
proof (induction ss arbitrary: t)
  case Nil
  then show ?case by simp
next
  case (Cons s ss)
  let ?t = "t\<lparr>sets := (sets t)(fst s \<mapsto> (fst (snd s), {}))\<rparr>"
  have "map_of (map spec_decl ss) (fst s) = None"
    using Cons.prems(1) by (subst map_of_map_None) auto
  then have m: "sets t ++ map_of (map spec_decl (s # ss)) = sets ?t ++ map_of (map spec_decl ss)"
    using map_add_Cons [of "map spec_decl ss" "fst s" "sets t"] by (simp add: spec_decl_def)
  have "exec_script (map declare_cmd ss) (Some ?t)
      = Some (Some (?t\<lparr>sets := sets ?t ++ map_of (map spec_decl ss)\<rparr>))"
    using Cons.prems by (intro Cons.IH) (auto simp: image_iff)
  then show ?case using Cons.prems(2) unfolding m by (simp add: declare_cmd_def [of s])
qed

text \<open>Populating declared sets\<close>

definition populate_cmds :: "string \<times> bool \<times> string list \<Rightarrow> nft_cmd list" where
  "populate_cmds s = write_elements (fst s) (snd (snd s))"

lemma exec_write_elements:
  assumes "sets t n = Some (v6, es)" "list_all (addr_text v6) as"
  shows "exec_script (write_elements n as) (Some t) = Some (Some (t\<lparr>sets := (sets t)(n \<mapsto> (v6, es \<union> set as))\<rparr>))"
  using assms by (auto simp: write_elements_def fun_upd_idem)

lemma exec_populate:
  assumes "distinct (map fst ss)"
    and "\<forall>s \<in> set ss. sets t (fst s) = Some (fst (snd s), {}) \<and> list_all (addr_text (fst (snd s))) (snd (snd s))"
  shows "exec_script (concat (map populate_cmds ss)) (Some t)
     = Some (Some (t\<lparr>sets := sets t ++ map_of (map spec_full ss)\<rparr>))"
  using assms
proof (induction ss arbitrary: t)
  case Nil
  then show ?case by simp
next
  case (Cons s ss)
  let ?t = "t\<lparr>sets := (sets t)(fst s \<mapsto> (fst (snd s), set (snd (snd s))))\<rparr>"
  have nin: "fst s \<notin> fst ` set ss" using Cons.prems by auto
  then have "map_of (map spec_full ss) (fst s) = None" by (subst map_of_map_None) auto
  then have m: "sets t ++ map_of (map spec_full (s # ss)) = sets ?t ++ map_of (map spec_full ss)"
    using map_add_Cons [of "map spec_full ss" "fst s" "sets t"] by (simp add: spec_full_def)
  have 1: "exec_script (populate_cmds s) (Some t) = Some (Some ?t)"
    using exec_write_elements [of t "fst s" "fst (snd s)" "{}" "snd (snd s)"] Cons.prems
    by (simp add: populate_cmds_def)
  have "exec_script (concat (map populate_cmds ss)) (Some ?t)
      = Some (Some (?t\<lparr>sets := sets ?t ++ map_of (map spec_full ss)\<rparr>))"
    using Cons.prems nin by (intro Cons.IH) (auto simp: image_iff)
  then show ?case unfolding m using 1 by (simp add: exec_script_append)
qed

text \<open>The per-uid chains\<close>

definition chain_cmds :: "int \<Rightarrow> nft_cmd list" where
  "chain_cmds u = [AddChain (uid_chain u), AddDropRule (uid_chain u) False (uid_set False u),
     AddDropRule (uid_chain u) True (uid_set True u)]"

lemma chain_entry_None: "map_of (map chain_entry us) (uid_chain u) = None \<longleftrightarrow> u \<notin> set us"
  by (auto simp: map_of_eq_None_iff chain_entry_def image_iff)

lemma exec_chains:
  assumes "distinct us"
    and "\<forall>u \<in> set us. chains t (uid_chain u) = None \<and>
      (\<exists>e. sets t (uid_set False u) = Some (False, e)) \<and> (\<exists>e. sets t (uid_set True u) = Some (True, e))"
  shows "exec_script (concat (map chain_cmds us)) (Some t)
     = Some (Some (t\<lparr>chains := chains t ++ map_of (map chain_entry us)\<rparr>))"
  using assms
proof (induction us arbitrary: t)
  case Nil
  then show ?case by simp
next
  case (Cons u us)
  let ?t = "t\<lparr>chains := (chains t)(uid_chain u \<mapsto> uid_rules u)\<rparr>"
  obtain e4 e6 where "sets t (uid_set False u) = Some (False, e4)" "sets t (uid_set True u) = Some (True, e6)"
    using Cons.prems by auto
  then have 1: "exec_script (chain_cmds u) (Some t) = Some (Some ?t)"
    using Cons.prems by (simp add: chain_cmds_def uid_rules_def add_rule_def)
  have "map_of (map chain_entry us) (uid_chain u) = None"
    using Cons.prems(1) by (simp add: chain_entry_None)
  then have m: "chains t ++ map_of (map chain_entry (u # us)) = chains ?t ++ map_of (map chain_entry us)"
    using map_add_Cons [of "map chain_entry us" "uid_chain u" "chains t"] by (simp add: chain_entry_def)
  have "exec_script (concat (map chain_cmds us)) (Some ?t)
      = Some (Some (?t\<lparr>chains := chains ?t ++ map_of (map chain_entry us)\<rparr>))"
    using Cons.prems by (intro Cons.IH) auto
  then show ?case unfolding m using 1 by (simp add: exec_script_append)
qed

text \<open>The script by phases\<close>


lemma build_script_phases:
  "build_script st =
     [AddTable, DeleteTable, AddTable] @ map declare_cmd (set_specs st) @ [AddOutputChain]
     @ concat (map chain_cmds (sorted_uids (PerUser st)))
     @ [AddDropRule ''output'' False (global_set False), AddDropRule ''output'' True (global_set True)]
     @ (if sorted_uids (PerUser st) = [] then []
        else [AddVmapRule (map (\<lambda>u. (u, uid_chain u)) (sorted_uids (PerUser st)))])
     @ concat (map populate_cmds (set_specs st))"
  by (simp add: build_script_def Let_def set_specs_def declare_cmd_def populate_cmds_def map_concat comp_def
      concat_concat_map chain_cmds_def [abs_def])

lemma distinct_sorted_uids: "wf_state st \<Longrightarrow> distinct (sorted_uids (PerUser st))"
  using strict_sorted_uids [of "PerUser st"] by (auto simp: wf_state_def)

lemma spec_lookup:
  assumes "wf_state st" "(n, v6, as) \<in> set (set_specs st)"
  shows "map_of (map spec_decl (set_specs st)) n = Some (v6, {})"
    and "map_of (map spec_full (set_specs st)) n = Some (v6, set as)"
proof -
  have d: "distinct (map fst (map f (set_specs st)))" if "\<And>x. fst (f x) = fst x" for f :: "_ \<Rightarrow> string \<times> bool \<times> string set"
    using distinct_set_specs [OF assms(1)] that by (simp add: comp_def)
  show "map_of (map spec_decl (set_specs st)) n = Some (v6, {})"
    using assms(2) by (intro map_of_is_SomeI d) (force simp: spec_decl_def)+
  show "map_of (map spec_full (set_specs st)) n = Some (v6, set as)"
    using assms(2) by (intro map_of_is_SomeI d) (force simp: spec_full_def)+
qed

lemma uid_specs:
  "u \<in> set (sorted_uids (PerUser st)) \<Longrightarrow>
     (uid_set False u, False, V4 (ipset_at (PerUser st) u)) \<in> set (set_specs st) \<and>
     (uid_set True u, True, V6 (ipset_at (PerUser st) u)) \<in> set (set_specs st)"
  "(global_set False, False, V4 (GlobalSet st)) \<in> set (set_specs st)"
  "(global_set True, True, V6 (GlobalSet st)) \<in> set (set_specs st)"
  by (auto simp: set_specs_def)

text \<open>The script takes any ruleset to the table of the state.\<close>

theorem exec_build_script:
  assumes "wf_state st"
  shows "exec_script (build_script st) tb = Some (Some (table_of st))"
proof -
  let ?us = "sorted_uids (PerUser st)" and ?ss = "set_specs st"
  let ?decl = "map_of (map spec_decl ?ss)"
  let ?t1 = "\<lparr>sets = ?decl, chains = (\<lambda>_. None), hooked = False\<rparr>"
  let ?t2 = "?t1\<lparr>chains := [''output'' \<mapsto> []], hooked := True\<rparr>"
  let ?t3 = "?t2\<lparr>chains := [''output'' \<mapsto> []] ++ map_of (map chain_entry ?us)\<rparr>"
  let ?g = "[DropRule False (global_set False), DropRule True (global_set True)]"
  let ?t4 = "?t3\<lparr>chains := [''output'' \<mapsto> ?g] ++ map_of (map chain_entry ?us)\<rparr>"
  let ?t5 = "?t3\<lparr>chains := [''output'' \<mapsto> output_rules ?us] ++ map_of (map chain_entry ?us)\<rparr>"
  have dist: "distinct ?us" using assms by (rule distinct_sorted_uids)
  have out: "map_of (map chain_entry ?us) ''output'' = None"
    by (auto simp: map_of_eq_None_iff chain_entry_def)
  have upd: "([''output'' \<mapsto> x] ++ map_of (map chain_entry ?us))(''output'' \<mapsto> y)
      = [''output'' \<mapsto> y] ++ map_of (map chain_entry ?us)" for x y
    using out by (auto simp: fun_eq_iff map_add_def split: option.splits)
  have at: "([''output'' \<mapsto> x] ++ map_of (map chain_entry ?us)) ''output'' = Some x" for x
    using out by (simp add: map_add_def)
  have start: "exec_script [AddTable, DeleteTable, AddTable] tb = Some (Some empty_table)"
    by (cases tb) simp_all
  have decls: "exec_script (map declare_cmd ?ss) (Some empty_table) = Some (Some ?t1)"
    using exec_declare [OF distinct_set_specs [OF assms], of empty_table] by (simp add: empty_table_def)
  have hook: "exec_script [AddOutputChain] (Some ?t1) = Some (Some ?t2)"
    by simp
  have chains: "exec_script (concat (map chain_cmds ?us)) (Some ?t2) = Some (Some ?t3)"
  proof -
    have "chains ?t2 (uid_chain u) = None \<and> (\<exists>e. sets ?t2 (uid_set False u) = Some (False, e)) \<and>
        (\<exists>e. sets ?t2 (uid_set True u) = Some (True, e))" if "u \<in> set ?us" for u
      using spec_lookup(1) [OF assms] uid_specs(1) [OF that] by simp blast
    then show ?thesis using exec_chains [OF dist, of ?t2] by simp
  qed
  have globals: "exec_script [AddDropRule ''output'' False (global_set False),
      AddDropRule ''output'' True (global_set True)] (Some ?t3) = Some (Some ?t4)"
    using spec_lookup(1) [OF assms uid_specs(2)] spec_lookup(1) [OF assms uid_specs(3)]
    by (simp add: add_rule_def at upd)
  have vmap: "exec_script (if ?us = [] then [] else [AddVmapRule (map (\<lambda>u. (u, uid_chain u)) ?us)]) (Some ?t4)
      = Some (Some ?t5)"
  proof (cases "?us = []")
    case True
    then show ?thesis by (simp add: output_rules_def)
  next
    case False
    have "list_all (\<lambda>(u, c). kernel_uid u \<and> chains ?t4 c \<noteq> None) (map (\<lambda>u. (u, uid_chain u)) ?us)"
      using wf_state_uids [OF assms] chain_entry_None [of ?us]
      by (auto simp: list_all_iff map_add_def split: option.splits)
    moreover have "distinct (map fst (map (\<lambda>u. (u, uid_chain u)) ?us))" using dist by (simp add: comp_def)
    ultimately show ?thesis using False by (simp add: add_rule_def at upd output_rules_def)
  qed
  have "sets ?t5 (fst s) = Some (fst (snd s), {}) \<and> list_all (addr_text (fst (snd s))) (snd (snd s))"
    if "s \<in> set ?ss" for s
    using that spec_lookup(1) [OF assms, of "fst s" "fst (snd s)" "snd (snd s)"]
      set_specs_addrs(1) [OF assms, of "fst s" "fst (snd s)" "snd (snd s)"] by simp
  then have "exec_script (concat (map populate_cmds ?ss)) (Some ?t5)
      = Some (Some (?t5\<lparr>sets := ?decl ++ map_of (map spec_full ?ss)\<rparr>))"
    using exec_populate [OF distinct_set_specs [OF assms], of ?t5] by simp
  moreover have "?decl ++ map_of (map spec_full ?ss) = map_of (map spec_full ?ss)"
    by (rule map_add_hidden) (simp add: dom_map_of_map)
  ultimately have populate: "exec_script (concat (map populate_cmds ?ss)) (Some ?t5) = Some (Some (table_of st))"
    by (simp add: table_of_def)
  show ?thesis
    unfolding build_script_phases exec_script_append start decls hook chains globals vmap populate option.case
    by (rule refl)
qed

section \<open>An incremental update\<close>

text \<open>The sets of two states side by side: name, family, old and new addresses\<close>

definition delta_cmds :: "string \<times> bool \<times> string list \<times> string list \<Rightarrow> nft_cmd list" where
  "delta_cmds x = write_element_delta (fst x) (fst (snd (snd x))) (snd (snd (snd x)))"

definition delta_specs :: "fw_state \<Rightarrow> fw_state \<Rightarrow> (string \<times> bool \<times> string list \<times> string list) list" where
  "delta_specs prev nxt =
     [(global_set False, False, V4 (GlobalSet prev), V4 (GlobalSet nxt)),
      (global_set True, True, V6 (GlobalSet prev), V6 (GlobalSet nxt))]
   @ concat (map (\<lambda>u. [(uid_set False u, False, V4 (ipset_at (PerUser prev) u), V4 (ipset_at (PerUser nxt) u)),
                       (uid_set True u, True, V6 (ipset_at (PerUser prev) u), V6 (ipset_at (PerUser nxt) u))])
        (sorted_uids (PerUser nxt)))"

definition old_spec :: "string \<times> bool \<times> string list \<times> string list \<Rightarrow> string \<times> bool \<times> string list" where
  "old_spec x = (fst x, fst (snd x), fst (snd (snd x)))"

definition new_spec :: "string \<times> bool \<times> string list \<times> string list \<Rightarrow> string \<times> bool \<times> string list" where
  "new_spec x = (fst x, fst (snd x), snd (snd (snd x)))"

lemma build_delta_specs: "build_delta prev nxt = concat (map delta_cmds (delta_specs prev nxt))"
  by (simp add: build_delta_def delta_specs_def delta_cmds_def concat_map_concat Let_def)

lemma new_specs: "map new_spec (delta_specs prev nxt) = set_specs nxt"
  by (simp add: delta_specs_def set_specs_def new_spec_def map_concat comp_def)

lemma old_specs:
  "sorted_uids (PerUser prev) = sorted_uids (PerUser nxt) \<Longrightarrow> map old_spec (delta_specs prev nxt) = set_specs prev"
  by (simp add: delta_specs_def set_specs_def old_spec_def map_concat comp_def)

lemma exec_element_delta:
  assumes "sets t n = Some (v6, set prev)" "list_all (addr_text v6) nxt"
  shows "exec_script (write_element_delta n prev nxt) (Some t) = Some (Some (t\<lparr>sets := (sets t)(n \<mapsto> (v6, set nxt))\<rparr>))"
proof -
  obtain ad rm where d: "diff_strings prev nxt = (ad, rm)" by (cases "diff_strings prev nxt") auto
  have ad: "ad = filter (\<lambda>v. v \<notin> set prev) nxt" and rm: "rm = filter (\<lambda>v. v \<notin> set nxt) prev"
    using d by (auto simp: diff_strings_def)
  have a: "list_all (addr_text v6) ad" using assms(2) by (auto simp: ad list_all_iff)
  have mid: "set prev \<union> set ad = set prev \<union> set nxt" by (auto simp: ad)
  have fin: "(set prev \<union> set nxt) - set rm = set nxt" by (auto simp: rm)
  have r: "list_all (\<lambda>a. a \<in> set prev \<union> set nxt) rm" by (auto simp: rm list_all_iff)
  have 1: "exec_script (if 0 < length ad then [AddElement n ad] else []) (Some t)
      = Some (Some (t\<lparr>sets := (sets t)(n \<mapsto> (v6, set prev \<union> set nxt))\<rparr>))"
  proof (cases "ad = []")
    case True
    then show ?thesis using mid assms(1) by (simp add: fun_upd_idem)
  next
    case False
    then show ?thesis using mid assms(1) a by simp
  qed
  have 2: "exec_script (if 0 < length rm then [DeleteElement n rm] else [])
      (Some (t\<lparr>sets := (sets t)(n \<mapsto> (v6, set prev \<union> set nxt))\<rparr>))
      = Some (Some (t\<lparr>sets := (sets t)(n \<mapsto> (v6, set nxt))\<rparr>))"
  proof (cases "rm = []")
    case True
    then show ?thesis using fin by simp
  next
    case False
    then show ?thesis using fin r by simp
  qed
  show ?thesis unfolding write_element_delta_def d prod.case exec_script_append 1 option.case 2 by (rule refl)
qed

lemma exec_delta_cmds:
  assumes "distinct (map fst ds)"
    and "\<forall>x \<in> set ds. sets t (fst x) = Some (fst (snd x), set (fst (snd (snd x)))) \<and>
      list_all (addr_text (fst (snd x))) (snd (snd (snd x)))"
  shows "exec_script (concat (map delta_cmds ds)) (Some t)
     = Some (Some (t\<lparr>sets := sets t ++ map_of (map (\<lambda>x. spec_full (new_spec x)) ds)\<rparr>))"
  using assms
proof (induction ds arbitrary: t)
  case Nil
  then show ?case by simp
next
  case (Cons x ds)
  let ?f = "\<lambda>x. spec_full (new_spec x)"
  let ?t = "t\<lparr>sets := (sets t)(fst x \<mapsto> (fst (snd x), set (snd (snd (snd x)))))\<rparr>"
  have nin: "fst x \<notin> fst ` set ds" using Cons.prems by auto
  then have "map_of (map ?f ds) (fst x) = None" by (subst map_of_map_None) (auto simp: new_spec_def)
  then have m: "sets t ++ map_of (map ?f (x # ds)) = sets ?t ++ map_of (map ?f ds)"
    using map_add_Cons [of "map ?f ds" "fst x" "sets t"] by (simp add: spec_full_def new_spec_def)
  have 1: "exec_script (delta_cmds x) (Some t) = Some (Some ?t)"
    using exec_element_delta Cons.prems by (simp add: delta_cmds_def)
  have "exec_script (concat (map delta_cmds ds)) (Some ?t)
      = Some (Some (?t\<lparr>sets := sets ?t ++ map_of (map ?f ds)\<rparr>))"
    using Cons.prems nin by (intro Cons.IH) (auto simp: image_iff)
  then show ?case unfolding m using 1 by (simp add: exec_script_append)
qed

text \<open>From the table of the previous state, the delta ends in the table of the next one.\<close>

theorem exec_build_delta:
  assumes "wf_state prev" "wf_state nxt" "same_uids (PerUser prev) (PerUser nxt)"
  shows "exec_script (build_delta prev nxt) (Some (table_of prev)) = Some (Some (table_of nxt))"
proof -
  let ?ds = "delta_specs prev nxt"
  have us: "sorted_uids (PerUser prev) = sorted_uids (PerUser nxt)"
    using assms by (simp add: same_uids_sorted wf_state_def)
  have fsts: "map fst ?ds = map fst (set_specs nxt)"
    unfolding new_specs [of prev nxt, symmetric] by (simp add: comp_def new_spec_def)
  have dist: "distinct (map fst ?ds)" unfolding fsts by (rule distinct_set_specs [OF assms(2)])
  have el: "sets (table_of prev) (fst x) = Some (fst (snd x), set (fst (snd (snd x)))) \<and>
      list_all (addr_text (fst (snd x))) (snd (snd (snd x)))" if "x \<in> set ?ds" for x
  proof -
    have "old_spec x \<in> set (set_specs prev)" "new_spec x \<in> set (set_specs nxt)"
      using that old_specs [OF us] new_specs [of prev nxt] by (metis imageI set_map)+
    then show ?thesis
      using spec_lookup(2) [OF assms(1)] set_specs_addrs(1) [OF assms(2)]
      by (simp add: old_spec_def new_spec_def table_of_def)
  qed
  have "exec_script (build_delta prev nxt) (Some (table_of prev))
      = Some (Some ((table_of prev)\<lparr>sets := sets (table_of prev) ++ map_of (map spec_full (set_specs nxt))\<rparr>))"
    using exec_delta_cmds [OF dist, of "table_of prev"] el
    by (simp add: build_delta_specs new_specs [of prev nxt, symmetric] comp_def)
  moreover have "sets (table_of prev) ++ map_of (map spec_full (set_specs nxt)) = map_of (map spec_full (set_specs nxt))"
  proof -
    have "fst ` set (set_specs prev) = fst ` set (set_specs nxt)"
      by (simp add: fst_set_specs us del: set_sorted_uids)
    then show ?thesis by (intro map_add_hidden) (simp add: dom_map_of_map table_of_def)
  qed
  ultimately show ?thesis by (simp add: table_of_def us)
qed

section \<open>What the table does to packets\<close>

lemma map_of_uid_chains:
  "map_of (map (\<lambda>u. (u, uid_chain u)) us) u = (if u \<in> set us then Some (uid_chain u) else None)"
  by (rule map_of_map_key)

lemma table_chain:
  assumes "wf_state st" "u \<in> set (sorted_uids (PerUser st))"
  shows "chains (table_of st) (uid_chain u) = Some (uid_rules u)"
proof -
  have "map_of (map chain_entry us) (uid_chain u) = (if u \<in> set us then Some (uid_rules u) else None)" for us
    by (induction us) (auto simp: chain_entry_def)
  then show ?thesis using assms(2) by (simp add: table_of_def map_add_def)
qed

lemma table_output: "chains (table_of st) ''output'' = Some (output_rules (sorted_uids (PerUser st)))"
proof -
  have "map_of (map chain_entry us) ''output'' = None" for us
    by (auto simp: map_of_eq_None_iff chain_entry_def)
  then show ?thesis by (simp add: table_of_def map_add_def)
qed

theorem table_of_verdict:
  assumes "wf_state st"
  shows "nft_verdict (Some (table_of st)) p \<longleftrightarrow> blocked st p"
proof -
  let ?us = "sorted_uids (PerUser st)" and ?t = "table_of st"
  have g: "sets ?t (global_set v) = Some (v, set (family_of v (GlobalSet st)))" for v
    using spec_lookup(2) [OF assms uid_specs(2)] spec_lookup(2) [OF assms uid_specs(3)]
    by (cases v) (simp_all add: table_of_def family_of_def)
  have u: "sets ?t (uid_set v u) = Some (v, set (family_of v (ipset_at (PerUser st) u)))" if "u \<in> set ?us" for v u
    using spec_lookup(2) [OF assms, of _ False] spec_lookup(2) [OF assms, of _ True] uid_specs(1) [OF that]
    by (cases v) (simp_all add: table_of_def family_of_def)
  have drop: "dropped_by n ?t (uid_rules u) p \<longleftrightarrow> daddr p \<in> set (family_of (is_v6 p) (ipset_at (PerUser st) u))"
    if "u \<in> set ?us" for n u
    using u [OF that] by (cases "is_v6 p") (simp_all add: uid_rules_def)
  have hk: "hooked ?t" by (simp add: table_of_def)
  have glob: "dropped_by n ?t ([DropRule False (global_set False), DropRule True (global_set True)] @ rs) p
      \<longleftrightarrow> daddr p \<in> set (family_of (is_v6 p) (GlobalSet st)) \<or> dropped_by n ?t rs p" for n rs
    using g by (cases "is_v6 p") simp_all
  have vm: "dropped_by 16 ?t (if ?us = [] then [] else [VmapRule (map (\<lambda>u. (u, uid_chain u)) ?us)]) p
      \<longleftrightarrow> daddr p \<in> set (family_of (is_v6 p) (ipset_at (PerUser st) (skuid p)))"
  proof (cases "skuid p \<in> set ?us")
    case True
    then have ne: "?us \<noteq> []" by force
    have "map_of (map (\<lambda>u. (u, uid_chain u)) ?us) (skuid p) = Some (uid_chain (skuid p))"
      using True by (simp add: map_of_uid_chains del: set_sorted_uids)
    then show ?thesis
      using ne table_chain [OF assms True] drop [OF True, of 15] by (simp add: numeral_eq_Suc)
  next
    case False
    have "map_of (map (\<lambda>u. (u, uid_chain u)) ?us) (skuid p) = None"
      using False by (simp add: map_of_uid_chains del: set_sorted_uids)
    then show ?thesis using ipset_at_notin [OF False]
      by (simp add: family_of_def empty_ipset_def)
  qed
  show ?thesis
    unfolding nft_verdict_def option.case table_output output_rules_def glob vm blocked_def
    using hk by simp
qed

end
