(* ===== verification/Nft_Text.thy ===== *)
theory Nft_Text
  imports Nft
begin

text \<open>
  The text of nftables scripts can be read back: a reader for the line formats that the
  backend writes, and the theorem that it undoes \<open>script_text\<close>. So two different scripts
  never have the same text, which is what makes the assumption on the tool (a script that
  runs successfully has the effect of its commands) meaningful; the reader also gives a
  reference tool, the interpretation of the locale \<open>nft_kernel\<close> below.
\<close>

section \<open>Lines as words\<close>

fun commas :: "string list \<Rightarrow> string list" where
  "commas [] = []"
| "commas [x] = [x]"
| "commas (x # y # r) = (x @ '','') # commas (y # r)"

fun vmap_words :: "(int \<times> string) list \<Rightarrow> string list" where
  "vmap_words [] = []"
| "vmap_words [(u, c)] = [itoa u, '':'', ''jump'', c]"
| "vmap_words ((u, c) # e # r) = [itoa u, '':'', ''jump'', c @ '',''] @ vmap_words (e # r)"

definition kw :: "string \<Rightarrow> string \<Rightarrow> string list" where
  "kw verb obj = [verb, obj, ''inet'', ''webblock'']"

definition hook_words :: "string list" where
  "hook_words = [''output'', ''{'', ''type'', ''filter'', ''hook'', ''output'', ''priority'', ''0;'', ''policy'', ''accept;'', ''}'']"

definition vmap_head :: "string list" where
  "vmap_head = [''output'', ''meta'', ''skuid'', ''vmap'', ''{'']"

fun cmd_words :: "nft_cmd \<Rightarrow> string list" where
  "cmd_words AddTable = kw ''add'' ''table''"
| "cmd_words DeleteTable = kw ''delete'' ''table''"
| "cmd_words (AddSet n v6) =
     kw ''add'' ''set'' @ [n, ''{'', ''type'', if v6 then ''ipv6_addr;'' else ''ipv4_addr;'', ''}'']"
| "cmd_words AddOutputChain = kw ''add'' ''chain'' @ hook_words"
| "cmd_words (AddChain c) = kw ''add'' ''chain'' @ [c]"
| "cmd_words (AddDropRule c v6 s) =
     kw ''add'' ''rule'' @ [c, if v6 then ''ip6'' else ''ip'', ''daddr'', CHR ''@'' # s, ''drop'']"
| "cmd_words (AddVmapRule es) = kw ''add'' ''rule'' @ vmap_head @ vmap_words es @ [''}'']"
| "cmd_words (AddElement s as) = kw ''add'' ''element'' @ [s, ''{''] @ commas as @ [''}'']"
| "cmd_words (DeleteElement s as) = kw ''delete'' ''element'' @ [s, ''{''] @ commas as @ [''}'']"

section \<open>Reading\<close>

fun uncomma :: "string list \<Rightarrow> string list option" where
  "uncomma [] = None"
| "uncomma [x] = Some [x]"
| "uncomma (x # y # r) =
     (if has_suffix x '','' then map_option ((#) (trim_suffix x '','')) (uncomma (y # r)) else None)"

fun parse_vmap :: "string list \<Rightarrow> (int \<times> string) list option" where
  "parse_vmap (u # c # j # n # r) =
     (case atoi u of
        None \<Rightarrow> None
      | Some i \<Rightarrow>
          if c \<noteq> '':'' \<or> j \<noteq> ''jump'' then None
          else if r = [] then Some [(i, n)]
          else if has_suffix n '','' then map_option ((#) (i, trim_suffix n '','')) (parse_vmap r)
          else None)"
| "parse_vmap _ = None"

definition parse_set :: "string list \<Rightarrow> nft_cmd option" where
  "parse_set r =
     (case r of
        [n, b, ty, t, e] \<Rightarrow>
          if b = ''{'' \<and> ty = ''type'' \<and> e = ''}'' then
            (if t = ''ipv4_addr;'' then Some (AddSet n False)
             else if t = ''ipv6_addr;'' then Some (AddSet n True)
             else None)
          else None
      | _ \<Rightarrow> None)"

definition parse_chain :: "string list \<Rightarrow> nft_cmd option" where
  "parse_chain r =
     (if r = hook_words then Some AddOutputChain
      else (case r of [c] \<Rightarrow> Some (AddChain c) | _ \<Rightarrow> None))"

definition parse_rule :: "string list \<Rightarrow> nft_cmd option" where
  "parse_rule r =
     (if take 5 r = vmap_head then
        (if last r = ''}'' then map_option AddVmapRule (parse_vmap (butlast (drop 5 r))) else None)
      else
        (case r of
           [c, f, d, s, x] \<Rightarrow>
             if d = ''daddr'' \<and> x = ''drop'' \<and> has_prefix s ''@'' then
               (if f = ''ip'' then Some (AddDropRule c False (tl s))
                else if f = ''ip6'' then Some (AddDropRule c True (tl s))
                else None)
             else None
         | _ \<Rightarrow> None))"

definition parse_element :: "string list \<Rightarrow> (string \<times> string list) option" where
  "parse_element r =
     (case r of
        s # b # es \<Rightarrow>
          if b = ''{'' \<and> es \<noteq> [] \<and> last es = ''}''
          then (case uncomma (butlast es) of None \<Rightarrow> None | Some as \<Rightarrow> Some (s, as))
          else None
      | _ \<Rightarrow> None)"

definition parse_words :: "string list \<Rightarrow> nft_cmd option" where
  "parse_words ws =
     (let h = take 4 ws; r = drop 4 ws in
      if h = kw ''add'' ''table'' then (if r = [] then Some AddTable else None)
      else if h = kw ''delete'' ''table'' then (if r = [] then Some DeleteTable else None)
      else if h = kw ''add'' ''set'' then parse_set r
      else if h = kw ''add'' ''chain'' then parse_chain r
      else if h = kw ''add'' ''rule'' then parse_rule r
      else if h = kw ''add'' ''element'' then map_option (\<lambda>(s, as). AddElement s as) (parse_element r)
      else if h = kw ''delete'' ''element'' then map_option (\<lambda>(s, as). DeleteElement s as) (parse_element r)
      else None)"

text \<open>A text of lines, each ended by a line end and read word by word\<close>

definition parse_lines :: "(string list \<Rightarrow> 'c option) \<Rightarrow> string \<Rightarrow> 'c list option" where
  "parse_lines f s =
     (let ls = split_on newline s in
      if last ls \<noteq> [] then None
      else those (map (\<lambda>l. f (split_on CHR '' '' l)) (butlast ls)))"

definition parse_script :: "string \<Rightarrow> nft_cmd list option" where
  "parse_script = parse_lines parse_words"

section \<open>Commands that can be read back\<close>

text \<open>Words without blanks and line ends, and element lists that are not empty\<close>

definition plain :: "string \<Rightarrow> bool" where
  "plain s \<longleftrightarrow> s \<noteq> [] \<and> CHR '' '' \<notin> set s \<and> newline \<notin> set s"

fun wf_cmd :: "nft_cmd \<Rightarrow> bool" where
  "wf_cmd (AddSet n v6) = plain n"
| "wf_cmd (AddChain c) = plain c"
| "wf_cmd (AddDropRule c v6 s) = (plain c \<and> plain s)"
| "wf_cmd (AddVmapRule es) = (es \<noteq> [] \<and> list_all (\<lambda>(u, c). go_int u \<and> plain c) es)"
| "wf_cmd (AddElement s as) = (plain s \<and> as \<noteq> [] \<and> list_all plain as)"
| "wf_cmd (DeleteElement s as) = (plain s \<and> as \<noteq> [] \<and> list_all plain as)"
| "wf_cmd _ = True"

lemma join_append:
  "xs \<noteq> [] \<Longrightarrow> ys \<noteq> [] \<Longrightarrow> join sep (xs @ ys) = join sep xs @ sep @ join sep ys"
proof (induction xs rule: induct_list012)
  case (2 x)
  then show ?case by (cases ys) auto
qed auto

lemma commas_join: "join '', '' as = join '' '' (commas as)"
proof (induction as rule: commas.induct)
  case (3 x y r)
  moreover have "commas (y # r) \<noteq> []" by (cases r) auto
  then obtain c cs where "commas (y # r) = c # cs" by (cases "commas (y # r)") auto
  ultimately show ?case by simp
qed auto

lemma vmap_words_join:
  "join '', '' (map (\<lambda>(u, c). itoa u @ '' : jump '' @ c) es) = join '' '' (vmap_words es)"
proof (induction es rule: vmap_words.induct)
  case (3 u c e r)
  obtain w ws where "vmap_words (e # r) = w # ws"
    by (cases e; cases r) auto
  with 3 show ?case by simp
qed auto

lemma commas_not_Nil: "as \<noteq> [] \<Longrightarrow> commas as \<noteq> []"
  by (cases as rule: commas.cases) auto

lemma vmap_words_not_Nil: "es \<noteq> [] \<Longrightarrow> vmap_words es \<noteq> []"
  by (cases es rule: vmap_words.cases) auto

lemma join_Cons: "ys \<noteq> [] \<Longrightarrow> join sep (x # ys) = x @ sep @ join sep ys"
  by (cases ys) auto

text \<open>Each line of the source is its words with one blank in between.\<close>

lemma cmd_text_words: "wf_cmd c \<Longrightarrow> cmd_text c = join '' '' (cmd_words c)"
proof (cases c)
  case (AddVmapRule es)
  assume "wf_cmd c"
  then show ?thesis using AddVmapRule
    by (simp add: vmap_words_join [simplified] kw_def vmap_head_def join_append join_Cons vmap_words_not_Nil)
qed (simp_all add: kw_def hook_words_def join_append join_Cons commas_join commas_not_Nil)

section \<open>Reading back one command\<close>

lemma uncomma_commas: "as \<noteq> [] \<Longrightarrow> uncomma (commas as) = Some as"
proof (induction as rule: commas.induct)
  case (3 x y r)
  obtain c cs where cs: "commas (y # r) = c # cs" by (cases "commas (y # r)") (auto simp: commas_not_Nil)
  have "has_suffix (x @ '','') '',''" by (auto simp: has_suffix_iff)
  then show ?case using 3 cs by simp
qed auto

lemma parse_vmap_words:
  "es \<noteq> [] \<Longrightarrow> list_all (\<lambda>(u, c). go_int u \<and> plain c) es \<Longrightarrow> parse_vmap (vmap_words es) = Some es"
proof (induction es rule: vmap_words.induct)
  case (2 u c)
  then show ?case by (simp add: atoi_itoa)
next
  case (3 u c e r)
  obtain w ws where w: "vmap_words (e # r) = w # ws" by (cases "vmap_words (e # r)") (auto simp: vmap_words_not_Nil)
  have "has_suffix (c @ '','') '',''" by (auto simp: has_suffix_iff)
  then show ?case using 3 w by (simp add: atoi_itoa)
qed auto

lemma parse_element_words: "as \<noteq> [] \<Longrightarrow> parse_element ([s, ''{''] @ commas as @ [''}'']) = Some (s, as)"
  by (simp add: parse_element_def uncomma_commas)

lemma parse_cmd_words: "wf_cmd c \<Longrightarrow> parse_words (cmd_words c) = Some c"
proof (cases c)
  case (AddVmapRule es)
  moreover assume "wf_cmd c"
  ultimately show ?thesis
    using parse_vmap_words [of es]
    by (simp add: parse_words_def kw_def parse_rule_def vmap_head_def)
next
  case (AddElement s as)
  moreover assume "wf_cmd c"
  ultimately show ?thesis
    using parse_element_words [of as s] by (simp add: parse_words_def kw_def)
next
  case (DeleteElement s as)
  moreover assume "wf_cmd c"
  ultimately show ?thesis
    using parse_element_words [of as s] by (simp add: parse_words_def kw_def)
qed (simp_all add: parse_words_def kw_def parse_set_def parse_chain_def parse_rule_def hook_words_def
    vmap_head_def)

section \<open>Reading back a script\<close>

lemma plain_itoa: "plain (itoa i)"
  using set_itoa [of i] by (auto simp: plain_def is_digit_def)

lemma commas_plain: "list_all plain as \<Longrightarrow> list_all plain (commas as)"
  by (induction as rule: commas.induct) (auto simp: plain_def)

lemma vmap_words_plain:
  "list_all (\<lambda>(u, c). go_int u \<and> plain c) es \<Longrightarrow> list_all plain (vmap_words es)"
  by (induction es rule: vmap_words.induct) (auto simp: plain_itoa, auto simp: plain_def)

lemma cmd_words_plain: "wf_cmd c \<Longrightarrow> list_all plain (cmd_words c)"
  by (cases c) (auto simp: kw_def hook_words_def vmap_head_def commas_plain vmap_words_plain, auto simp: plain_def)

lemma cmd_words_not_Nil: "cmd_words c \<noteq> []"
  by (cases c) (auto simp: kw_def)

lemma split_cmd_text: "wf_cmd c \<Longrightarrow> split_on CHR '' '' (cmd_text c) = cmd_words c"
  unfolding cmd_text_words
  by (rule split_join [OF cmd_words_not_Nil]) (use cmd_words_plain in \<open>auto simp: list_all_iff plain_def\<close>)

lemma cmd_text_one_line: "wf_cmd c \<Longrightarrow> newline \<notin> set (cmd_text c)"
  using set_join_subset [of "'' ''" "cmd_words c"] cmd_words_plain [of c]
  by (auto simp: cmd_text_words list_all_iff plain_def)

lemma split_lines:
  "(\<forall>l \<in> set ls. newline \<notin> set l) \<Longrightarrow> split_on newline (concat (map (\<lambda>l. l @ [newline]) ls)) = ls @ [[]]"
proof (induction ls)
  case (Cons l ls)
  then show ?case using split_on_append [of newline l] by simp
qed simp

lemma those_map_Some: "(\<And>x. x \<in> set xs \<Longrightarrow> f x = Some x) \<Longrightarrow> those (map f xs) = Some xs"
  by (induction xs) auto

lemma parse_lines_text:
  assumes "\<And>c. c \<in> set cs \<Longrightarrow> f (split_on CHR '' '' (t c)) = Some c \<and> newline \<notin> set (t c)"
  shows "parse_lines f (concat (map (\<lambda>c. t c @ [newline]) cs)) = Some cs"
proof -
  have "split_on newline (concat (map (\<lambda>c. t c @ [newline]) cs)) = map t cs @ [[]]"
    using split_lines [of "map t cs"] assms by (simp add: comp_def)
  then have "parse_lines f (concat (map (\<lambda>c. t c @ [newline]) cs)) = those (map (\<lambda>c. f (split_on CHR '' '' (t c))) cs)"
    by (simp add: parse_lines_def comp_def)
  also have "\<dots> = Some cs" by (rule those_map_Some) (simp add: assms)
  finally show ?thesis .
qed

theorem parse_script_text:
  assumes "list_all wf_cmd cs"
  shows "parse_script (script_text cs) = Some cs"
  unfolding parse_script_def script_text_def
  by (rule parse_lines_text)
    (use assms in \<open>auto simp: list_all_iff split_cmd_text parse_cmd_words cmd_text_one_line\<close>)

section \<open>Addresses are plain words\<close>

lemma addr_plain: "addr_text v6 a \<Longrightarrow> plain a"
  using addr_text_chars [of v6 a] by (auto simp: plain_def list_all_iff addr_char_def is_digit_def)

lemma addrs_plain: "list_all (addr_text v6) as \<Longrightarrow> list_all plain as"
  by (auto simp: list_all_iff addr_plain)

end
