(* ===== verification/Nft_Backend.thy ===== *)
theory Nft_Backend
  imports Nft_Text
begin

text \<open>
  \<open>nftBackend.Apply\<close> and \<open>Teardown\<close> against the documented behaviour of \<open>nft -f\<close>: every
  script the backend writes is well formed, the remembered state is the one in the kernel, a
  successful \<open>Apply\<close> enforces the state, a failed one leaves the ruleset alone and makes the
  next one a full rebuild. This interprets the whole contract \<open>whole_backend\<close>.
\<close>

section \<open>The scripts are well formed\<close>

lemma name_plain: "list_all (\<lambda>c. c \<noteq> CHR '' '' \<and> c \<noteq> newline) s \<Longrightarrow> s \<noteq> [] \<Longrightarrow> plain s"
  by (auto simp: plain_def list_all_iff)

lemma plain_names [simp]:
  "plain (global_set v)" "plain (uid_set v u)" "plain (uid_chain u)" "plain ''output''"
  using plain_itoa [of u] by (auto simp: plain_def global_set_def uid_set_def uid_chain_def)

lemma wf_write_elements: "list_all (addr_text v6) as \<Longrightarrow> plain n \<Longrightarrow> list_all wf_cmd (write_elements n as)"
  by (simp add: write_elements_def addrs_plain)

lemma kernel_uid_go: "kernel_uid u \<Longrightarrow> go_int u"
  by (simp add: kernel_uid_def go_int_def)

lemma set_specs_plain: "x \<in> set (set_specs st) \<Longrightarrow> plain (fst x)"
  by (auto simp: set_specs_def)

lemma wf_build_script_sets:
  assumes "wf_sets st" "\<forall>u \<in> set (sorted_uids (PerUser st)). go_int u"
  shows "list_all wf_cmd (build_script st)"
proof -
  have "list_all wf_cmd (populate_cmds x)" if "x \<in> set (set_specs st)" for x
    using that set_specs_texts(1) [OF assms(1), of "fst x" "fst (snd x)" "snd (snd x)"] wf_write_elements set_specs_plain
    by (simp add: populate_cmds_def)
  then have 1: "list_all wf_cmd (concat (map populate_cmds (set_specs st)))"
    by (rule list_all_concat_map)
  have 2: "list_all wf_cmd (map declare_cmd (set_specs st))"
    using set_specs_plain by (auto simp: list_all_iff declare_cmd_def)
  have 3: "list_all wf_cmd (concat (map chain_cmds us))" for us
    by (rule list_all_concat_map) (simp add: chain_cmds_def)
  have 4: "list_all (\<lambda>(u, c). go_int u \<and> plain c) (map (\<lambda>u. (u, uid_chain u)) (sorted_uids (PerUser st)))"
    using assms(2) by (auto simp: list_all_iff)
  show ?thesis unfolding build_script_phases using 1 2 3 4 by simp
qed

lemma wf_build_script: "wf_state st \<Longrightarrow> list_all wf_cmd (build_script st)"
  using wf_build_script_sets [OF wf_state_sets] wf_state_uids kernel_uid_go by blast

text \<open>A script with a uid outside the kernel's range cannot succeed.\<close>

lemma exec_script_stuck: "(\<And>x. exec_cmd c x = None) \<Longrightarrow> exec_script (cs @ c # ds) tb = None"
  by (simp add: exec_script_append split: option.split)

lemma exec_script_bad_uid:
  assumes "u \<in> set (sorted_uids (PerUser st))" "\<not> kernel_uid u"
  shows "exec_script (build_script st) tb = None"
proof -
  let ?us = "sorted_uids (PerUser st)"
  let ?vm = "AddVmapRule (map (\<lambda>u. (u, uid_chain u)) ?us)"
  have ne: "?us \<noteq> []" using assms(1) by force
  have bad: "exec_cmd ?vm x = None" for x
    using assms by (cases x) (auto simp: list_all_iff simp del: set_sorted_uids)
  have "build_script st = ([AddTable, DeleteTable, AddTable] @ map declare_cmd (set_specs st) @ [AddOutputChain]
      @ concat (map chain_cmds ?us)
      @ [AddDropRule ''output'' False (global_set False), AddDropRule ''output'' True (global_set True)])
      @ ?vm # concat (map populate_cmds (set_specs st))"
    unfolding build_script_phases by (simp only: ne if_False append.assoc append.simps)
  then show ?thesis by (simp only: exec_script_stuck [OF bad])
qed

lemma wf_element_delta:
  assumes "list_all (addr_text v6) prev" "list_all (addr_text v6) nxt" "plain n"
  shows "list_all wf_cmd (write_element_delta n prev nxt)"
proof -
  have "list_all plain (filter P prev)" "list_all plain (filter P nxt)" for P
    using assms addrs_plain by (auto simp: list_all_iff)
  then show ?thesis using assms(3) by (simp add: write_element_delta_def diff_strings_def)
qed

lemma wf_build_delta:
  assumes "wf_state prev" "wf_state nxt"
  shows "list_all wf_cmd (build_delta prev nxt)"
  unfolding build_delta_specs
proof (rule list_all_concat_map)
  fix x assume x: "x \<in> set (delta_specs prev nxt)"
  have "wf_ipset (GlobalSet prev)" "wf_ipset (GlobalSet nxt)"
    "wf_ipset (ipset_at (PerUser prev) u)" "wf_ipset (ipset_at (PerUser nxt) u)" for u
    using assms wf_ipset_at by (auto simp: wf_state_def)
  then have "list_all (addr_text (fst (snd x))) (fst (snd (snd x)))"
    "list_all (addr_text (fst (snd x))) (snd (snd (snd x)))" "plain (fst x)"
    using x by (auto simp: delta_specs_def wf_ipset_def)
  then show "list_all wf_cmd (delta_cmds x)"
    unfolding delta_cmds_def by (rule wf_element_delta)
qed

lemma script_text_Nil: "script_text cs = [] \<longleftrightarrow> cs = []"
  by (cases cs) (auto simp: script_text_def)

text \<open>The scripts that the backend can write; a uid from a file may lie outside the kernel's range.\<close>

definition nft_input :: "nft_cmd list \<Rightarrow> bool" where
  "nft_input cs \<longleftrightarrow>
     (\<exists>st. wf_sets st \<and> (\<forall>u \<in> set (sorted_uids (PerUser st)). go_int u) \<and> cs = build_script st) \<or>
     (\<exists>prev st. wf_state prev \<and> wf_state st \<and> same_uids (PerUser prev) (PerUser st) \<and> cs = build_delta prev st) \<or>
     cs = [AddTable, DeleteTable]"

lemma script_input: "wf_state st \<Longrightarrow> nft_input (build_script st)"
  using wf_state_sets wf_state_uids kernel_uid_go unfolding nft_input_def by blast

lemma nft_delta_input:
  "wf_state prev \<Longrightarrow> wf_state st \<Longrightarrow> same_uids (PerUser prev) (PerUser st) \<Longrightarrow> nft_input (build_delta prev st)"
  unfolding nft_input_def by blast

lemma nft_input_wf: "nft_input cs \<Longrightarrow> list_all wf_cmd cs"
  using wf_build_script_sets wf_build_delta by (auto simp: nft_input_def)

section \<open>The documented tool\<close>

text \<open>
  On the scripts of the backend, \<open>nft -f -\<close> runs its input as one transaction: when it exits successfully the ruleset has
  changed by all the commands, otherwise it has not changed. \<open>rules\<close> reads the table
  \<open>inet webblock\<close> off the kernel state.
\<close>

definition nft_doc :: "'k tool \<Rightarrow> ('k \<Rightarrow> nft_tbl option) \<Rightarrow> bool" where
  "nft_doc tool rules \<longleftrightarrow>
     (\<forall>cs k k' ok. nft_input cs \<and> run_nft tool (script_text cs) k = (k', ok) \<longrightarrow>
        (if ok then exec_script cs (rules k) = Some (rules k') else rules k' = rules k))"

text \<open>What the backend keeps: the remembered state is well formed and in the kernel.\<close>

definition nft_inv :: "('k \<Rightarrow> nft_tbl option) \<Rightarrow> 'k backend_state \<Rightarrow> bool" where
  "nft_inv rules b \<longleftrightarrow>
     (case fst b of None \<Rightarrow> True | Some st \<Rightarrow> wf_state st \<and> rules (snd b) = Some (table_of st))"

locale nft_kernel =
  fixes tool :: "'k tool" and rules :: "'k \<Rightarrow> nft_tbl option"
  assumes nft_documented: "nft_doc tool rules"
begin

lemma run_ok:
  "nft_input cs \<Longrightarrow> run_nft tool (script_text cs) k = (k', True) \<Longrightarrow> exec_script cs (rules k) = Some (rules k')"
  using nft_documented unfolding nft_doc_def by fastforce

lemma run_fail:
  "nft_input cs \<Longrightarrow> run_nft tool (script_text cs) k = (k', False) \<Longrightarrow> rules k' = rules k"
  using nft_documented unfolding nft_doc_def by fastforce

lemma full_cases:
  assumes "wf_state st" "nft_full tool k st = (b, r)"
  shows "(r = None \<and> fst b = Some st \<and> rules (snd b) = Some (table_of st)) \<or>
    (r = Some NftFailed \<and> fst b = None \<and> rules (snd b) = rules k)"
proof -
  obtain k' ok where run: "run_nft tool (script_text (build_script st)) k = (k', ok)"
    by (cases "run_nft tool (script_text (build_script st)) k") auto
  show ?thesis
  proof (cases ok)
    case True
    then have "exec_script (build_script st) (rules k) = Some (rules k')"
      using run run_ok script_input [OF assms(1)] by simp
    then show ?thesis using assms run True exec_build_script [OF assms(1)] by (auto simp: nft_full_def)
  next
    case False
    then have "rules k' = rules k" using run run_fail script_input [OF assms(1)] by simp
    then show ?thesis using assms(2) run False by (auto simp: nft_full_def)
  qed
qed

text \<open>With a uid outside the kernel's range every \<open>Apply\<close> fails.\<close>

lemma apply_bad_uid:
  assumes "nft_inv rules b" "wf_sets st" "\<forall>u \<in> fst ` set (PerUser st). go_int u" "distinct (map fst (PerUser st))"
    and "u \<in> fst ` set (PerUser st)" "\<not> kernel_uid u"
  shows "snd (nft_apply tool b st) = Some NftFailed"
proof -
  have wf: "nft_input (build_script st)"
    using assms(2,3) by (auto simp: nft_input_def)
  have full: "snd (nft_full tool k st) = Some NftFailed" for k
  proof -
    obtain k' ok where r: "run_nft tool (script_text (build_script st)) k = (k', ok)"
      by (cases "run_nft tool (script_text (build_script st)) k") auto
    have "exec_script (build_script st) (rules k) = None"
      by (rule exec_script_bad_uid [of u]) (use assms(5,6) in simp_all)
    then have "\<not> ok" using run_ok [OF wf] r by (cases ok) auto
    then show ?thesis using r by (simp add: nft_full_def)
  qed
  obtain applied k where b: "b = (applied, k)" by (cases b) auto
  show ?thesis
  proof (cases applied)
    case None
    then show ?thesis using full by (simp add: nft_apply_def b)
  next
    case (Some prev)
    then have "wf_state prev" using assms(1) by (simp add: nft_inv_def b)
    then have "distinct (map fst (PerUser prev))" "u \<notin> fst ` set (PerUser prev)"
      using assms(6) by (auto simp: wf_state_def)
    then have "\<not> same_uids (PerUser prev) (PerUser st)" using assms(4,5) by (auto simp: same_uids_iff)
    then show ?thesis using full Some by (simp add: nft_apply_def b)
  qed
qed

text \<open>The two outcomes of \<open>Apply\<close>\<close>

lemma apply_cases:
  assumes "nft_inv rules b" "wf_state st" "nft_apply tool b st = (b', r)"
  shows "(r = None \<and> fst b' = Some st \<and> rules (snd b') = Some (table_of st)) \<or>
    (r = Some NftFailed \<and> fst b' = None \<and> rules (snd b') = rules (snd b))"
proof -
  obtain applied k where b: "b = (applied, k)" by (cases b) auto
  show ?thesis
  proof (cases "\<exists>prev. applied = Some prev \<and> same_uids (PerUser prev) (PerUser st)")
    case False
    then have "nft_apply tool b st = nft_full tool k st"
      by (cases applied) (auto simp: nft_apply_def b)
    then show ?thesis using full_cases [OF assms(2)] assms(3) b by simp
  next
    case True
    then obtain prev where p: "applied = Some prev" "same_uids (PerUser prev) (PerUser st)" by blast
    have wp: "wf_state prev" and tp: "rules k = Some (table_of prev)"
      using assms(1) b p by (auto simp: nft_inv_def)
    have d: "exec_script (build_delta prev st) (rules k) = Some (Some (table_of st))"
      unfolding tp by (rule exec_build_delta [OF wp assms(2) p(2)])
    let ?d = "script_text (build_delta prev st)"
    show ?thesis
    proof (cases "?d = []")
      case empty: True
      then have "rules k = Some (table_of st)" using d by (simp add: script_text_Nil)
      then show ?thesis using assms(3) b p empty by (auto simp: nft_apply_def)
    next
      case ne: False
      obtain k' ok where run: "run_nft tool ?d k = (k', ok)" by (cases "run_nft tool ?d k") auto
      note wd = nft_delta_input [OF wp assms(2) p(2)]
      show ?thesis
      proof (cases ok)
        case True
        then have "rules k' = Some (table_of st)" using run_ok [OF wd] run d by simp
        then show ?thesis using assms(3) b p ne run True by (auto simp: nft_apply_def)
      next
        case False
        then have "rules k' = rules k" using run_fail [OF wd] run by simp
        then show ?thesis
          using full_cases [OF assms(2), of k'] assms(3) b p ne run False by (auto simp: nft_apply_def)
      qed
    qed
  qed
qed

lemma teardown_cases:
  assumes "nft_teardown tool b = (b', r)"
  shows "fst b' = None \<and> (r = None \<longrightarrow> rules (snd b') = None) \<and> (r \<noteq> None \<longrightarrow> rules (snd b') = rules (snd b))"
proof -
  let ?cs = "[AddTable, DeleteTable]"
  obtain k' ok where run: "run_nft tool (script_text ?cs) (snd b) = (k', ok)"
    by (cases "run_nft tool (script_text ?cs) (snd b)") auto
  have wf: "nft_input ?cs" by (simp add: nft_input_def)
  have ex: "exec_script ?cs (rules (snd b)) = Some None" by (cases "rules (snd b)") simp_all
  show ?thesis
    using run_ok [OF wf] run_fail [OF wf] run ex assms
    by (cases ok) (auto simp: nft_teardown_def)
qed

end

text \<open>All that the interface documents\<close>

sublocale nft_kernel \<subseteq> nft: whole_backend "nft_apply tool" "\<lambda>b. nft_verdict (rules (snd b))" "nft_inv rules" "nft_teardown tool"
proof unfold_locales
  fix b st b' r
  assume "nft_inv rules b" "wf_state st" "nft_apply tool b st = (b', r)"
  from apply_cases [OF this] \<open>wf_state st\<close> show "nft_inv rules b'"
    by (auto simp: nft_inv_def)
next
  fix b st b' p
  assume "nft_inv rules b" "wf_state st" "nft_apply tool b st = (b', None)"
  from apply_cases [OF this] \<open>wf_state st\<close> show "nft_verdict (rules (snd b')) p = blocked st p"
    by (auto simp: table_of_verdict)
next
  fix b st b' e p
  assume "nft_inv rules b" "wf_state st" "nft_apply tool b st = (b', Some e)"
  from apply_cases [OF this] show "nft_verdict (rules (snd b')) p = nft_verdict (rules (snd b)) p" by auto
next
  fix b b' r
  assume "nft_teardown tool b = (b', r)"
  from teardown_cases [OF this] show "nft_inv rules b'" by (simp add: nft_inv_def)
next
  fix b b' p
  assume "nft_teardown tool b = (b', None)"
  from teardown_cases [OF this] show "\<not> nft_verdict (rules (snd b')) p" by (simp add: nft_verdict_def)
qed

section \<open>A reference tool\<close>

text \<open>
  The tool that reads its input back and runs it on the table; \<open>broken\<close> says on which inputs
  it fails for reasons of its own (no permission, a missing kernel module).
\<close>

definition nft_reference :: "(string \<Rightarrow> bool) \<Rightarrow> nft_tbl option tool" where
  "nft_reference broken prog args stdin tb =
     (if prog \<noteq> ''nft'' \<or> args \<noteq> [''-f'', ''-''] \<or> broken stdin then (tb, False)
      else (case parse_script stdin of
              None \<Rightarrow> (tb, False)
            | Some cs \<Rightarrow> (case exec_script cs tb of None \<Rightarrow> (tb, False) | Some tb' \<Rightarrow> (tb', True))))"

lemma nft_reference_doc: "nft_doc (nft_reference broken) (\<lambda>tb. tb)"
  by (auto simp: nft_doc_def run_nft_def nft_reference_def parse_script_text nft_input_wf split: if_splits option.splits)

interpretation nft_ref: nft_kernel "nft_reference broken" "\<lambda>tb. tb" for broken
  by unfold_locales (rule nft_reference_doc)

end
