(* ===== verification/Iptables.thy ===== *)
theory Iptables
  imports Nft_Text
begin

text \<open>
  \<open>internal/backend/iptables.go\<close>: the fallback backend. Addresses live in ipsets, a chain
  \<open>WEBBLOCK\<close> per family matches on them, and \<open>OUTPUT\<close> jumps to the chain. This theory holds
  the payloads with their text, \<open>Apply\<close> with its two paths, \<open>Teardown\<close>, and the documented
  effect of the commands. Unlike \<open>nft -f\<close>, \<open>ipset restore\<close> runs its lines one by one and stops
  at the first that fails, so a failed \<open>Apply\<close> may have changed the kernel.
\<close>

section \<open>Families and names\<close>

record family =
  cmd :: string
  restore :: string
  ipset_f :: string
  suffix :: string

definition family4 :: family where
  "family4 = \<lparr>cmd = ''iptables'', restore = ''iptables-restore'', ipset_f = ''inet'', suffix = ''4''\<rparr>"

definition family6 :: family where
  "family6 = \<lparr>cmd = ''ip6tables'', restore = ''ip6tables-restore'', ipset_f = ''inet6'', suffix = ''6''\<rparr>"

definition ip_chain :: string where
  "ip_chain = ''WEBBLOCK''"

definition set_prefix :: string where
  "set_prefix = ''webblk_''"

definition uid_token :: "int \<Rightarrow> string" where
  "uid_token uid = ''u'' @ itoa uid"

definition set_name :: "family \<Rightarrow> string \<Rightarrow> string" where
  "set_name f token = set_prefix @ token @ ''_'' @ suffix f"

section \<open>Payloads of \<open>ipset restore\<close>\<close>

datatype ipset_cmd =
    CreateSet string string
  | FlushSet string
  | AddEntry string string
  | DelEntry string string
  | SwapSets string string
  | DestroySet string

fun ipset_text :: "ipset_cmd \<Rightarrow> string" where
  "ipset_text (CreateSet n f) = ''create '' @ n @ '' hash:ip family '' @ f @ '' -exist''"
| "ipset_text (FlushSet n) = ''flush '' @ n"
| "ipset_text (AddEntry n a) = ''add '' @ n @ '' '' @ a"
| "ipset_text (DelEntry n a) = ''del '' @ n @ '' '' @ a"
| "ipset_text (SwapSets n m) = ''swap '' @ n @ '' '' @ m"
| "ipset_text (DestroySet n) = ''destroy '' @ n"

definition ipset_payload :: "ipset_cmd list \<Rightarrow> string" where
  "ipset_payload cs = concat (map (\<lambda>c. ipset_text c @ [newline]) cs)"

definition tmp_name :: "string \<Rightarrow> string" where
  "tmp_name n = n @ ''_t''"

definition write_set_refresh :: "family \<Rightarrow> string \<Rightarrow> string list \<Rightarrow> ipset_cmd list" where
  "write_set_refresh f token addrs =
     (let n = set_name f token; tmp = tmp_name n in
        [CreateSet n (ipset_f f), CreateSet tmp (ipset_f f), FlushSet tmp]
      @ map (AddEntry tmp) addrs
      @ [SwapSets n tmp, DestroySet tmp])"

definition refresh_all_sets :: "fw_state \<Rightarrow> int list \<Rightarrow> ipset_cmd list" where
  "refresh_all_sets st uids =
     write_set_refresh family4 ''g'' (V4 (GlobalSet st))
   @ write_set_refresh family6 ''g'' (V6 (GlobalSet st))
   @ concat (map (\<lambda>uid. write_set_refresh family4 (uid_token uid) (V4 (ipset_at (PerUser st) uid))
                      @ write_set_refresh family6 (uid_token uid) (V6 (ipset_at (PerUser st) uid))) uids)"

definition write_set_elem_delta :: "family \<Rightarrow> string \<Rightarrow> string list \<Rightarrow> string list \<Rightarrow> ipset_cmd list" where
  "write_set_elem_delta f token prev next =
     (let n = set_name f token in
      case diff_strings prev next of
        (added, removed) \<Rightarrow> map (AddEntry n) added @ map (DelEntry n) removed)"

definition build_set_delta :: "fw_state \<Rightarrow> fw_state \<Rightarrow> int list \<Rightarrow> ipset_cmd list" where
  "build_set_delta prev next uids =
     write_set_elem_delta family4 ''g'' (V4 (GlobalSet prev)) (V4 (GlobalSet next))
   @ write_set_elem_delta family6 ''g'' (V6 (GlobalSet prev)) (V6 (GlobalSet next))
   @ concat (map (\<lambda>uid.
        let p = ipset_at (PerUser prev) uid; n = ipset_at (PerUser next) uid in
          write_set_elem_delta family4 (uid_token uid) (V4 p) (V4 n)
        @ write_set_elem_delta family6 (uid_token uid) (V6 p) (V6 n)) uids)"

section \<open>Payloads of \<open>iptables-restore\<close>\<close>

text \<open>The lines between \<open>*filter\<close> and \<open>COMMIT\<close>, all about the chain \<open>WEBBLOCK\<close>\<close>

datatype chain_line =
    DeclareChain
  | FlushChain
  | AppendSet string
  | AppendOwner int string

fun chain_text :: "chain_line \<Rightarrow> string" where
  "chain_text DeclareChain = '':'' @ ip_chain @ '' - [0:0]''"
| "chain_text FlushChain = ''-F '' @ ip_chain"
| "chain_text (AppendSet s) = ''-A '' @ ip_chain @ '' -m set --match-set '' @ s @ '' dst -j DROP''"
| "chain_text (AppendOwner u s) =
     ''-A '' @ ip_chain @ '' -m owner --uid-owner '' @ itoa u @ '' -m set --match-set '' @ s @ '' dst -j DROP''"

definition chain_payload :: "chain_line list \<Rightarrow> string" where
  "chain_payload ls =
     concat (map (\<lambda>l. l @ [newline]) (''*filter'' # map chain_text ls @ [''COMMIT'']))"

definition chain_lines :: "family \<Rightarrow> int list \<Rightarrow> chain_line list" where
  "chain_lines f uids =
     [DeclareChain, FlushChain, AppendSet (set_name f ''g'')]
   @ map (\<lambda>uid. AppendOwner uid (set_name f (uid_token uid))) uids"

section \<open>Apply and Teardown\<close>

definition refresh_run :: "'k tool \<Rightarrow> fw_state \<Rightarrow> int list \<Rightarrow> 'k \<Rightarrow> 'k \<times> backend_error option" where
  "refresh_run tool st uids k =
     (case tool ''ipset'' [''restore''] (ipset_payload (refresh_all_sets st uids)) k of
        (k', True) \<Rightarrow> (k', None)
      | (k', False) \<Rightarrow> (k', Some IpsetFailed))"

definition rebuild_chain :: "'k tool \<Rightarrow> family \<Rightarrow> int list \<Rightarrow> 'k \<Rightarrow> 'k \<times> backend_error option" where
  "rebuild_chain tool f uids k =
     (case tool (restore f) [''--noflush''] (chain_payload (chain_lines f uids)) k of
        (k1, False) \<Rightarrow> (k1, Some IptablesFailed)
      | (k1, True) \<Rightarrow>
          (case tool (cmd f) [''-C'', ''OUTPUT'', ''-j'', ip_chain] [] k1 of
             (k2, True) \<Rightarrow> (k2, None)
           | (k2, False) \<Rightarrow>
               (case tool (cmd f) [''-I'', ''OUTPUT'', ''1'', ''-j'', ip_chain] [] k2 of
                  (k3, True) \<Rightarrow> (k3, None)
                | (k3, False) \<Rightarrow> (k3, Some IptablesFailed))))"

text \<open>A loop over families that returns at the first error\<close>

fun each_family :: "('k \<Rightarrow> 'k \<times> backend_error option) list \<Rightarrow> 'k \<Rightarrow> 'k \<times> backend_error option" where
  "each_family [] k = (k, None)"
| "each_family (g # gs) k =
     (case g k of (k', Some e) \<Rightarrow> (k', Some e) | (k', None) \<Rightarrow> each_family gs k')"

definition full_apply :: "'k tool \<Rightarrow> fw_state \<Rightarrow> int list \<Rightarrow> 'k \<Rightarrow> 'k \<times> backend_error option" where
  "full_apply tool st uids k =
     (case refresh_run tool st uids k of
        (k', Some e) \<Rightarrow> (k', Some e)
      | (k', None) \<Rightarrow> each_family (map (\<lambda>f. rebuild_chain tool f uids) [family4, family6]) k')"

definition ipt_name :: string where
  "ipt_name = ''iptables+ipset''"

text \<open>What follows a full apply on either path: remember the state, or forget it\<close>

definition ipt_full :: "'k tool \<Rightarrow> 'k \<Rightarrow> fw_state \<Rightarrow> int list \<Rightarrow> 'k backend_state \<times> backend_error option" where
  "ipt_full tool k st uids =
     (case full_apply tool st uids k of
        (k', Some e) \<Rightarrow> ((None, k'), Some e)
      | (k', None) \<Rightarrow> ((Some (clone_state st), k'), None))"

definition ipt_apply ::
    "'k tool \<Rightarrow> 'k backend_state \<Rightarrow> fw_state \<Rightarrow> 'k backend_state \<times> backend_error option" where
  "ipt_apply tool b st =
     (let uids = sorted_uids (PerUser st) in
      case b of
        (None, k) \<Rightarrow> ipt_full tool k st uids
      | (Some prev, k) \<Rightarrow>
          if \<not> same_uids (PerUser prev) (PerUser st) then ipt_full tool k st uids
          else
            let delta = ipset_payload (build_set_delta prev st uids) in
            if delta \<noteq> [] then
              (case tool ''ipset'' [''restore'', ''-exist''] delta k of
                 (k', True) \<Rightarrow> ((Some (clone_state st), k'), None)
               | (k', False) \<Rightarrow> ipt_full tool k' st uids)
            else ((Some (clone_state st), k), None))"

text \<open>\<open>ipset list -n\<close>: \<open>list_out\<close> is what the command prints, \<open>None\<close> when it fails\<close>

definition list_ipsets :: "('k \<Rightarrow> string option) \<Rightarrow> 'k \<Rightarrow> string list option" where
  "list_ipsets list_out k =
     (case list_out k of
        None \<Rightarrow> None
      | Some out \<Rightarrow> Some (filter (\<lambda>l. l \<noteq> []) (map trim_space (split_on newline out))))"

definition drop_chain :: "'k tool \<Rightarrow> family \<Rightarrow> 'k \<Rightarrow> 'k" where
  "drop_chain tool f k =
     (let k1 = fst (tool (cmd f) [''-D'', ''OUTPUT'', ''-j'', ip_chain] [] k);
          k2 = fst (tool (cmd f) [''-F'', ip_chain] [] k1)
      in fst (tool (cmd f) [''-X'', ip_chain] [] k2))"

fun destroy_sets :: "'k tool \<Rightarrow> string list \<Rightarrow> 'k \<Rightarrow> 'k" where
  "destroy_sets tool [] k = k"
| "destroy_sets tool (n # ns) k =
     destroy_sets tool ns (if has_prefix n set_prefix then fst (tool ''ipset'' [''destroy'', n] [] k) else k)"

definition ipt_teardown ::
    "'k tool \<Rightarrow> ('k \<Rightarrow> string option) \<Rightarrow> 'k backend_state \<Rightarrow> 'k backend_state \<times> backend_error option" where
  "ipt_teardown tool list_out b =
     (let k = drop_chain tool family6 (drop_chain tool family4 (snd b)) in
      case list_ipsets list_out k of
        None \<Rightarrow> ((None, k), Some IpsetListFailed)
      | Some names \<Rightarrow> ((None, destroy_sets tool names k), None))"

section \<open>The documented effect of the commands\<close>

text \<open>
  What the tools act on: the ipsets by name (what they were created with, and the entries), and for each
  family the rules of \<open>WEBBLOCK\<close> if the chain exists and how often \<open>OUTPUT\<close> jumps to it.
\<close>

datatype ipt_rule = SetDrop string | OwnerDrop int string

fun rule_set :: "ipt_rule \<Rightarrow> string" where
  "rule_set (SetDrop s) = s"
| "rule_set (OwnerDrop u s) = s"

text \<open>
  What a \<open>hash:ip\<close> set was created with: whether its family is \<open>inet6\<close>, and how many entries it can hold.
  The latter is 65536 unless \<open>maxelem\<close> says otherwise (\<open>ipset(8)\<close>), and the source never gives it.
\<close>

type_synonym set_kind = "bool \<times> nat"

definition default_kind :: "bool \<Rightarrow> set_kind" where
  "default_kind v6 = (v6, 65536)"

record ipt_view =
  ipsets :: "string \<Rightarrow> (set_kind \<times> string set) option"
  chain :: "bool \<Rightarrow> ipt_rule list option"
  jumps :: "bool \<Rightarrow> nat"

definition in_use :: "ipt_view \<Rightarrow> string \<Rightarrow> bool" where
  "in_use w n \<longleftrightarrow>
     (case chain w False of None \<Rightarrow> False | Some rs \<Rightarrow> n \<in> rule_set ` set rs) \<or>
     (case chain w True of None \<Rightarrow> False | Some rs \<Rightarrow> n \<in> rule_set ` set rs)"

text \<open>
  Limits that \<open>ipset(8)\<close> states beside the number of entries: names have at most 31 bytes, and a
  \<open>hash:ip\<close> set cannot store the zero address.
\<close>

definition storable :: "bool \<Rightarrow> string \<Rightarrow> bool" where
  "storable v6 a \<longleftrightarrow> addr_text v6 a \<and> a \<noteq> ''0.0.0.0'' \<and> a \<noteq> ''::''"

definition put_set :: "string \<Rightarrow> set_kind \<times> string set \<Rightarrow> ipt_view \<Rightarrow> ipt_view" where
  "put_set n s w = w\<lparr>ipsets := (ipsets w)(n \<mapsto> s)\<rparr>"

text \<open>
  One line of \<open>ipset restore\<close>; \<open>ex\<close> is the option \<open>-exist\<close>, which ignores adding an entry that is
  there and deleting one that is not. Creating a set that is there is an error, unless it was created
  with the same parameters and \<open>-exist\<close> is given, as the source does; a full set takes no further entry.
\<close>

fun exec_set :: "bool \<Rightarrow> ipset_cmd \<Rightarrow> ipt_view \<Rightarrow> ipt_view option" where
  "exec_set ex (CreateSet n f) w =
     (if f \<noteq> ''inet'' \<and> f \<noteq> ''inet6'' \<or> 31 < length n then None
      else (case ipsets w n of
              None \<Rightarrow> Some (put_set n (default_kind (f = ''inet6''), {}) w)
            | Some (v, _) \<Rightarrow> if v = default_kind (f = ''inet6'') then Some w else None))"
| "exec_set ex (FlushSet n) w =
     (case ipsets w n of None \<Rightarrow> None | Some (v, _) \<Rightarrow> Some (put_set n (v, {}) w))"
| "exec_set ex (AddEntry n a) w =
     (case ipsets w n of
        None \<Rightarrow> None
      | Some (v, es) \<Rightarrow>
          if storable (fst v) a \<and> (ex \<or> a \<notin> es) \<and> (a \<in> es \<or> card es < snd v) then Some (put_set n (v, insert a es) w) else None)"
| "exec_set ex (DelEntry n a) w =
     (case ipsets w n of
        None \<Rightarrow> None
      | Some (v, es) \<Rightarrow> if ex \<or> a \<in> es then Some (put_set n (v, es - {a}) w) else None)"
| "exec_set ex (SwapSets n m) w =
     (case (ipsets w n, ipsets w m) of
        (Some (v, es), Some (v', es')) \<Rightarrow>
          if fst v = fst v' then Some (put_set m (v, es) (put_set n (v', es') w)) else None
      | _ \<Rightarrow> None)"
| "exec_set ex (DestroySet n) w =
     (case ipsets w n of
        None \<Rightarrow> None
      | Some _ \<Rightarrow> if in_use w n then None else Some (w\<lparr>ipsets := (ipsets w)(n := None)\<rparr>))"

fun exec_sets :: "bool \<Rightarrow> ipset_cmd list \<Rightarrow> ipt_view \<Rightarrow> ipt_view option" where
  "exec_sets ex [] w = Some w"
| "exec_sets ex (c # cs) w = (case exec_set ex c w of None \<Rightarrow> None | Some w' \<Rightarrow> exec_sets ex cs w')"

text \<open>One line of \<open>iptables-restore --noflush\<close> on the chain; declaring a chain empties it\<close>

definition append_rule :: "ipt_view \<Rightarrow> ipt_rule \<Rightarrow> ipt_rule list option \<Rightarrow> ipt_rule list option option" where
  "append_rule w r c =
     (case c of
        None \<Rightarrow> None
      | Some rs \<Rightarrow> if ipsets w (rule_set r) = None then None else Some (Some (rs @ [r])))"

fun exec_line :: "ipt_view \<Rightarrow> chain_line \<Rightarrow> ipt_rule list option \<Rightarrow> ipt_rule list option option" where
  "exec_line w DeclareChain c = Some (Some [])"
| "exec_line w FlushChain c = (case c of None \<Rightarrow> None | Some _ \<Rightarrow> Some (Some []))"
| "exec_line w (AppendSet s) c = append_rule w (SetDrop s) c"
| "exec_line w (AppendOwner u s) c = (if kernel_uid u then append_rule w (OwnerDrop u s) c else None)"

fun exec_lines :: "ipt_view \<Rightarrow> chain_line list \<Rightarrow> ipt_rule list option \<Rightarrow> ipt_rule list option option" where
  "exec_lines w [] c = Some c"
| "exec_lines w (l # ls) c = (case exec_line w l c of None \<Rightarrow> None | Some c' \<Rightarrow> exec_lines w ls c')"

text \<open>
  An outgoing packet goes through the chain of its family if \<open>OUTPUT\<close> jumps there. Rules of
  others in \<open>OUTPUT\<close> are not modelled.
\<close>

fun rule_drops :: "ipt_view \<Rightarrow> packet \<Rightarrow> ipt_rule \<Rightarrow> bool" where
  "rule_drops w p (SetDrop s) =
     (case ipsets w s of None \<Rightarrow> False | Some (v, es) \<Rightarrow> fst v = is_v6 p \<and> daddr p \<in> es)"
| "rule_drops w p (OwnerDrop u s) =
     (u = skuid p \<and> (case ipsets w s of None \<Rightarrow> False | Some (v, es) \<Rightarrow> fst v = is_v6 p \<and> daddr p \<in> es))"

definition ipt_verdict :: "ipt_view \<Rightarrow> packet \<Rightarrow> bool" where
  "ipt_verdict w p \<longleftrightarrow>
     0 < jumps w (is_v6 p) \<and>
     (case chain w (is_v6 p) of None \<Rightarrow> False | Some rs \<Rightarrow> list_ex (rule_drops w p) rs)"

end
