(* ===== verification/Iptables_Text.thy ===== *)
theory Iptables_Text
  imports Iptables
begin

text \<open>
  The payloads of the iptables backend can be read back: readers for the lines fed to
  \<open>ipset restore\<close> and \<open>iptables-restore\<close>, and the theorems that they undo the text. The
  readers give the reference tool that interprets the locale of the next theory.
\<close>

section \<open>\<open>ipset restore\<close>\<close>

fun ipset_words :: "ipset_cmd \<Rightarrow> string list" where
  "ipset_words (CreateSet n f) = [''create'', n, ''hash:ip'', ''family'', f, ''-exist'']"
| "ipset_words (FlushSet n) = [''flush'', n]"
| "ipset_words (AddEntry n a) = [''add'', n, a]"
| "ipset_words (DelEntry n a) = [''del'', n, a]"
| "ipset_words (SwapSets n m) = [''swap'', n, m]"
| "ipset_words (DestroySet n) = [''destroy'', n]"

definition parse_ipset :: "string list \<Rightarrow> ipset_cmd option" where
  "parse_ipset ws =
     (case ws of
        [a, n] \<Rightarrow>
          if a = ''flush'' then Some (FlushSet n)
          else if a = ''destroy'' then Some (DestroySet n)
          else None
      | [a, n, x] \<Rightarrow>
          if a = ''add'' then Some (AddEntry n x)
          else if a = ''del'' then Some (DelEntry n x)
          else if a = ''swap'' then Some (SwapSets n x)
          else None
      | [a, n, h, f, t, e] \<Rightarrow>
          if a = ''create'' \<and> h = ''hash:ip'' \<and> f = ''family'' \<and> e = ''-exist'' then Some (CreateSet n t) else None
      | _ \<Rightarrow> None)"

fun wf_ipset_cmd :: "ipset_cmd \<Rightarrow> bool" where
  "wf_ipset_cmd (CreateSet n f) = (plain n \<and> plain f)"
| "wf_ipset_cmd (FlushSet n) = plain n"
| "wf_ipset_cmd (AddEntry n a) = (plain n \<and> plain a)"
| "wf_ipset_cmd (DelEntry n a) = (plain n \<and> plain a)"
| "wf_ipset_cmd (SwapSets n m) = (plain n \<and> plain m)"
| "wf_ipset_cmd (DestroySet n) = plain n"

lemma ipset_text_words: "ipset_text c = join '' '' (ipset_words c)"
  by (cases c) simp_all

lemma parse_ipset_words: "parse_ipset (ipset_words c) = Some c"
  by (cases c) (simp_all add: parse_ipset_def)

lemma plain_literals [simp]:
  "plain ''create''" "plain ''hash:ip''" "plain ''family''" "plain ''-exist''" "plain ''flush''"
  "plain ''add''" "plain ''del''" "plain ''swap''" "plain ''destroy''"
  by (simp_all add: plain_def)

lemma ipset_words_plain: "wf_ipset_cmd c \<Longrightarrow> list_all plain (ipset_words c)"
  by (cases c) simp_all

text \<open>Plain words with one blank in between split back, and make one line.\<close>

lemma split_plain: "ws \<noteq> [] \<Longrightarrow> list_all plain ws \<Longrightarrow> split_on CHR '' '' (join '' '' ws) = ws"
  by (rule split_join) (auto simp: list_all_iff plain_def)

lemma join_one_line: "list_all plain ws \<Longrightarrow> newline \<notin> set (join '' '' ws)"
  using set_join_subset [of "'' ''" ws] by (auto simp: list_all_iff plain_def)

theorem parse_ipset_payload:
  assumes "list_all wf_ipset_cmd cs"
  shows "parse_lines parse_ipset (ipset_payload cs) = Some cs"
  unfolding ipset_payload_def
proof (rule parse_lines_text)
  fix c assume "c \<in> set cs"
  then have w: "list_all plain (ipset_words c)" by (intro ipset_words_plain) (use assms in \<open>auto simp: list_all_iff\<close>)
  have "ipset_words c \<noteq> []" by (cases c) simp_all
  then show "parse_ipset (split_on CHR '' '' (ipset_text c)) = Some c \<and> newline \<notin> set (ipset_text c)"
    using w split_plain join_one_line by (simp add: ipset_text_words parse_ipset_words)
qed

section \<open>\<open>iptables-restore\<close>\<close>

fun chain_words :: "chain_line \<Rightarrow> string list" where
  "chain_words DeclareChain = ['':WEBBLOCK'', ''-'', ''[0:0]'']"
| "chain_words FlushChain = [''-F'', ''WEBBLOCK'']"
| "chain_words (AppendSet s) =
     [''-A'', ''WEBBLOCK'', ''-m'', ''set'', ''--match-set'', s, ''dst'', ''-j'', ''DROP'']"
| "chain_words (AppendOwner u s) =
     [''-A'', ''WEBBLOCK'', ''-m'', ''owner'', ''--uid-owner'', itoa u,
      ''-m'', ''set'', ''--match-set'', s, ''dst'', ''-j'', ''DROP'']"

definition parse_chain_line :: "string list \<Rightarrow> chain_line option" where
  "parse_chain_line ws =
     (if ws = ['':WEBBLOCK'', ''-'', ''[0:0]''] then Some DeclareChain
      else if ws = [''-F'', ''WEBBLOCK''] then Some FlushChain
      else if length ws = 9 then
        (if ws = chain_words (AppendSet (ws ! 5)) then Some (AppendSet (ws ! 5)) else None)
      else if length ws = 13 then
        (case atoi (ws ! 5) of
           None \<Rightarrow> None
         | Some u \<Rightarrow> if ws = chain_words (AppendOwner u (ws ! 9)) then Some (AppendOwner u (ws ! 9)) else None)
      else None)"

definition parse_chain_payload :: "string \<Rightarrow> chain_line list option" where
  "parse_chain_payload s =
     (let ls = split_on newline s; n = length ls in
      if 3 \<le> n \<and> hd ls = ''*filter'' \<and> drop (n - 2) ls = [''COMMIT'', []]
      then those (map (\<lambda>l. parse_chain_line (split_on CHR '' '' l)) (take (n - 3) (tl ls)))
      else None)"

fun wf_line :: "chain_line \<Rightarrow> bool" where
  "wf_line (AppendSet s) = plain s"
| "wf_line (AppendOwner u s) = (go_int u \<and> plain s)"
| "wf_line _ = True"

lemma chain_text_words: "chain_text l = join '' '' (chain_words l)"
  by (cases l) (simp_all add: ip_chain_def)

lemma parse_chain_words: "wf_line l \<Longrightarrow> parse_chain_line (chain_words l) = Some l"
  by (cases l) (simp_all add: parse_chain_line_def atoi_itoa)

lemma chain_words_plain: "wf_line l \<Longrightarrow> list_all plain (chain_words l)"
  by (cases l) (simp_all add: plain_itoa, simp_all add: plain_def)

theorem parse_chain_text:
  assumes "list_all wf_line ls"
  shows "parse_chain_payload (chain_payload ls) = Some ls"
proof -
  have line: "parse_chain_line (split_on CHR '' '' (chain_text l)) = Some l \<and> newline \<notin> set (chain_text l)"
    if "l \<in> set ls" for l
  proof -
    have w: "list_all plain (chain_words l)" "wf_line l"
      using assms that chain_words_plain by (auto simp: list_all_iff)
    have "chain_words l \<noteq> []" by (cases l) simp_all
    then show ?thesis using w split_plain join_one_line by (simp add: chain_text_words parse_chain_words)
  qed
  have one: "\<forall>l \<in> set (''*filter'' # map chain_text ls @ [''COMMIT'']). newline \<notin> set l"
    using line by auto
  have "split_on newline (chain_payload ls) = ''*filter'' # map chain_text ls @ [''COMMIT'', []]"
    using split_lines [OF one] by (simp add: chain_payload_def)
  moreover have "those (map (\<lambda>l. parse_chain_line (split_on CHR '' '' l)) (map chain_text ls)) = Some ls"
    unfolding map_map comp_def by (rule those_map_Some) (simp add: line)
  ultimately show ?thesis by (simp add: parse_chain_payload_def)
qed

end
