(* ===== verification/Iptables_Sets.thy ===== *)
theory Iptables_Sets
  imports Iptables
begin

text \<open>
  What the payloads of the iptables backend do when they run: a refresh block replaces one set
  by a swap, so after any prefix of the whole refresh every live set holds its old or its new
  addresses; an incremental payload turns the sets of one state into those of another; the
  chain payload gives the chain of the state; and a kernel with these sets and chains treats
  packets as the state asks.
\<close>

section \<open>Names\<close>

lemma set_name_simps [simp]:
  "set_name family4 t = set_name family4 t' \<longleftrightarrow> t = t'"
  "set_name family6 t = set_name family6 t' \<longleftrightarrow> t = t'"
  "set_name family4 t \<noteq> set_name family6 t'" "set_name family6 t' \<noteq> set_name family4 t"
  "uid_token u = uid_token v \<longleftrightarrow> u = v" "uid_token u \<noteq> ''g''" "''g'' \<noteq> uid_token u"
  by (auto simp: set_name_def family4_def family6_def uid_token_def)

lemma last_set_name: "last (set_name family4 t) = CHR ''4''" "last (set_name family6 t) = CHR ''6''"
  by (simp_all add: set_name_def family4_def family6_def)

lemma tmp_name_inj [simp]: "tmp_name n = tmp_name m \<longleftrightarrow> n = m"
  by (simp add: tmp_name_def)

lemma last_tmp: "last (tmp_name n) = CHR ''t''"
  by (simp add: tmp_name_def)

lemma tmp_not_live [simp]:
  "tmp_name n \<noteq> set_name family4 t" "tmp_name n \<noteq> set_name family6 t"
  "set_name family4 t \<noteq> tmp_name n" "set_name family6 t \<noteq> tmp_name n"
  using last_tmp [of n] last_set_name [of t] by auto

lemma tmp_not_self [simp]: "tmp_name n \<noteq> n" "n \<noteq> tmp_name n"
  by (simp_all add: tmp_name_def)

lemma family_names: "ipset_f family4 = ''inet''" "ipset_f family6 = ''inet6''"
  by (simp_all add: family4_def family6_def)

section \<open>The sets of a state\<close>

definition ipt_specs :: "fw_state \<Rightarrow> (string \<times> bool \<times> string list) list" where
  "ipt_specs st =
     [(set_name family4 ''g'', False, V4 (GlobalSet st)), (set_name family6 ''g'', True, V6 (GlobalSet st))]
   @ concat (map (\<lambda>u. [(set_name family4 (uid_token u), False, V4 (ipset_at (PerUser st) u)),
                       (set_name family6 (uid_token u), True, V6 (ipset_at (PerUser st) u))])
        (sorted_uids (PerUser st)))"

definition family_text :: "bool \<Rightarrow> string" where
  "family_text v6 = (if v6 then ''inet6'' else ''inet'')"

definition refresh_block :: "string \<times> bool \<times> string list \<Rightarrow> ipset_cmd list" where
  "refresh_block s =
     (let n = fst s; t = tmp_name n; f = family_text (fst (snd s)) in
        ([CreateSet n f, CreateSet t f, FlushSet t] @ map (AddEntry t) (snd (snd s)))
      @ [SwapSets n t, DestroySet t])"

lemma refresh_blocks:
  "refresh_all_sets st (sorted_uids (PerUser st)) = concat (map refresh_block (ipt_specs st))"
  by (simp add: refresh_all_sets_def ipt_specs_def write_set_refresh_def refresh_block_def Let_def
      family_names family_text_def concat_map_concat)

lemma distinct_uid_names:
  "distinct us \<Longrightarrow> distinct (map fst (concat (map (\<lambda>u. [(set_name family4 (uid_token u), f u),
     (set_name family6 (uid_token u), g u)]) us)))"
  by (induction us) auto

lemma distinct_ipt_specs: "wf_state st \<Longrightarrow> distinct (map fst (ipt_specs st))"
  using distinct_uid_names [of "sorted_uids (PerUser st)" "\<lambda>u. (False, V4 (ipset_at (PerUser st) u))"
      "\<lambda>u. (True, V6 (ipset_at (PerUser st) u))"] distinct_sorted_uids [of st]
  by (auto simp: ipt_specs_def)

lemma ipt_specs_addrs:
  assumes "wf_state st" "(n, v6, as) \<in> set (ipt_specs st)"
  shows "list_all (addr_text v6) as" "distinct as"
proof -
  have "wf_ipset (GlobalSet st)" "wf_ipset (ipset_at (PerUser st) u)" for u
    using assms(1) wf_ipset_at by (auto simp: wf_state_def)
  then show "list_all (addr_text v6) as" "distinct as"
    using assms(2) by (auto simp: ipt_specs_def wf_ipset_def)
qed

lemma ipt_specs_not_tmp: "s \<in> set (ipt_specs st) \<Longrightarrow> fst s \<noteq> tmp_name m"
  by (auto simp: ipt_specs_def)

lemma fst_ipt_specs:
  "fst ` set (ipt_specs st) = {set_name family4 ''g'', set_name family6 ''g''} \<union>
     (\<Union>u \<in> set (sorted_uids (PerUser st)). {set_name family4 (uid_token u), set_name family6 (uid_token u)})"
  by (simp add: ipt_specs_def image_UN insert_commute)

section \<open>Frames\<close>

lemma default_kind_simps [simp]:
  "default_kind v = default_kind u \<longleftrightarrow> v = u" "fst (default_kind v) = v" "snd (default_kind v) = 65536"
  by (auto simp: default_kind_def)

lemma exec_sets_append:
  "exec_sets ex (cs @ ds) w = (case exec_sets ex cs w of None \<Rightarrow> None | Some w' \<Rightarrow> exec_sets ex ds w')"
  by (induction cs arbitrary: w) (auto split: option.splits)

lemma put_set_sel [simp]:
  "ipsets (put_set n s w) = (ipsets w)(n \<mapsto> s)" "chain (put_set n s w) = chain w"
  "jumps (put_set n s w) = jumps w"
  by (simp_all add: put_set_def)

fun touches :: "ipset_cmd \<Rightarrow> string set" where
  "touches (CreateSet n f) = {n}"
| "touches (FlushSet n) = {n}"
| "touches (AddEntry n a) = {n}"
| "touches (DelEntry n a) = {n}"
| "touches (SwapSets n m) = {n, m}"
| "touches (DestroySet n) = {n}"

lemma exec_set_frame:
  assumes "exec_set ex c w = Some w'"
  shows "chain w' = chain w" "jumps w' = jumps w" "m \<notin> touches c \<Longrightarrow> ipsets w' m = ipsets w m"
  using assms by (cases c; auto split: option.splits if_splits prod.splits)+

lemma exec_sets_frame:
  assumes "exec_sets ex cs w = Some w'"
  shows "chain w' = chain w \<and> jumps w' = jumps w \<and>
    (m \<notin> (\<Union>c \<in> set cs. touches c) \<longrightarrow> ipsets w' m = ipsets w m)"
  using assms
proof (induction cs arbitrary: w)
  case (Cons c cs)
  then obtain w1 where 1: "exec_set ex c w = Some w1" "exec_sets ex cs w1 = Some w'"
    by (auto split: option.splits)
  show ?case using Cons.IH [OF 1(2)] exec_set_frame [OF 1(1)] by auto
qed simp

lemma in_use_cong: "chain w' = chain w \<Longrightarrow> in_use w' n = in_use w n"
  by (simp add: in_use_def)

section \<open>One set\<close>

lemma exec_adds:
  assumes "exec_sets ex (map (AddEntry t) as) w = Some w'" "ipsets w t = Some (v, es)"
  shows "ipsets w' = (ipsets w)(t \<mapsto> (v, es \<union> set as))"
  using assms
proof (induction as arbitrary: w es)
  case Nil
  then show ?case by auto
next
  case (Cons a as)
  then have st: "storable (fst v) a \<and> (ex \<or> a \<notin> es) \<and> (a \<in> es \<or> card es < snd v)"
    by (auto split: if_splits)
  have "ipsets w' = (ipsets (put_set t (v, insert a es) w))(t \<mapsto> (v, insert a es \<union> set as))"
    using Cons.prems st by (intro Cons.IH) auto
  then show ?case by simp
qed

lemma exec_adds_total:
  assumes "ipsets w t = Some (v, es)" "list_all (storable (fst v)) as" "distinct as" "set as \<inter> es = {}"
    and "finite es" "card es + length as \<le> snd v"
  shows "exec_sets ex (map (AddEntry t) as) w \<noteq> None"
  using assms
proof (induction as arbitrary: w es)
  case (Cons a as)
  have "exec_sets ex (map (AddEntry t) as) (put_set t (v, insert a es) w) \<noteq> None"
    using Cons.prems by (intro Cons.IH [of _ "insert a es"]) auto
  then show ?case using Cons.prems by auto
qed simp

lemma exec_dels:
  assumes "exec_sets True (map (DelEntry t) as) w = Some w'" "ipsets w t = Some (v, es)"
  shows "ipsets w' = (ipsets w)(t \<mapsto> (v, es - set as))"
  using assms
proof (induction as arbitrary: w es)
  case Nil
  then show ?case by auto
next
  case (Cons a as)
  have "ipsets w' = (ipsets (put_set t (v, es - {a}) w))(t \<mapsto> (v, (es - {a}) - set as))"
    using Cons.prems by (intro Cons.IH) auto
  moreover have "(es - {a}) - set as = es - set (a # as)" by auto
  ultimately show ?case by simp
qed

text \<open>The part of a refresh block before the swap fills the temporary set.\<close>

lemma family_text_cases: "family_text v = ''inet'' \<or> family_text v = ''inet6''" "(family_text v = ''inet6'') = v"
  by (auto simp: family_text_def)

lemma exec_create:
  assumes "exec_set ex (CreateSet n (family_text v)) w = Some w'"
  shows "\<exists>es. ipsets w' n = Some (default_kind v, es) \<and>
      (ipsets w n = None \<and> es = {} \<or> ipsets w n = Some (default_kind v, es))"
    "m \<noteq> n \<Longrightarrow> ipsets w' m = ipsets w m"
  using assms by (auto simp: family_text_cases split: if_splits option.splits)

lemma exec_fill:
  assumes "exec_sets False ([CreateSet n (family_text v), CreateSet (tmp_name n) (family_text v),
      FlushSet (tmp_name n)] @ map (AddEntry (tmp_name n)) as) w = Some w'"
  shows "\<exists>es. ipsets w' = (ipsets w)(n \<mapsto> (default_kind v, es), tmp_name n \<mapsto> (default_kind v, set as))
    \<and> (ipsets w n = None \<and> es = {} \<or> ipsets w n = Some (default_kind v, es))"
proof -
  let ?t = "tmp_name n"
  obtain w1 where 1: "exec_set False (CreateSet n (family_text v)) w = Some w1"
    using assms by (auto split: option.splits simp del: exec_set.simps)
  obtain w2 where 2: "exec_set False (CreateSet ?t (family_text v)) w1 = Some w2"
    using assms 1 by (auto split: option.splits simp del: exec_set.simps)
  obtain es where es: "ipsets w1 n = Some (default_kind v, es)" "ipsets w n = None \<and> es = {} \<or> ipsets w n = Some (default_kind v, es)"
    using exec_create(1) [OF 1] by auto
  obtain et where et: "ipsets w2 ?t = Some (default_kind v, et)" using exec_create(1) [OF 2] by auto
  have 3: "exec_set False (FlushSet ?t) w2 = Some (put_set ?t (default_kind v, {}) w2)" using et by simp
  have "exec_sets False (map (AddEntry ?t) as) (put_set ?t (default_kind v, {}) w2) = Some w'"
    using assms 1 2 3 by (simp del: exec_set.simps)
  then have w': "ipsets w' = (ipsets w2)(?t \<mapsto> (default_kind v, set as))"
    using exec_adds [of False ?t as _ w' "default_kind v" "{}"] by simp
  have "ipsets w2 m = ((ipsets w)(n \<mapsto> (default_kind v, es))) m" if "m \<noteq> ?t" for m
    using exec_create(2) [OF 1] exec_create(2) [OF 2 that] es by (cases "m = n") auto
  then have "ipsets w' = (ipsets w)(n \<mapsto> (default_kind v, es), ?t \<mapsto> (default_kind v, set as))"
    unfolding w' by (auto simp: fun_eq_iff)
  then show ?thesis using es(2) by blast
qed

lemma exec_swap_destroy:
  assumes "ipsets w n = Some (v, es)" "ipsets w (tmp_name n) = Some (v, et)"
    and "exec_sets False [SwapSets n (tmp_name n), DestroySet (tmp_name n)] w = Some w'"
  shows "ipsets w' = (ipsets w)(n \<mapsto> (v, et), tmp_name n := None)"
proof -
  have "w' = (put_set (tmp_name n) (v, es) (put_set n (v, et) w))
      \<lparr>ipsets := (ipsets (put_set (tmp_name n) (v, es) (put_set n (v, et) w)))(tmp_name n := None)\<rparr>"
    using assms(3) by (simp add: assms(1,2) split: if_splits)
  then show ?thesis by simp
qed

lemma exec_refresh_block:
  assumes "exec_sets False (refresh_block (n, v, as)) w = Some w'"
  shows "ipsets w' = (ipsets w)(n \<mapsto> (default_kind v, set as), tmp_name n := None)"
proof -
  let ?fill = "[CreateSet n (family_text v), CreateSet (tmp_name n) (family_text v),
      FlushSet (tmp_name n)] @ map (AddEntry (tmp_name n)) as"
  obtain w1 where 1: "exec_sets False ?fill w = Some w1"
    and 2: "exec_sets False [SwapSets n (tmp_name n), DestroySet (tmp_name n)] w1 = Some w'"
    using assms exec_sets_append [of False ?fill] unfolding refresh_block_def Let_def
    by (cases "exec_sets False ?fill w") (auto simp del: exec_sets.simps)
  obtain es where w1: "ipsets w1 = (ipsets w)(n \<mapsto> (default_kind v, es), tmp_name n \<mapsto> (default_kind v, set as))"
    using exec_fill [OF 1] by blast
  show ?thesis using exec_swap_destroy [OF _ _ 2, of "default_kind v" es "set as"] w1 by (simp add: fun_upd_twist)
qed

text \<open>A block only runs through if all its addresses can be stored, and the set is large enough.\<close>

lemma exec_adds_storable:
  assumes "exec_sets False (map (AddEntry t) as) w = Some w'" "ipsets w t = Some (v, es)" "finite es" "card es \<le> snd v"
  shows "list_all (storable (fst v)) as \<and> distinct as \<and> set as \<inter> es = {} \<and> card es + length as \<le> snd v"
  using assms
proof (induction as arbitrary: w es)
  case (Cons a as)
  then have a: "storable (fst v) a \<and> a \<notin> es \<and> card es < snd v" by (auto split: if_splits)
  have "list_all (storable (fst v)) as \<and> distinct as \<and> set as \<inter> insert a es = {} \<and> card (insert a es) + length as \<le> snd v"
    using Cons.prems a by (intro Cons.IH [of "put_set t (v, insert a es) w" "insert a es"]) auto
  then show ?case using a Cons.prems(3) by auto
qed simp

lemma exec_refresh_block_storable:
  assumes "exec_sets False (refresh_block (n, v, as)) w = Some w'"
  shows "list_all (storable v) as" "distinct as" "length as \<le> 65536"
proof -
  let ?t = "tmp_name n" and ?f = "family_text v"
  obtain w1 where 1: "exec_sets False [CreateSet n ?f] w = Some w1"
    and r1: "exec_sets False ([CreateSet ?t ?f, FlushSet ?t] @ map (AddEntry ?t) as @ [SwapSets n ?t, DestroySet ?t]) w1 = Some w'"
    using assms by (auto simp: refresh_block_def Let_def split: option.splits simp del: exec_set.simps)
  obtain w2 where 2: "exec_set False (CreateSet ?t ?f) w1 = Some w2"
    and r2: "exec_sets False (FlushSet ?t # map (AddEntry ?t) as @ [SwapSets n ?t, DestroySet ?t]) w2 = Some w'"
    using r1 by (auto split: option.splits simp del: exec_set.simps)
  obtain et where et: "ipsets w2 ?t = Some (default_kind v, et)" using exec_create(1) [OF 2] by auto
  have "exec_sets False (map (AddEntry ?t) as @ [SwapSets n ?t, DestroySet ?t]) (put_set ?t (default_kind v, {}) w2) = Some w'"
    using r2 by (simp add: et)
  then obtain w3 where "exec_sets False (map (AddEntry ?t) as) (put_set ?t (default_kind v, {}) w2) = Some w3"
    unfolding exec_sets_append by (auto split: option.splits)
  from exec_adds_storable [OF this, of "default_kind v" "{}"]
  show "list_all (storable v) as" "distinct as" "length as \<le> 65536" by (simp_all add: default_kind_def)
qed

text \<open>After any prefix of a block the live set is as it was, newly created, or replaced.\<close>

lemma refresh_block_prefix:
  assumes "exec_sets False (take i (refresh_block (n, v, as))) w = Some w'" "m \<noteq> tmp_name n"
  shows "ipsets w' m = ipsets w m \<or>
    (m = n \<and> (ipsets w n = None \<and> ipsets w' n = Some (default_kind v, {}) \<or> ipsets w' n = Some (default_kind v, set as)))"
proof -
  let ?t = "tmp_name n" and ?f = "family_text v"
  let ?rest = "[CreateSet ?t ?f, FlushSet ?t] @ map (AddEntry ?t) as"
  let ?k = "Suc (length ?rest)"
  have blk: "refresh_block (n, v, as) = (CreateSet n ?f # ?rest) @ [SwapSets n ?t, DestroySet ?t]"
    by (simp add: refresh_block_def Let_def)
  consider "i = 0" | "0 < i" "i \<le> ?k" | "?k < i" by linarith
  then show ?thesis
  proof cases
    case 1
    then show ?thesis using assms(1) by simp
  next
    case 2
    then obtain j where j: "i = Suc j" by (cases i) auto
    have cut: "take i ((CreateSet n ?f # R) @ ys) = CreateSet n ?f # take j R" if "j \<le> length R" for R ys
      using j that by simp
    have tk: "take i (refresh_block (n, v, as)) = CreateSet n ?f # take j ?rest"
      unfolding blk by (rule cut) (use 2 j in simp)
    obtain w1 where w1: "exec_set False (CreateSet n ?f) w = Some w1" "exec_sets False (take j ?rest) w1 = Some w'"
      using assms(1) unfolding tk by (auto split: option.splits simp del: exec_set.simps)
    have "(\<Union>c \<in> set (take j ?rest). touches c) \<subseteq> {?t}"
      by (auto dest!: in_set_takeD)
    then have "ipsets w' m = ipsets w1 m" using exec_sets_frame [OF w1(2), of m] assms(2) by auto
    then show ?thesis using exec_create [OF w1(1)] by (cases "m = n") auto
  next
    case 3
    have tk: "take i (refresh_block (n, v, as)) = (CreateSet n ?f # ?rest) @ take (i - ?k) [SwapSets n ?t, DestroySet ?t]"
      using 3 unfolding blk by (simp add: take_Cons')
    obtain w1 where w1: "exec_sets False (CreateSet n ?f # ?rest) w = Some w1"
      and w2: "exec_sets False (take (i - ?k) [SwapSets n ?t, DestroySet ?t]) w1 = Some w'"
      using assms(1) exec_sets_append [of False "CreateSet n ?f # ?rest"] unfolding tk
      by (cases "exec_sets False (CreateSet n ?f # ?rest) w") (auto simp del: exec_sets.simps)
    obtain es where e: "ipsets w1 = (ipsets w)(n \<mapsto> (default_kind v, es), ?t \<mapsto> (default_kind v, set as))"
      using exec_fill [of n v as w w1] w1 by auto
    have "take (i - ?k) [SwapSets n ?t, DestroySet ?t] = [SwapSets n ?t] \<or>
        take (i - ?k) [SwapSets n ?t, DestroySet ?t] = [SwapSets n ?t, DestroySet ?t]"
      using 3 by (cases "i - ?k"; cases "i - ?k - 1") auto
    then show ?thesis using w2 e assms(2) by (auto split: if_splits)
  qed
qed

section \<open>The whole refresh\<close>

definition live :: "(string \<times> bool \<times> string list) list \<Rightarrow> string \<Rightarrow> bool" where
  "live ss m \<longleftrightarrow> m \<notin> tmp_name ` fst ` set ss"

text \<open>What a set may hold while the refresh runs\<close>

definition old_or_new ::
    "(string \<times> bool \<times> string list) list \<Rightarrow> ipt_view \<Rightarrow> ipt_view \<Rightarrow> string \<Rightarrow> bool" where
  "old_or_new ss w w' m \<longleftrightarrow>
     ipsets w' m = ipsets w m \<or>
     (\<exists>v as. (m, v, as) \<in> set ss \<and>
        (ipsets w m = None \<and> ipsets w' m = Some (default_kind v, {}) \<or> ipsets w' m = Some (default_kind v, set as)))"

lemma refresh_prefix:
  assumes "exec_sets False (take i (concat (map refresh_block ss))) w = Some w'" "live ss m"
  shows "old_or_new ss w w' m"
  using assms
proof (induction ss arbitrary: i w)
  case Nil
  then show ?case by (simp add: old_or_new_def)
next
  case (Cons s ss)
  obtain n v as where s: "s = (n, v, as)" by (cases s) auto
  let ?b = "refresh_block (n, v, as)"
  have m: "m \<noteq> tmp_name n" "live ss m" using Cons.prems(2) by (auto simp: live_def s)
  show ?case
  proof (cases "i \<le> length ?b")
    case True
    then have "exec_sets False (take i ?b) w = Some w'" using Cons.prems(1) by (simp add: s)
    from refresh_block_prefix [OF this m(1)] show ?thesis by (auto simp: old_or_new_def s)
  next
    case False
    then have "exec_sets False (?b @ take (i - length ?b) (concat (map refresh_block ss))) w = Some w'"
      using Cons.prems(1) by (simp add: s)
    then obtain w1 where w1: "exec_sets False ?b w = Some w1"
      "exec_sets False (take (i - length ?b) (concat (map refresh_block ss))) w1 = Some w'"
      by (auto simp: exec_sets_append split: option.splits)
    have "old_or_new ss w1 w' m" by (rule Cons.IH [OF w1(2) m(2)])
    moreover have "ipsets w1 = (ipsets w)(n \<mapsto> (default_kind v, set as), tmp_name n := None)"
      by (rule exec_refresh_block [OF w1(1)])
    ultimately show ?thesis using m(1) by (cases "m = n") (auto simp: old_or_new_def s)
  qed
qed

text \<open>At its end every set of the state holds its addresses.\<close>

lemma refresh_done:
  assumes "exec_sets False (concat (map refresh_block ss)) w = Some w'"
    and "distinct (map fst ss)" "\<forall>s \<in> set ss. live ss (fst s)"
  shows "\<forall>(n, v, as) \<in> set ss. ipsets w' n = Some (default_kind v, set as)"
  using assms
proof (induction ss arbitrary: w)
  case Nil
  then show ?case by simp
next
  case (Cons s ss)
  obtain n v as where s: "s = (n, v, as)" by (cases s) auto
  let ?b = "refresh_block (n, v, as)"
  obtain w1 where w1: "exec_sets False ?b w = Some w1" "exec_sets False (concat (map refresh_block ss)) w1 = Some w'"
    using Cons.prems(1) by (auto simp: s exec_sets_append split: option.splits)
  have n: "ipsets w1 n = Some (default_kind v, set as)" using exec_refresh_block [OF w1(1)] by simp
  have "old_or_new ss w1 w' n"
    using w1(2) Cons.prems(3)
    by (intro refresh_prefix [where i = "length (concat (map refresh_block ss))"]) (auto simp: live_def s)
  moreover have "n \<notin> fst ` set ss" using Cons.prems(2) by (simp add: s)
  ultimately have "ipsets w' n = Some (default_kind v, set as)" using n by (force simp: old_or_new_def)
  moreover have "\<forall>(n, v, as) \<in> set ss. ipsets w' n = Some (default_kind v, set as)"
    using Cons.prems w1(2) by (intro Cons.IH) (auto simp: live_def)
  ultimately show ?case by (simp add: s)
qed

lemma ipt_specs_live: "s \<in> set (ipt_specs st) \<Longrightarrow> live (ipt_specs st) (fst s)"
  using ipt_specs_not_tmp [of s st] by (auto simp: live_def)

definition has_sets :: "ipt_view \<Rightarrow> fw_state \<Rightarrow> bool" where
  "has_sets w st \<longleftrightarrow> (\<forall>(n, v, as) \<in> set (ipt_specs st). ipsets w n = Some (default_kind v, set as))"

lemma exec_refresh_all:
  assumes "wf_state st" "exec_sets False (refresh_all_sets st (sorted_uids (PerUser st))) w = Some w'"
  shows "has_sets w' st" "chain w' = chain w" "jumps w' = jumps w"
  using refresh_done [OF assms(2) [unfolded refresh_blocks] distinct_ipt_specs [OF assms(1)]]
    ipt_specs_live exec_sets_frame [OF assms(2)] by (auto simp: has_sets_def)

subsection \<open>When the refresh runs through\<close>

text \<open>
  Exactly when the names it needs are short enough and free, or sets as the source creates them,
  temporary sets are not referenced, no address is the zero address or given twice, and no list has more addresses
  than a set can hold.
\<close>

definition refreshable :: "ipt_view \<Rightarrow> string \<times> bool \<times> string list \<Rightarrow> bool" where
  "refreshable w s \<longleftrightarrow>
     (case s of (n, v, as) \<Rightarrow>
        length n \<le> 29 \<and> list_all (storable v) as \<and> distinct as \<and> length as \<le> 65536 \<and> \<not> in_use w (tmp_name n) \<and>
        (case ipsets w n of None \<Rightarrow> True | Some (k, _) \<Rightarrow> k = default_kind v) \<and>
        (case ipsets w (tmp_name n) of None \<Rightarrow> True | Some (k, _) \<Rightarrow> k = default_kind v))"

lemma exec_create_total:
  assumes "length n \<le> 31" "case ipsets w n of None \<Rightarrow> True | Some (k, _) \<Rightarrow> k = default_kind v"
  shows "exec_set ex (CreateSet n (family_text v)) w \<noteq> None"
  using assms family_text_cases [of v] by (auto split: option.splits)

lemma refresh_block_total:
  assumes "refreshable w (n, v, as)"
  shows "exec_sets False (refresh_block (n, v, as)) w \<noteq> None"
proof -
  let ?t = "tmp_name n" and ?f = "family_text v"
  have len: "length n \<le> 31" "length ?t \<le> 31"
    using assms by (auto simp: refreshable_def tmp_name_def)
  obtain w1 where w1: "exec_set False (CreateSet n ?f) w = Some w1"
    using exec_create_total [OF len(1), where w = w and v = v and ex = False] assms by (fastforce simp: refreshable_def)
  have t1: "ipsets w1 ?t = ipsets w ?t" using exec_create(2) [OF w1] by simp
  obtain w2 where w2: "exec_set False (CreateSet ?t ?f) w1 = Some w2"
    using exec_create_total [OF len(2), where w = w1 and v = v and ex = False] assms t1 by (fastforce simp: refreshable_def)
  obtain et where et: "ipsets w2 ?t = Some (default_kind v, et)" using exec_create(1) [OF w2] by auto
  obtain en where en: "ipsets w2 n = Some (default_kind v, en)"
    using exec_create(1) [OF w1] exec_create(2) [OF w2, of n] by auto
  have fl: "exec_set False (FlushSet ?t) w2 = Some (put_set ?t (default_kind v, {}) w2)" using et by simp
  have as: "list_all (storable v) as" "distinct as" "length as \<le> 65536" using assms by (auto simp: refreshable_def)
  have "exec_sets False (map (AddEntry ?t) as) (put_set ?t (default_kind v, {}) w2) \<noteq> None"
    by (rule exec_adds_total [where v = "default_kind v" and es = "{}"]) (use as in \<open>auto simp: default_kind_def\<close>)
  then obtain w3 where w3: "exec_sets False (map (AddEntry ?t) as) (put_set ?t (default_kind v, {}) w2) = Some w3"
    by blast
  have s3: "ipsets w3 = (ipsets (put_set ?t (default_kind v, {}) w2))(?t \<mapsto> (default_kind v, {} \<union> set as))"
    by (rule exec_adds [OF w3]) simp
  have c3: "chain w3 = chain w"
    using exec_sets_frame [OF w3] exec_set_frame(1) [OF w1] exec_set_frame(1) [OF w2] by simp
  have "\<not> in_use w3 ?t" using assms in_use_cong [OF c3] by (simp add: refreshable_def)
  then have nu: "\<not> in_use (put_set ?t x (put_set n y w3)) ?t" for x y
    using in_use_cong [of "put_set ?t x (put_set n y w3)" w3] by simp
  have "exec_sets False [SwapSets n ?t, DestroySet ?t] w3 \<noteq> None"
    using s3 en nu by simp
  then show ?thesis
    using w1 w2 fl w3 unfolding refresh_block_def Let_def exec_sets_append
    by (simp del: exec_set.simps)
qed

text \<open>Conversely, a block that runs through leaves the chains alone and has found all this.\<close>

lemma exec_create_kind:
  assumes "exec_set ex (CreateSet n (family_text v)) w = Some w'"
  shows "length n \<le> 31" "case ipsets w n of None \<Rightarrow> True | Some (k, _) \<Rightarrow> k = default_kind v"
  using assms by (auto simp: family_text_cases split: if_splits option.splits)

lemma refresh_block_refreshable:
  assumes "exec_sets False (refresh_block (n, v, as)) w = Some w'"
  shows "refreshable w (n, v, as)"
proof -
  let ?t = "tmp_name n" and ?f = "family_text v"
  let ?fill = "FlushSet ?t # map (AddEntry ?t) as"
  obtain w1 w2 where w1: "exec_set False (CreateSet n ?f) w = Some w1" and w2: "exec_set False (CreateSet ?t ?f) w1 = Some w2"
    and rest: "exec_sets False (?fill @ [SwapSets n ?t, DestroySet ?t]) w2 = Some w'"
    using assms by (auto simp: refresh_block_def Let_def split: option.splits simp del: exec_set.simps)
  obtain w3 w4 where w3: "exec_sets False ?fill w2 = Some w3" and w4: "exec_set False (SwapSets n ?t) w3 = Some w4"
    and w5: "exec_set False (DestroySet ?t) w4 = Some w'"
    using rest unfolding exec_sets_append by (auto split: option.splits simp del: exec_set.simps)
  have "chain w4 = chain w"
    using exec_set_frame(1) [OF w1] exec_set_frame(1) [OF w2] exec_set_frame(1) [OF w4] exec_sets_frame [OF w3] by simp
  then have "\<not> in_use w ?t" using w5 in_use_cong [of w4 w ?t] by (auto split: option.splits if_splits)
  moreover have "length n \<le> 29" using exec_create_kind(1) [OF w2] by (simp add: tmp_name_def)
  moreover have "ipsets w1 ?t = ipsets w ?t" using exec_create(2) [OF w1, of ?t] by simp
  ultimately show ?thesis
    using exec_refresh_block_storable [OF assms] exec_create_kind(2) [OF w1] exec_create_kind(2) [OF w2]
    by (simp add: refreshable_def)
qed

lemma refresh_block_iff: "exec_sets False (refresh_block (n, v, as)) w \<noteq> None \<longleftrightarrow> refreshable w (n, v, as)"
  using refresh_block_total refresh_block_refreshable by blast

text \<open>A block does not touch what the blocks after it need.\<close>

lemma refreshable_after:
  assumes "exec_sets False (refresh_block (n, v, as)) w = Some w1"
    and "m \<noteq> n" "m \<noteq> tmp_name n" "tmp_name m \<noteq> n"
  shows "refreshable w1 (m, v', bs) \<longleftrightarrow> refreshable w (m, v', bs)"
proof -
  have "ipsets w1 = (ipsets w)(n \<mapsto> (default_kind v, set as), tmp_name n := None)" by (rule exec_refresh_block [OF assms(1)])
  then have e: "ipsets w1 m = ipsets w m" "ipsets w1 (tmp_name m) = ipsets w (tmp_name m)" using assms(2-) by simp_all
  have "in_use w1 x = in_use w x" for x by (rule in_use_cong) (use exec_sets_frame [OF assms(1)] in blast)
  then show ?thesis unfolding refreshable_def prod.case e by simp
qed

theorem refresh_iff:
  assumes "distinct (map fst ss)" "\<forall>s \<in> set ss. live ss (fst s)"
  shows "exec_sets False (concat (map refresh_block ss)) w \<noteq> None \<longleftrightarrow> (\<forall>s \<in> set ss. refreshable w s)"
  using assms
proof (induction ss arbitrary: w)
  case Nil
  then show ?case by simp
next
  case (Cons s ss)
  obtain n v as where s: "s = (n, v, as)" by (cases s) auto
  show ?case
  proof (cases "exec_sets False (refresh_block s) w")
    case None
    then have "\<not> refreshable w s" using refresh_block_iff [of n v as w] by (simp add: s)
    then show ?thesis using None by (simp add: exec_sets_append)
  next
    case (Some w1)
    have r: "refreshable w1 x \<longleftrightarrow> refreshable w x" if "x \<in> set ss" for x
    proof -
      obtain m v' bs where x: "x = (m, v', bs)" by (cases x) auto
      have "m \<noteq> n" using Cons.prems(1) that by (force simp: s x)
      moreover have "m \<noteq> tmp_name n" "tmp_name m \<noteq> n" using Cons.prems(2) that by (force simp: s x live_def)+
      ultimately show ?thesis unfolding x using refreshable_after Some s by metis
    qed
    have "refreshable w s" using refresh_block_iff [of n v as w] Some by (simp add: s)
    moreover have "exec_sets False (concat (map refresh_block ss)) w1 \<noteq> None \<longleftrightarrow> (\<forall>s \<in> set ss. refreshable w1 s)"
      using Cons.prems by (intro Cons.IH) (auto simp: live_def)
    ultimately show ?thesis using Some r by (simp add: exec_sets_append)
  qed
qed

lemma length_nat_digits: "n < 10 ^ Suc k \<Longrightarrow> length (nat_digits n) \<le> Suc k"
proof (induction k arbitrary: n)
  case 0
  then show ?case by (subst nat_digits.simps) simp
next
  case (Suc k)
  then have "length (nat_digits (n div 10)) \<le> Suc k" by (intro Suc.IH) (simp add: div_less_iff_less_mult)
  then show ?case by (subst nat_digits.simps) simp
qed

text \<open>Names stay under the limit of 31 bytes, temporary names included.\<close>

lemma set_name_length:
  assumes "kernel_uid u"
  shows "length (set_name family4 (uid_token u)) \<le> 20" "length (set_name family6 (uid_token u)) \<le> 20"
proof -
  have "nat u < 10 ^ Suc 9" using assms by (auto simp: kernel_uid_def)
  then have "length (itoa u) \<le> 10"
    using length_nat_digits [of "nat u" 9] assms by (simp add: itoa_def kernel_uid_def)
  then show "length (set_name family4 (uid_token u)) \<le> 20" "length (set_name family6 (uid_token u)) \<le> 20"
    by (simp_all add: set_name_def family4_def family6_def uid_token_def set_prefix_def)
qed

lemma ipt_specs_length: "wf_state st \<Longrightarrow> s \<in> set (ipt_specs st) \<Longrightarrow> length (fst s) \<le> 29"
proof -
  assume st: "wf_state st" and "s \<in> set (ipt_specs st)"
  then consider "fst s = set_name family4 ''g'' \<or> fst s = set_name family6 ''g''"
    | u where "u \<in> set (sorted_uids (PerUser st))"
      "fst s = set_name family4 (uid_token u) \<or> fst s = set_name family6 (uid_token u)"
    using fst_ipt_specs [of st] by blast
  then show ?thesis
  proof cases
    case 1
    then show ?thesis by (auto simp: set_name_def family4_def family6_def set_prefix_def)
  next
    case 2
    then show ?thesis using set_name_length [OF wf_state_uids [OF st 2(1)]] by auto
  qed
qed

section \<open>An incremental payload\<close>

definition elem_delta :: "string \<times> bool \<times> string list \<times> string list \<Rightarrow> ipset_cmd list" where
  "elem_delta x = (case diff_strings (fst (snd (snd x))) (snd (snd (snd x))) of
     (added, removed) \<Rightarrow> map (AddEntry (fst x)) added @ map (DelEntry (fst x)) removed)"

definition set_deltas :: "fw_state \<Rightarrow> fw_state \<Rightarrow> (string \<times> bool \<times> string list \<times> string list) list" where
  "set_deltas prev nxt =
     [(set_name family4 ''g'', False, V4 (GlobalSet prev), V4 (GlobalSet nxt)),
      (set_name family6 ''g'', True, V6 (GlobalSet prev), V6 (GlobalSet nxt))]
   @ concat (map (\<lambda>u. [(set_name family4 (uid_token u), False, V4 (ipset_at (PerUser prev) u), V4 (ipset_at (PerUser nxt) u)),
                       (set_name family6 (uid_token u), True, V6 (ipset_at (PerUser prev) u), V6 (ipset_at (PerUser nxt) u))])
        (sorted_uids (PerUser nxt)))"

lemma build_set_deltas:
  "build_set_delta prev nxt (sorted_uids (PerUser nxt)) = concat (map elem_delta (set_deltas prev nxt))"
  by (simp add: build_set_delta_def set_deltas_def write_set_elem_delta_def elem_delta_def concat_map_concat Let_def)

lemma deltas_new: "map new_spec (set_deltas prev nxt) = ipt_specs nxt"
  by (simp add: set_deltas_def ipt_specs_def new_spec_def map_concat comp_def)

lemma deltas_old:
  "sorted_uids (PerUser prev) = sorted_uids (PerUser nxt) \<Longrightarrow> map old_spec (set_deltas prev nxt) = ipt_specs prev"
  by (simp add: set_deltas_def ipt_specs_def old_spec_def map_concat comp_def)

lemma exec_elem_delta:
  assumes "exec_sets True (elem_delta (n, v, prev, nxt)) w = Some w'" "ipsets w n = Some (default_kind v, set prev)"
  shows "ipsets w' = (ipsets w)(n \<mapsto> (default_kind v, set nxt))"
proof -
  obtain ad rm where d: "diff_strings prev nxt = (ad, rm)" by (cases "diff_strings prev nxt") auto
  obtain w1 where 1: "exec_sets True (map (AddEntry n) ad) w = Some w1"
    and 2: "exec_sets True (map (DelEntry n) rm) w1 = Some w'"
    using assms(1) by (auto simp: elem_delta_def d exec_sets_append split: option.splits)
  have w1: "ipsets w1 = (ipsets w)(n \<mapsto> (default_kind v, set prev \<union> set ad))" by (rule exec_adds [OF 1 assms(2)])
  then have "ipsets w1 n = Some (default_kind v, set prev \<union> set ad)" by simp
  from exec_dels [OF 2 this] show ?thesis using diff_strings_spec(3) [OF d] by (simp add: w1)
qed

lemma exec_deltas:
  assumes "exec_sets True (concat (map elem_delta ds)) w = Some w'" "distinct (map fst ds)"
    and "\<forall>x \<in> set ds. ipsets w (fst x) = Some (default_kind (fst (snd x)), set (fst (snd (snd x))))"
  shows "(\<forall>x \<in> set ds. ipsets w' (fst x) = Some (default_kind (fst (snd x)), set (snd (snd (snd x))))) \<and>
    (\<forall>m. m \<notin> fst ` set ds \<longrightarrow> ipsets w' m = ipsets w m)"
  using assms
proof (induction ds arbitrary: w)
  case Nil
  then show ?case by simp
next
  case (Cons d ds)
  obtain n v p q where d: "d = (n, v, p, q)" by (cases d) auto
  obtain w1 where w1: "exec_sets True (elem_delta d) w = Some w1"
    "exec_sets True (concat (map elem_delta ds)) w1 = Some w'"
    using Cons.prems(1) by (auto simp: exec_sets_append split: option.splits)
  have s1: "ipsets w1 = (ipsets w)(n \<mapsto> (default_kind v, set q))"
    using exec_elem_delta [OF w1(1) [unfolded d]] Cons.prems(3) by (simp add: d)
  have n: "n \<notin> fst ` set ds" using Cons.prems(2) by (simp add: d)
  have "\<forall>x \<in> set ds. ipsets w1 (fst x) = Some (default_kind (fst (snd x)), set (fst (snd (snd x))))"
    using Cons.prems(3) n s1 by (auto simp: image_iff)
  from Cons.IH [OF w1(2) _ this] show ?case using Cons.prems(2) n s1 by (simp add: d)
qed

lemma exec_set_delta:
  assumes "wf_state prev" "wf_state nxt" "same_uids (PerUser prev) (PerUser nxt)" "has_sets w prev"
    and "exec_sets True (build_set_delta prev nxt (sorted_uids (PerUser nxt))) w = Some w'"
  shows "has_sets w' nxt" "chain w' = chain w" "jumps w' = jumps w"
proof -
  let ?ds = "set_deltas prev nxt"
  have us: "sorted_uids (PerUser prev) = sorted_uids (PerUser nxt)"
    using assms(1-3) same_uids_sorted by (auto simp: wf_state_def)
  have fst_new: "fst (new_spec x) = fst x" for x by (simp add: new_spec_def)
  have "map fst (map new_spec ?ds) = map fst ?ds" by (simp add: comp_def fst_new)
  then have dist: "distinct (map fst ?ds)" using distinct_ipt_specs [OF assms(2)] by (simp add: deltas_new)
  have old: "\<forall>x \<in> set ?ds. ipsets w (fst x) = Some (default_kind (fst (snd x)), set (fst (snd (snd x))))"
    using assms(4) by (auto simp: has_sets_def deltas_old [OF us, symmetric] old_spec_def)
  have "\<forall>x \<in> set ?ds. ipsets w' (fst x) = Some (default_kind (fst (snd x)), set (snd (snd (snd x))))"
    using exec_deltas [OF assms(5) [unfolded build_set_deltas] dist old] by blast
  then show "has_sets w' nxt" by (auto simp: has_sets_def deltas_new [of prev nxt, symmetric] new_spec_def)
  show "chain w' = chain w" "jumps w' = jumps w" using exec_sets_frame [OF assms(5)] by auto
qed

section \<open>The chain\<close>

definition fam :: "bool \<Rightarrow> family" where
  "fam v6 = (if v6 then family6 else family4)"

definition chain_rules :: "bool \<Rightarrow> int list \<Rightarrow> ipt_rule list" where
  "chain_rules v6 uids =
     SetDrop (set_name (fam v6) ''g'') # map (\<lambda>u. OwnerDrop u (set_name (fam v6) (uid_token u))) uids"

lemma exec_owner_lines:
  "exec_lines w (map (\<lambda>u. AppendOwner u (f u)) us) (Some rs) = Some c \<Longrightarrow>
   c = Some (rs @ map (\<lambda>u. OwnerDrop u (f u)) us)"
proof (induction us arbitrary: rs)
  case (Cons u us)
  have "exec_lines w (map (\<lambda>u. AppendOwner u (f u)) us) (Some (rs @ [OwnerDrop u (f u)])) = Some c"
    using Cons.prems by (simp add: append_rule_def split: if_splits)
  from Cons.IH [OF this] show ?case by simp
qed simp

lemma exec_chain_lines:
  assumes "exec_lines w (chain_lines (fam v6) us) c = Some c'"
  shows "c' = Some (chain_rules v6 us)"
proof -
  have "exec_lines w (map (\<lambda>u. AppendOwner u (set_name (fam v6) (uid_token u))) us)
      (Some [SetDrop (set_name (fam v6) ''g'')]) = Some c'"
    using assms by (simp add: chain_lines_def append_rule_def split: if_splits)
  from exec_owner_lines [OF this] show ?thesis by (simp add: chain_rules_def)
qed

lemma exec_owner_lines_total:
  "\<forall>u \<in> set us. kernel_uid u \<and> ipsets w (f u) \<noteq> None \<Longrightarrow>
   exec_lines w (map (\<lambda>u. AppendOwner u (f u)) us) (Some rs) \<noteq> None"
  by (induction us arbitrary: rs) (auto simp: append_rule_def)

lemma exec_chain_lines_total:
  assumes "wf_state st" "has_sets w st"
  shows "exec_lines w (chain_lines (fam v6) (sorted_uids (PerUser st))) c \<noteq> None"
proof -
  let ?us = "sorted_uids (PerUser st)"
  have s: "ipsets w n \<noteq> None" if "n \<in> fst ` set (ipt_specs st)" for n
    using assms(2) that by (auto simp: has_sets_def)
  have "ipsets w (set_name (fam v6) ''g'') \<noteq> None"
    by (rule s) (simp add: fst_ipt_specs fam_def)
  moreover have "ipsets w (set_name (fam v6) (uid_token u)) \<noteq> None" if "u \<in> set ?us" for u
    by (rule s) (use that in \<open>auto simp: fst_ipt_specs fam_def simp del: set_sorted_uids\<close>)
  then have "exec_lines w (map (\<lambda>u. AppendOwner u (set_name (fam v6) (uid_token u))) ?us)
      (Some [SetDrop (set_name (fam v6) ''g'')]) \<noteq> None"
    using wf_state_uids [OF assms(1)] by (intro exec_owner_lines_total) blast
  ultimately show ?thesis by (simp add: chain_lines_def append_rule_def)
qed

text \<open>A full payload, and the chains after it\<close>

lemma refresh_all_iff:
  "wf_state st \<Longrightarrow> exec_sets False (refresh_all_sets st (sorted_uids (PerUser st))) w \<noteq> None \<longleftrightarrow>
     (\<forall>s \<in> set (ipt_specs st). refreshable w s)"
  unfolding refresh_blocks using refresh_iff [OF distinct_ipt_specs] ipt_specs_live by blast

lemma refresh_then_chains:
  assumes "wf_state st" "exec_sets False (refresh_all_sets st (sorted_uids (PerUser st))) w = Some w'"
  shows "has_sets w' st"
    and "exec_lines w' (chain_lines (fam v) (sorted_uids (PerUser st))) c = Some (Some (chain_rules v (sorted_uids (PerUser st))))"
proof -
  show h: "has_sets w' st" by (rule exec_refresh_all(1) [OF assms])
  obtain c' where "exec_lines w' (chain_lines (fam v) (sorted_uids (PerUser st))) c = Some c'"
    using exec_chain_lines_total [OF assms(1) h] by blast
  then show "exec_lines w' (chain_lines (fam v) (sorted_uids (PerUser st))) c = Some (Some (chain_rules v (sorted_uids (PerUser st))))"
    using exec_chain_lines by blast
qed

lemma global_specs:
  "(set_name family4 ''g'', False, V4 (GlobalSet st)) \<in> set (ipt_specs st)"
  "(set_name family6 ''g'', True, V6 (GlobalSet st)) \<in> set (ipt_specs st)"
  by (simp_all add: ipt_specs_def)

section \<open>What the kernel does to packets\<close>

definition matches :: "ipt_view \<Rightarrow> fw_state \<Rightarrow> bool" where
  "matches w st \<longleftrightarrow> has_sets w st \<and>
     (\<forall>v6 \<in> {False, True}. chain w v6 = Some (chain_rules v6 (sorted_uids (PerUser st))) \<and> 0 < jumps w v6)"

theorem matches_verdict:
  assumes "matches w st"
  shows "ipt_verdict w p \<longleftrightarrow> blocked st p"
proof -
  let ?us = "sorted_uids (PerUser st)" and ?v = "is_v6 p"
  have v: "?v \<in> {False, True}" by blast
  have c: "chain w ?v = Some (chain_rules ?v ?us)" "0 < jumps w ?v"
    using assms v unfolding matches_def by blast+
  have sets: "(n, v, as) \<in> set (ipt_specs st) \<Longrightarrow> ipsets w n = Some (default_kind v, set as)" for n v as
    using assms by (auto simp: matches_def has_sets_def)
  have g: "ipsets w (set_name (fam ?v) ''g'') = Some (default_kind ?v, set (family_of ?v (GlobalSet st)))"
    by (rule sets) (simp add: fam_def family_of_def ipt_specs_def)
  have u: "ipsets w (set_name (fam ?v) (uid_token u)) = Some (default_kind ?v, set (family_of ?v (ipset_at (PerUser st) u)))"
    if "u \<in> set ?us" for u
    by (rule sets) (use that in \<open>auto simp: fam_def family_of_def ipt_specs_def simp del: set_sorted_uids\<close>)
  have "list_ex (rule_drops w p) (map (\<lambda>u. OwnerDrop u (set_name (fam ?v) (uid_token u))) ?us)
      \<longleftrightarrow> daddr p \<in> set (family_of ?v (ipset_at (PerUser st) (skuid p)))"
  proof (cases "skuid p \<in> set ?us")
    case True
    then show ?thesis using u by (auto simp: default_kind_def list_ex_iff simp del: set_sorted_uids)
  next
    case False
    then have "ipset_at (PerUser st) (skuid p) = empty_ipset" by (rule ipset_at_notin)
    then show ?thesis using False
      by (auto simp: list_ex_iff family_of_def empty_ipset_def simp del: set_sorted_uids)
  qed
  then show ?thesis using c g by (simp add: default_kind_def ipt_verdict_def chain_rules_def blocked_def)
qed

end
