(* ===== verification/Iptables_Backend.thy ===== *)
theory Iptables_Backend
  imports Iptables_Text Iptables_Sets
begin

text \<open>
  \<open>iptablesBackend.Apply\<close> and \<open>Teardown\<close> against the documented behaviour of \<open>ipset\<close>,
  \<open>iptables\<close> and \<open>iptables-restore\<close>. A successful \<open>Apply\<close> enforces the state, so this too
  interprets the contract \<open>backend\<close>. A failed one forgets the remembered state; what it may
  have changed is limited: every set holds its old or its new addresses, every chain its old
  or its new rules. Teardown leaves the sets of others alone and removes all of ours.
\<close>

section \<open>The payloads are well formed\<close>

lemma plain_append: "plain s \<Longrightarrow> plain t \<Longrightarrow> plain (s @ t)"
  by (auto simp: plain_def)

lemma plain_token [simp]: "plain (uid_token u)" "plain ''g''"
  using plain_itoa [of u] by (auto simp: uid_token_def plain_def)

lemma plain_set_name [simp]:
  "plain t \<Longrightarrow> plain (set_name family4 t)" "plain t \<Longrightarrow> plain (set_name family6 t)"
  "plain t \<Longrightarrow> plain (set_name (fam v) t)"
  by (auto simp: set_name_def family4_def family6_def fam_def set_prefix_def plain_def)

lemma plain_tmp [simp]: "plain n \<Longrightarrow> plain (tmp_name n)"
  by (auto simp: tmp_name_def plain_def)

lemma ipt_specs_plain: "x \<in> set (ipt_specs st) \<Longrightarrow> plain (fst x)"
  by (auto simp: ipt_specs_def)

lemma plain_family_text: "plain (family_text v)"
  by (simp add: family_text_def plain_def)

lemma wf_refresh:
  assumes "wf_state st"
  shows "list_all wf_ipset_cmd (refresh_all_sets st (sorted_uids (PerUser st)))"
  unfolding refresh_blocks
proof (rule list_all_concat_map)
  fix x assume x: "x \<in> set (ipt_specs st)"
  then have "list_all (addr_text (fst (snd x))) (snd (snd x))"
    using ipt_specs_addrs(1) [OF assms, of "fst x" "fst (snd x)" "snd (snd x)"] by simp
  then have "list_all plain (snd (snd x))" by (auto simp: list_all_iff addr_plain)
  then show "list_all wf_ipset_cmd (refresh_block x)"
    using ipt_specs_plain [OF x] plain_family_text
    by (auto simp: refresh_block_def Let_def list_all_iff)
qed

lemma wf_set_delta:
  assumes "wf_state prev" "wf_state nxt"
  shows "list_all wf_ipset_cmd (build_set_delta prev nxt (sorted_uids (PerUser nxt)))"
  unfolding build_set_deltas
proof (rule list_all_concat_map)
  fix x assume x: "x \<in> set (set_deltas prev nxt)"
  have "wf_ipset (GlobalSet prev)" "wf_ipset (GlobalSet nxt)"
    "wf_ipset (ipset_at (PerUser prev) u)" "wf_ipset (ipset_at (PerUser nxt) u)" for u
    using assms wf_ipset_at by (auto simp: wf_state_def)
  then have "list_all (addr_text (fst (snd x))) (fst (snd (snd x)))"
    "list_all (addr_text (fst (snd x))) (snd (snd (snd x)))" "plain (fst x)"
    using x by (auto simp: set_deltas_def wf_ipset_def)
  then have "list_all plain (fst (snd (snd x)))" "list_all plain (snd (snd (snd x)))" "plain (fst x)"
    using addrs_plain by blast+
  then show "list_all wf_ipset_cmd (elem_delta x)"
    by (auto simp: elem_delta_def diff_strings_def list_all_iff)
qed

lemma wf_chain_lines: "wf_state st \<Longrightarrow> list_all wf_line (chain_lines (fam v6) (sorted_uids (PerUser st)))"
  using wf_state_uids [of st]
  by (fastforce simp: chain_lines_def list_all_iff kernel_uid_def go_int_def)

text \<open>What the backend can feed to the tools\<close>

definition ipset_input :: "bool \<Rightarrow> ipset_cmd list \<Rightarrow> bool" where
  "ipset_input ex cs \<longleftrightarrow>
     (if ex then
        (\<exists>prev st. wf_state prev \<and> wf_state st \<and> same_uids (PerUser prev) (PerUser st) \<and>
           cs = build_set_delta prev st (sorted_uids (PerUser st)))
      else (\<exists>st. wf_state st \<and> cs = refresh_all_sets st (sorted_uids (PerUser st))))"

definition chain_input :: "bool \<Rightarrow> chain_line list \<Rightarrow> bool" where
  "chain_input v6 ls \<longleftrightarrow> (\<exists>st. wf_state st \<and> ls = chain_lines (fam v6) (sorted_uids (PerUser st)))"

lemma refresh_input: "wf_state st \<Longrightarrow> ipset_input False (refresh_all_sets st (sorted_uids (PerUser st)))"
  by (auto simp: ipset_input_def)

lemma delta_input:
  "wf_state prev \<Longrightarrow> wf_state st \<Longrightarrow> same_uids (PerUser prev) (PerUser st) \<Longrightarrow>
   ipset_input True (build_set_delta prev st (sorted_uids (PerUser st)))"
  by (auto simp: ipset_input_def)

lemma chain_input_lines: "wf_state st \<Longrightarrow> chain_input v6 (chain_lines (fam v6) (sorted_uids (PerUser st)))"
  by (auto simp: chain_input_def)

lemma ipset_input_wf: "ipset_input ex cs \<Longrightarrow> list_all wf_ipset_cmd cs"
  using wf_refresh wf_set_delta by (auto simp: ipset_input_def split: if_splits)

lemma chain_input_wf: "chain_input v6 ls \<Longrightarrow> list_all wf_line ls"
  using wf_chain_lines by (auto simp: chain_input_def)

section \<open>The documented tools\<close>

text \<open>
  On what the backend feeds to them, \<open>ipset restore\<close> runs line by line: on success all lines took effect, on failure some first
  lines did. \<open>iptables-restore\<close> commits the table as a whole. \<open>-C\<close> changes nothing and
  succeeds only if the rule is there; the other invocations have their effect or none.
  \<open>view\<close> reads the sets and chains off the kernel state.
\<close>

definition restore_args :: "bool \<Rightarrow> string list" where
  "restore_args ex = (if ex then [''restore'', ''-exist''] else [''restore''])"

definition ipset_doc :: "'k tool \<Rightarrow> ('k \<Rightarrow> ipt_view) \<Rightarrow> bool" where
  "ipset_doc tool view \<longleftrightarrow>
     (\<forall>ex cs k k' ok. ipset_input ex cs \<and>
        tool ''ipset'' (restore_args ex) (ipset_payload cs) k = (k', ok) \<longrightarrow>
        (if ok then exec_sets ex cs (view k) = Some (view k')
         else (\<exists>i. exec_sets ex (take i cs) (view k) = Some (view k'))))"

definition set_chain :: "bool \<Rightarrow> ipt_rule list option \<Rightarrow> ipt_view \<Rightarrow> ipt_view" where
  "set_chain v6 c w = w\<lparr>chain := (chain w)(v6 := c)\<rparr>"

definition set_jumps :: "bool \<Rightarrow> nat \<Rightarrow> ipt_view \<Rightarrow> ipt_view" where
  "set_jumps v6 n w = w\<lparr>jumps := (jumps w)(v6 := n)\<rparr>"

definition chain_doc :: "'k tool \<Rightarrow> ('k \<Rightarrow> ipt_view) \<Rightarrow> bool" where
  "chain_doc tool view \<longleftrightarrow>
     (\<forall>v6 ls k k' ok. chain_input v6 ls \<and>
        tool (restore (fam v6)) [''--noflush''] (chain_payload ls) k = (k', ok) \<longrightarrow>
        (if ok then \<exists>c. exec_lines (view k) ls (chain (view k) v6) = Some c \<and> view k' = set_chain v6 c (view k)
         else view k' = view k))"

definition jump_args :: "string list" where
  "jump_args = [''OUTPUT'', ''-j'', ip_chain]"

definition jump_doc :: "'k tool \<Rightarrow> ('k \<Rightarrow> ipt_view) \<Rightarrow> bool" where
  "jump_doc tool view \<longleftrightarrow>
     (\<forall>v6 k k' ok. tool (cmd (fam v6)) (''-C'' # jump_args) [] k = (k', ok) \<longrightarrow>
        view k' = view k \<and> (ok \<longrightarrow> 0 < jumps (view k) v6)) \<and>
     (\<forall>v6 k k' ok. tool (cmd (fam v6)) [''-I'', ''OUTPUT'', ''1'', ''-j'', ip_chain] [] k = (k', ok) \<longrightarrow>
        view k' = (if ok then set_jumps v6 (Suc (jumps (view k) v6)) (view k) else view k))"

text \<open>The commands of \<open>Teardown\<close>: each has its effect or fails and has none.\<close>

definition removal_doc :: "'k tool \<Rightarrow> ('k \<Rightarrow> ipt_view) \<Rightarrow> bool" where
  "removal_doc tool view \<longleftrightarrow>
     (\<forall>v6 k k' ok. tool (cmd (fam v6)) (''-D'' # jump_args) [] k = (k', ok) \<longrightarrow>
        view k' = (if ok then set_jumps v6 (jumps (view k) v6 - 1) (view k) else view k)) \<and>
     (\<forall>v6 k k' ok. tool (cmd (fam v6)) [''-F'', ip_chain] [] k = (k', ok) \<longrightarrow>
        view k' = (if ok then set_chain v6 (Some []) (view k) else view k)) \<and>
     (\<forall>v6 k k' ok. tool (cmd (fam v6)) [''-X'', ip_chain] [] k = (k', ok) \<longrightarrow>
        view k' = (if ok then set_chain v6 None (view k) else view k)) \<and>
     (\<forall>n k k' ok. has_prefix n set_prefix \<and> tool ''ipset'' [''destroy'', n] [] k = (k', ok) \<longrightarrow>
        view k' = (if ok then (view k)\<lparr>ipsets := (ipsets (view k))(n := None)\<rparr> else view k))"

text \<open>What the backend keeps: the remembered state is well formed and in the kernel.\<close>

definition ipt_inv :: "('k \<Rightarrow> ipt_view) \<Rightarrow> 'k backend_state \<Rightarrow> bool" where
  "ipt_inv view b \<longleftrightarrow> (case fst b of None \<Rightarrow> True | Some st \<Rightarrow> wf_state st \<and> matches (view (snd b)) st)"

locale ipt_kernel =
  fixes tool :: "'k tool" and view :: "'k \<Rightarrow> ipt_view"
  assumes ipset_documented: "ipset_doc tool view"
    and chain_documented: "chain_doc tool view"
    and jump_documented: "jump_doc tool view"
    and removal_documented: "removal_doc tool view"
begin

lemma ipset_run:
  "ipset_input ex cs \<Longrightarrow> tool ''ipset'' (restore_args ex) (ipset_payload cs) k = (k', ok) \<Longrightarrow>
   if ok then exec_sets ex cs (view k) = Some (view k')
   else \<exists>i. exec_sets ex (take i cs) (view k) = Some (view k')"
  using ipset_documented unfolding ipset_doc_def by blast

lemma chain_run:
  "chain_input v6 ls \<Longrightarrow> tool (restore (fam v6)) [''--noflush''] (chain_payload ls) k = (k', ok) \<Longrightarrow>
   if ok then \<exists>c. exec_lines (view k) ls (chain (view k) v6) = Some c \<and> view k' = set_chain v6 c (view k)
   else view k' = view k"
  using chain_documented unfolding chain_doc_def by blast

lemma check_run:
  "tool (cmd (fam v6)) [''-C'', ''OUTPUT'', ''-j'', ip_chain] [] k = (k', ok) \<Longrightarrow>
   view k' = view k \<and> (ok \<longrightarrow> 0 < jumps (view k) v6)"
  using jump_documented unfolding jump_doc_def jump_args_def by blast

lemma insert_run:
  "tool (cmd (fam v6)) [''-I'', ''OUTPUT'', ''1'', ''-j'', ip_chain] [] k = (k', ok) \<Longrightarrow>
   view k' = (if ok then set_jumps v6 (Suc (jumps (view k) v6)) (view k) else view k)"
  using jump_documented unfolding jump_doc_def by blast

text \<open>Rebuilding one chain: done, or the old or the new rules\<close>

lemma rebuild_chain_cases:
  assumes "wf_state st" "rebuild_chain tool (fam v6) (sorted_uids (PerUser st)) k = (k', r)"
  defines "rs \<equiv> chain_rules v6 (sorted_uids (PerUser st))"
  shows "ipsets (view k') = ipsets (view k)"
    and "u \<noteq> v6 \<Longrightarrow> chain (view k') u = chain (view k) u \<and> jumps (view k') u = jumps (view k) u"
    and "r = None \<Longrightarrow> chain (view k') v6 = Some rs \<and> 0 < jumps (view k') v6"
    and "chain (view k') v6 = chain (view k) v6 \<or> chain (view k') v6 = Some rs"
    and "jumps (view k) v6 \<le> jumps (view k') v6"
proof -
  let ?ls = "chain_lines (fam v6) (sorted_uids (PerUser st))"
  obtain k1 o1 where 1: "tool (restore (fam v6)) [''--noflush''] (chain_payload ?ls) k = (k1, o1)"
    by (cases "tool (restore (fam v6)) [''--noflush''] (chain_payload ?ls) k") auto
  obtain k2 o2 where 2: "tool (cmd (fam v6)) [''-C'', ''OUTPUT'', ''-j'', ip_chain] [] k1 = (k2, o2)"
    by (cases "tool (cmd (fam v6)) [''-C'', ''OUTPUT'', ''-j'', ip_chain] [] k1") auto
  obtain k3 o3 where 3: "tool (cmd (fam v6)) [''-I'', ''OUTPUT'', ''1'', ''-j'', ip_chain] [] k2 = (k3, o3)"
    by (cases "tool (cmd (fam v6)) [''-I'', ''OUTPUT'', ''1'', ''-j'', ip_chain] [] k2") auto
  have v1: "view k1 = (if o1 then set_chain v6 (Some rs) (view k) else view k)"
    using chain_run [OF chain_input_lines [OF assms(1)] 1] exec_chain_lines unfolding rs_def by (auto split: if_splits)
  note v2 = check_run [OF 2] and v3 = insert_run [OF 3]
  have k': "k' = (if \<not> o1 then k1 else if o2 then k2 else k3)" "r = None \<longleftrightarrow> o1 \<and> (o2 \<or> o3)"
    using assms(2) 1 2 3 by (auto simp: rebuild_chain_def split: bool.splits)
  have w: "view k' = (if \<not> o1 then view k else if o2 \<or> \<not> o3 then set_chain v6 (Some rs) (view k)
      else set_jumps v6 (Suc (jumps (view k) v6)) (set_chain v6 (Some rs) (view k)))"
    using v1 v2 v3 by (auto simp: k' set_chain_def)
  have j: "o1 \<Longrightarrow> o2 \<Longrightarrow> 0 < jumps (view k) v6" using v1 v2 by (simp add: set_chain_def)
  show "ipsets (view k') = ipsets (view k)"
    "u \<noteq> v6 \<Longrightarrow> chain (view k') u = chain (view k) u \<and> jumps (view k') u = jumps (view k) u"
    "chain (view k') v6 = chain (view k) v6 \<or> chain (view k') v6 = Some rs"
    "jumps (view k) v6 \<le> jumps (view k') v6"
    "r = None \<Longrightarrow> chain (view k') v6 = Some rs \<and> 0 < jumps (view k') v6"
    using j k'(2) by (auto simp: w set_chain_def set_jumps_def)
qed

text \<open>The refresh: done, or every set old or new\<close>

lemma refresh_cases:
  assumes "wf_state st" "refresh_run tool st (sorted_uids (PerUser st)) k = (k', r)"
  shows "chain (view k') = chain (view k)" "jumps (view k') = jumps (view k)"
    and "r = None \<Longrightarrow> has_sets (view k') st"
    and "live (ipt_specs st) m \<Longrightarrow> old_or_new (ipt_specs st) (view k) (view k') m"
proof -
  let ?cs = "refresh_all_sets st (sorted_uids (PerUser st))"
  obtain ok where run: "tool ''ipset'' (restore_args False) (ipset_payload ?cs) k = (k', ok)" and r: "r = None \<longleftrightarrow> ok"
    using assms(2) by (auto simp: refresh_run_def restore_args_def split: prod.splits bool.splits)
  obtain i where i: "exec_sets False (take i ?cs) (view k) = Some (view k')"
    and fin: "ok \<longrightarrow> exec_sets False ?cs (view k) = Some (view k')"
    using ipset_run [OF refresh_input [OF assms(1)] run] by (cases ok) (auto intro: that [of "length ?cs"])
  show "chain (view k') = chain (view k)" "jumps (view k') = jumps (view k)"
    using exec_sets_frame [OF i] by auto
  show "r = None \<Longrightarrow> has_sets (view k') st"
    using fin r exec_refresh_all(1) [OF assms(1)] by blast
  show "live (ipt_specs st) m \<Longrightarrow> old_or_new (ipt_specs st) (view k) (view k') m"
    by (rule refresh_prefix [OF i [unfolded refresh_blocks]])
qed

lemma has_sets_cong: "ipsets w' = ipsets w \<Longrightarrow> has_sets w' st = has_sets w st"
  by (simp add: has_sets_def)

lemma old_or_new_cong: "ipsets w' = ipsets w'' \<Longrightarrow> old_or_new ss w w' m = old_or_new ss w w'' m"
  by (simp add: old_or_new_def)

lemma full_cases:
  assumes "wf_state st" "full_apply tool st (sorted_uids (PerUser st)) k = (k', r)"
  shows "r = None \<Longrightarrow> matches (view k') st"
    and "live (ipt_specs st) m \<Longrightarrow> old_or_new (ipt_specs st) (view k) (view k') m"
    and "chain (view k') v = chain (view k) v \<or>
      chain (view k') v = Some (chain_rules v (sorted_uids (PerUser st)))"
proof -
  let ?us = "sorted_uids (PerUser st)"
  obtain k1 r1 where 1: "refresh_run tool st ?us k = (k1, r1)" by (cases "refresh_run tool st ?us k") auto
  obtain k2 r2 where 2: "rebuild_chain tool (fam False) ?us k1 = (k2, r2)"
    by (cases "rebuild_chain tool (fam False) ?us k1") auto
  obtain k3 r3 where 3: "rebuild_chain tool (fam True) ?us k2 = (k3, r3)"
    by (cases "rebuild_chain tool (fam True) ?us k2") auto
  have k': "k' = (if r1 \<noteq> None then k1 else if r2 \<noteq> None then k2 else k3)"
    "r = None \<longleftrightarrow> r1 = None \<and> r2 = None \<and> r3 = None"
    using assms(2) 1 2 3 by (auto simp: full_apply_def fam_def split: option.splits)
  note c1 = refresh_cases [OF assms(1) 1] and c2 = rebuild_chain_cases [OF assms(1) 2] and c3 = rebuild_chain_cases [OF assms(1) 3]
  have s: "ipsets (view k') = ipsets (view k1)" using c2(1) c3(1) by (simp add: k')
  show "live (ipt_specs st) m \<Longrightarrow> old_or_new (ipt_specs st) (view k) (view k') m"
    using c1(4) by (simp add: old_or_new_cong [OF s])
  show "chain (view k') v = chain (view k) v \<or> chain (view k') v = Some (chain_rules v ?us)"
    using c1(1) c2(2) [of v] c2(4) c3(2) [of v] c3(4) by (cases v) (auto simp: k')
  show "matches (view k') st" if "r = None"
  proof -
    have "has_sets (view k') st" using c1(3) k'(2) that by (simp add: has_sets_cong [OF s])
    moreover have "k' = k3" "r2 = None" "r3 = None" using k' that by auto
    ultimately show ?thesis using c2(3) c3(2) [of False] c3(3) by (auto simp: matches_def)
  qed
qed

text \<open>The incremental path\<close>

lemma delta_ok:
  assumes "wf_state prev" "wf_state st" "same_uids (PerUser prev) (PerUser st)" "matches (view k) prev"
    and "exec_sets True (build_set_delta prev st (sorted_uids (PerUser st))) (view k) = Some (view k')"
  shows "matches (view k') st"
proof -
  have us: "sorted_uids (PerUser prev) = sorted_uids (PerUser st)"
    using assms(1-3) same_uids_sorted by (auto simp: wf_state_def)
  have "has_sets (view k) prev" using assms(4) by (simp add: matches_def)
  from exec_set_delta [OF assms(1-3) this assms(5)] show ?thesis
    using assms(4) by (simp add: matches_def us)
qed

lemma payload_Nil: "ipset_payload cs = [] \<longleftrightarrow> cs = []"
  by (cases cs) (auto simp: ipset_payload_def)

lemma ipt_full_cases:
  assumes "wf_state st" "ipt_full tool k st (sorted_uids (PerUser st)) = (b', r)"
  shows "(r = None \<and> fst b' = Some st \<and> matches (view (snd b')) st) \<or> (r \<noteq> None \<and> fst b' = None)"
proof -
  obtain k' r' where f: "full_apply tool st (sorted_uids (PerUser st)) k = (k', r')"
    by (cases "full_apply tool st (sorted_uids (PerUser st)) k") auto
  then show ?thesis using full_cases(1) [OF assms(1) f] assms(2)
    by (cases r') (auto simp: ipt_full_def)
qed

lemma ipt_apply_cases:
  assumes "ipt_inv view b" "wf_state st" "ipt_apply tool b st = (b', r)"
  shows "(r = None \<and> fst b' = Some st \<and> matches (view (snd b')) st) \<or> (r \<noteq> None \<and> fst b' = None)"
proof -
  let ?us = "sorted_uids (PerUser st)"
  obtain applied k where b: "b = (applied, k)" by (cases b) auto
  show ?thesis
  proof (cases "\<exists>prev. applied = Some prev \<and> same_uids (PerUser prev) (PerUser st)")
    case False
    then have "ipt_apply tool b st = ipt_full tool k st ?us"
      by (cases applied) (auto simp: ipt_apply_def b)
    then show ?thesis using ipt_full_cases [OF assms(2)] assms(3) by simp
  next
    case True
    then obtain prev where p: "applied = Some prev" "same_uids (PerUser prev) (PerUser st)" by blast
    have wp: "wf_state prev" "matches (view k) prev" using assms(1) b p by (auto simp: ipt_inv_def)
    let ?cs = "build_set_delta prev st ?us" and ?d = "ipset_payload (build_set_delta prev st ?us)"
    show ?thesis
    proof (cases "?cs = []")
      case empty: True
      then have "exec_sets True ?cs (view k) = Some (view k)" by simp
      from delta_ok [OF wp(1) assms(2) p(2) wp(2) this] show ?thesis
        using assms(3) b p empty by (auto simp: ipt_apply_def Let_def payload_Nil)
    next
      case ne: False
      obtain k' ok where run: "tool ''ipset'' (restore_args True) ?d k = (k', ok)"
        by (cases "tool ''ipset'' (restore_args True) ?d k") auto
      show ?thesis
      proof (cases ok)
        case True
        have "exec_sets True ?cs (view k) = Some (view k')"
          using ipset_run [OF delta_input [OF wp(1) assms(2) p(2)] run] True by simp
        from delta_ok [OF wp(1) assms(2) p(2) wp(2) this] show ?thesis
          using assms(3) b p ne run True by (auto simp: ipt_apply_def Let_def payload_Nil restore_args_def)
      next
        case False
        then have "ipt_apply tool b st = ipt_full tool k' st ?us"
          using b p ne run by (auto simp: ipt_apply_def Let_def payload_Nil restore_args_def)
        then show ?thesis using ipt_full_cases [OF assms(2)] assms(3) by simp
      qed
    qed
  qed
qed

end

sublocale ipt_kernel \<subseteq> ipt: backend "ipt_apply tool" "\<lambda>b. ipt_verdict (view (snd b))" "ipt_inv view"
proof unfold_locales
  fix b st b' r
  assume "ipt_inv view b" "wf_state st" "ipt_apply tool b st = (b', r)"
  from ipt_apply_cases [OF this] \<open>wf_state st\<close> show "ipt_inv view b'"
    by (auto simp: ipt_inv_def)
next
  fix b st b' p
  assume "ipt_inv view b" "wf_state st" "ipt_apply tool b st = (b', None)"
  from ipt_apply_cases [OF this] show "ipt_verdict (view (snd b')) p = blocked st p"
    by (auto simp: matches_verdict)
qed

end
