(* ===== verification/Iptables_Tools.thy ===== *)
theory Iptables_Tools
  imports Iptables_Backend
begin

text \<open>
  Teardown of the iptables backend, from the outcomes of its commands, which the source ignores; when a full apply
  cannot succeed; and the reference tools that interpret the locale \<open>ipt_kernel\<close>.
\<close>

section \<open>Teardown\<close>

text \<open>\<open>ipset list -n\<close> prints one name per line.\<close>

definition name_lines :: "string list \<Rightarrow> string" where
  "name_lines ns = concat (map (\<lambda>n. n @ [newline]) ns)"

definition clean_name :: "string \<Rightarrow> bool" where
  "clean_name n \<longleftrightarrow> n \<noteq> [] \<and> newline \<notin> set n \<and> trim_space n = n"

definition list_doc :: "('k \<Rightarrow> string option) \<Rightarrow> ('k \<Rightarrow> ipt_view) \<Rightarrow> bool" where
  "list_doc list_out view \<longleftrightarrow>
     (\<forall>k out. list_out k = Some out \<longrightarrow>
        (\<exists>ns. out = name_lines ns \<and> set ns = dom (ipsets (view k)) \<and> list_all clean_name ns))"

lemma list_ipsets_lines:
  assumes "list_out k = Some (name_lines ns)" "list_all clean_name ns"
  shows "list_ipsets list_out k = Some ns"
proof -
  have "split_on newline (name_lines ns) = ns @ [[]]"
    unfolding name_lines_def by (rule split_lines) (use assms(2) in \<open>auto simp: list_all_iff clean_name_def\<close>)
  moreover have "filter (\<lambda>l. l \<noteq> []) (map trim_space ns) = ns"
    using assms(2) by (induction ns) (auto simp: clean_name_def)
  ultimately show ?thesis using assms(1) by (simp add: list_ipsets_def)
qed

text \<open>
  The commands that \<open>Teardown\<close> runs through \<open>_ = run(...)\<close>, with their outcomes: the source does not look at these.
\<close>

type_synonym outcome = "string \<times> string list \<times> bool"

fun run_all :: "'k tool \<Rightarrow> (string \<times> string list) list \<Rightarrow> 'k \<Rightarrow> 'k \<times> outcome list" where
  "run_all tool [] k = (k, [])"
| "run_all tool ((prog, args) # cs) k =
     (case tool prog args [] k of (k1, ok) \<Rightarrow>
        case run_all tool cs k1 of (k2, os) \<Rightarrow> (k2, (prog, args, ok) # os))"

definition drop_cmds :: "family \<Rightarrow> (string \<times> string list) list" where
  "drop_cmds f = [(cmd f, ''-D'' # jump_args), (cmd f, [''-F'', ip_chain]), (cmd f, [''-X'', ip_chain])]"

definition destroy_cmds :: "string list \<Rightarrow> (string \<times> string list) list" where
  "destroy_cmds ns = map (\<lambda>n. (''ipset'', [''destroy'', n])) (filter (\<lambda>n. has_prefix n set_prefix) ns)"

definition chains_dropped :: "'k tool \<Rightarrow> 'k \<Rightarrow> outcome list \<times> 'k" where
  "chains_dropped tool k =
     (case run_all tool (drop_cmds family4) k of (k1, os1) \<Rightarrow>
        case run_all tool (drop_cmds family6) k1 of (k2, os2) \<Rightarrow> (os1 @ os2, k2))"

definition teardown_outcomes :: "'k tool \<Rightarrow> ('k \<Rightarrow> string option) \<Rightarrow> 'k \<Rightarrow> outcome list" where
  "teardown_outcomes tool list_out k =
     (case chains_dropped tool k of (os, k2) \<Rightarrow>
        os @ (case list_ipsets list_out k2 of None \<Rightarrow> [] | Some ns \<Rightarrow> snd (run_all tool (destroy_cmds ns) k2)))"

text \<open>What is left of a chain, and of the jumps to it\<close>

definition removed_chain :: "bool \<Rightarrow> outcome list \<Rightarrow> ipt_rule list option \<Rightarrow> ipt_rule list option" where
  "removed_chain v6 os c =
     (if (cmd (fam v6), [''-X'', ip_chain], True) \<in> set os then None
      else if (cmd (fam v6), [''-F'', ip_chain], True) \<in> set os then Some []
      else c)"

definition removed_jumps :: "bool \<Rightarrow> outcome list \<Rightarrow> nat \<Rightarrow> nat" where
  "removed_jumps v6 os j = (if (cmd (fam v6), ''-D'' # jump_args, True) \<in> set os then j - 1 else j)"

lemma drop_chain_run_all: "drop_chain tool f k = fst (run_all tool (drop_cmds f) k)"
  by (simp add: drop_chain_def drop_cmds_def Let_def jump_args_def split_beta)

lemma destroy_sets_run_all: "destroy_sets tool ns k = fst (run_all tool (destroy_cmds ns) k)"
  by (induction ns arbitrary: k) (simp_all add: destroy_cmds_def split_beta)

lemma run_all_cmds: "run_all tool cs k = (k', os) \<Longrightarrow> (prog, args) \<in> set cs \<longleftrightarrow> (\<exists>ok. (prog, args, ok) \<in> set os)"
  by (induction tool cs k arbitrary: k' os rule: run_all.induct) (auto split: prod.splits)

lemma fam_names: "family4 = fam False" "family6 = fam True"
  by (simp_all add: fam_def)

lemma fam_cmds [simp]: "cmd (fam v) = cmd (fam u) \<longleftrightarrow> v = u" "cmd (fam v) \<noteq> ''ipset''" "''ipset'' \<noteq> cmd (fam v)"
  by (auto simp: fam_def family4_def family6_def)

context ipt_kernel
begin

lemma delete_run:
  "view (fst (tool (cmd (fam v6)) [''-D'', ''OUTPUT'', ''-j'', ip_chain] [] k)) =
     (if snd (tool (cmd (fam v6)) [''-D'', ''OUTPUT'', ''-j'', ip_chain] [] k)
      then set_jumps v6 (jumps (view k) v6 - 1) (view k) else view k)"
  using removal_documented unfolding removal_doc_def jump_args_def by (metis prod.collapse)

lemma flush_run:
  "view (fst (tool (cmd (fam v6)) [''-F'', ip_chain] [] k)) =
     (if snd (tool (cmd (fam v6)) [''-F'', ip_chain] [] k) then set_chain v6 (Some []) (view k) else view k)"
  using removal_documented unfolding removal_doc_def by (metis prod.collapse)

lemma remove_run:
  "view (fst (tool (cmd (fam v6)) [''-X'', ip_chain] [] k)) =
     (if snd (tool (cmd (fam v6)) [''-X'', ip_chain] [] k) then set_chain v6 None (view k) else view k)"
  using removal_documented unfolding removal_doc_def by (metis prod.collapse)

lemma destroy_run:
  assumes "has_prefix n set_prefix"
  shows "view (fst (tool ''ipset'' [''destroy'', n] [] k)) =
     (if snd (tool ''ipset'' [''destroy'', n] [] k)
      then (view k)\<lparr>ipsets := (ipsets (view k))(n := None)\<rparr> else view k)"
proof -
  let ?r = "tool ''ipset'' [''destroy'', n] [] k"
  have "?r = (fst ?r, snd ?r)" by simp
  then show ?thesis using removal_documented assms unfolding removal_doc_def by blast
qed

lemma drop_outcomes_effect:
  assumes "run_all tool (drop_cmds (fam v6)) k = (k', os)"
  shows "ipsets (view k') = ipsets (view k)"
    and "u \<noteq> v6 \<Longrightarrow> chain (view k') u = chain (view k) u \<and> jumps (view k') u = jumps (view k) u"
    and "chain (view k') v6 = removed_chain v6 os (chain (view k) v6)"
    and "jumps (view k') v6 = removed_jumps v6 os (jumps (view k) v6)"
    and "\<exists>ok. (cmd (fam v6), [''-F'', ip_chain], ok) \<in> set os" "fst ` set os \<subseteq> {cmd (fam v6)}"
proof -
  let ?c = "cmd (fam v6)"
  obtain k1 o1 where 1: "tool ?c (''-D'' # jump_args) [] k = (k1, o1)" by (cases "tool ?c (''-D'' # jump_args) [] k")
  obtain k2 o2 where 2: "tool ?c [''-F'', ip_chain] [] k1 = (k2, o2)" by (cases "tool ?c [''-F'', ip_chain] [] k1")
  obtain k3 o3 where 3: "tool ?c [''-X'', ip_chain] [] k2 = (k3, o3)" by (cases "tool ?c [''-X'', ip_chain] [] k2")
  have k': "k' = k3" and os: "os = [(?c, ''-D'' # jump_args, o1), (?c, [''-F'', ip_chain], o2), (?c, [''-X'', ip_chain], o3)]"
    using assms 1 2 3 by (simp_all add: drop_cmds_def)
  have v1: "view k1 = (if o1 then set_jumps v6 (jumps (view k) v6 - 1) (view k) else view k)"
    using delete_run [of v6 k] 1 by (simp add: jump_args_def)
  have v2: "view k2 = (if o2 then set_chain v6 (Some []) (view k1) else view k1)" using flush_run [of v6 k1] 2 by simp
  have v3: "view k' = (if o3 then set_chain v6 None (view k2) else view k2)" using remove_run [of v6 k2] 3 k' by simp
  show "ipsets (view k') = ipsets (view k)"
    and "u \<noteq> v6 \<Longrightarrow> chain (view k') u = chain (view k) u \<and> jumps (view k') u = jumps (view k) u"
    and "chain (view k') v6 = removed_chain v6 os (chain (view k) v6)"
    and "jumps (view k') v6 = removed_jumps v6 os (jumps (view k) v6)"
    by (simp_all add: v1 v2 v3 os set_chain_def set_jumps_def removed_chain_def removed_jumps_def jump_args_def)
  show "\<exists>ok. (?c, [''-F'', ip_chain], ok) \<in> set os" "fst ` set os \<subseteq> {?c}" by (auto simp: os)
qed

lemma destroy_outcomes_effect:
  assumes "run_all tool (destroy_cmds ns) k = (k', os)"
  shows "chain (view k') = chain (view k) \<and> jumps (view k') = jumps (view k) \<and>
    ipsets (view k') m = (if (''ipset'', [''destroy'', m], True) \<in> set os then None else ipsets (view k) m)"
  using assms
proof (induction ns arbitrary: k os)
  case Nil
  then show ?case by (simp add: destroy_cmds_def)
next
  case (Cons n ns)
  show ?case
  proof (cases "has_prefix n set_prefix")
    case True
    obtain k1 ok where 1: "tool ''ipset'' [''destroy'', n] [] k = (k1, ok)" by (cases "tool ''ipset'' [''destroy'', n] [] k")
    obtain os1 where 2: "run_all tool (destroy_cmds ns) k1 = (k', os1)" and os: "os = (''ipset'', [''destroy'', n], ok) # os1"
      using Cons.prems True 1 by (auto simp: destroy_cmds_def split: prod.splits)
    have v1: "view k1 = (if ok then (view k)\<lparr>ipsets := (ipsets (view k))(n := None)\<rparr> else view k)"
      using destroy_run [OF True, of k] 1 by simp
    show ?thesis using Cons.IH [OF 2] by (auto simp: os v1)
  next
    case False
    then show ?thesis using Cons.IH [of k os] Cons.prems by (simp add: destroy_cmds_def)
  qed
qed

text \<open>
  What \<open>Teardown\<close> leaves, from the outcomes of its commands: whatever failed, nothing but ours is touched, and nothing
  is added. Every set of ours is on the list of those to be destroyed.
\<close>

lemma teardown_effect:
  assumes "list_doc list_out view" "ipt_teardown tool list_out b = (b', r)"
  defines "os \<equiv> teardown_outcomes tool list_out (snd b)"
  shows "fst b' = None" "r = None \<longleftrightarrow> list_ipsets list_out (snd (chains_dropped tool (snd b))) \<noteq> None"
    and "chain (view (snd b')) v = removed_chain v os (chain (view (snd b)) v)"
    and "jumps (view (snd b')) v = removed_jumps v os (jumps (view (snd b)) v)"
    and "ipsets (view (snd b')) m = (if (''ipset'', [''destroy'', m], True) \<in> set os then None else ipsets (view (snd b)) m)"
    and "(''ipset'', [''destroy'', m], ok) \<in> set os \<Longrightarrow> has_prefix m set_prefix"
    and "r = None \<Longrightarrow> has_prefix m set_prefix \<Longrightarrow> ipsets (view (snd b)) m \<noteq> None \<Longrightarrow>
      \<exists>ok. (''ipset'', [''destroy'', m], ok) \<in> set os"
    and "\<exists>ok. (cmd (fam v), [''-F'', ip_chain], ok) \<in> set os"
proof -
  obtain k1 o1 where 1: "run_all tool (drop_cmds (fam False)) (snd b) = (k1, o1)"
    by (cases "run_all tool (drop_cmds (fam False)) (snd b)")
  obtain k2 o2 where 2: "run_all tool (drop_cmds (fam True)) k1 = (k2, o2)" by (cases "run_all tool (drop_cmds (fam True)) k1")
  define ns where "ns = (case list_ipsets list_out k2 of None \<Rightarrow> [] | Some ns \<Rightarrow> ns)"
  obtain k3 o3 where 3: "run_all tool (destroy_cmds ns) k2 = (k3, o3)" by (cases "run_all tool (destroy_cmds ns) k2")
  have d: "chains_dropped tool (snd b) = (o1 @ o2, k2)" by (simp add: chains_dropped_def 1 2 fam_names)
  have os: "os = o1 @ o2 @ o3"
    using 3 by (auto simp: os_def teardown_outcomes_def d ns_def destroy_cmds_def split: option.splits)
  have dk: "drop_chain tool family6 (drop_chain tool family4 (snd b)) = k2" by (simp add: drop_chain_run_all fam_names 1 2)
  have b': "b' = (None, k3)" and r: "r = None \<longleftrightarrow> list_ipsets list_out k2 \<noteq> None"
    using assms(2) 3 by (auto simp: ipt_teardown_def Let_def dk ns_def destroy_sets_run_all destroy_cmds_def split: option.splits)
  note e1 = drop_outcomes_effect [OF 1] and e2 = drop_outcomes_effect [OF 2] and e3 = destroy_outcomes_effect [OF 3]
  have cmds: "(prog, args, ok) \<in> set o3 \<Longrightarrow> (prog, args) \<in> set (destroy_cmds ns)" for prog args ok
    using run_all_cmds [OF 3] by blast
  then have o3: "fst ` set o3 \<subseteq> {''ipset''}" by (fastforce simp: destroy_cmds_def)
  show "fst b' = None" "r = None \<longleftrightarrow> list_ipsets list_out (snd (chains_dropped tool (snd b))) \<noteq> None"
    using b' r d by simp_all
  have sel: "x \<in> set os \<longleftrightarrow> x \<in> set o1" if "fst x = cmd (fam False)" for x
    using that e2(6) o3 by (auto simp: os)
  have sel6: "x \<in> set os \<longleftrightarrow> x \<in> set o2" if "fst x = cmd (fam True)" for x
    using that e1(6) o3 by (auto simp: os)
  have sel3: "x \<in> set os \<longleftrightarrow> x \<in> set o3" if "fst x = ''ipset''" for x
    using that e1(6) e2(6) by (auto simp: os)
  show "chain (view (snd b')) v = removed_chain v os (chain (view (snd b)) v)"
    using e1(2) [of True] e1(3) e2(2) [of False] e2(3) e3 sel sel6 by (cases v) (simp_all add: b' removed_chain_def)
  show "jumps (view (snd b')) v = removed_jumps v os (jumps (view (snd b)) v)"
    using e1(2) [of True] e1(4) e2(2) [of False] e2(4) e3 sel sel6 by (cases v) (simp_all add: b' removed_jumps_def)
  show "ipsets (view (snd b')) m = (if (''ipset'', [''destroy'', m], True) \<in> set os then None else ipsets (view (snd b)) m)"
    using e1(1) e2(1) e3 [of m] sel3 by (simp add: b')
  show "has_prefix m set_prefix" if "(''ipset'', [''destroy'', m], ok) \<in> set os"
    using that sel3 [of "(''ipset'', [''destroy'', m], ok)"] cmds [of "''ipset''" "[''destroy'', m]"] by (auto simp: destroy_cmds_def)
  show "\<exists>ok. (''ipset'', [''destroy'', m], ok) \<in> set os" if m: "r = None" "has_prefix m set_prefix" "ipsets (view (snd b)) m \<noteq> None"
  proof -
    obtain out where out: "list_out k2 = Some out" using m(1) r by (auto simp: list_ipsets_def split: option.splits)
    then obtain ls where ls: "out = name_lines ls" "set ls = dom (ipsets (view k2))" "list_all clean_name ls"
      using assms(1) unfolding list_doc_def by blast
    then have "list_ipsets list_out k2 = Some ls" by (intro list_ipsets_lines) (use out in auto)
    then have "m \<in> set ns" using m(3) ls(2) e1(1) e2(1) by (auto simp: ns_def)
    then have "(''ipset'', [''destroy'', m]) \<in> set (destroy_cmds ns)" using m(2) by (simp add: destroy_cmds_def)
    then obtain ok where "(''ipset'', [''destroy'', m], ok) \<in> set o3" using run_all_cmds [OF 3] by blast
    then show ?thesis by (auto simp: os)
  qed
  show "\<exists>ok. (cmd (fam v), [''-F'', ip_chain], ok) \<in> set os"
    using e1(5) e2(5) by (cases v) (auto simp: os)
qed

text \<open>What is blocked afterwards was blocked before, and the chain of its family could not be emptied.\<close>

lemma teardown_verdict:
  assumes "list_doc list_out view" "ipt_teardown tool list_out b = (b', r)" "ipt_verdict (view (snd b')) p"
  shows "ipt_verdict (view (snd b)) p"
    and "(cmd (fam (is_v6 p)), [''-F'', ip_chain], False) \<in> set (teardown_outcomes tool list_out (snd b))"
proof -
  let ?os = "teardown_outcomes tool list_out (snd b)" and ?v = "is_v6 p"
  note e = teardown_effect [OF assms(1,2)]
  have nx: "(cmd (fam ?v), [''-X'', ip_chain], True) \<notin> set ?os" and nf: "(cmd (fam ?v), [''-F'', ip_chain], True) \<notin> set ?os"
    using assms(3) e(3) [of ?v] by (auto simp: ipt_verdict_def removed_chain_def split: if_splits option.splits)
  then show "(cmd (fam ?v), [''-F'', ip_chain], False) \<in> set ?os" using e(8) [of ?v] by (metis (full_types))
  have c: "chain (view (snd b')) ?v = chain (view (snd b)) ?v" using e(3) [of ?v] nx nf by (simp add: removed_chain_def)
  have j: "jumps (view (snd b')) ?v \<le> jumps (view (snd b)) ?v" using e(4) [of ?v] by (simp add: removed_jumps_def)
  have "rule_drops (view (snd b')) p x \<Longrightarrow> rule_drops (view (snd b)) p x" for x
    using e(5) [of "rule_set x"] by (cases x) (auto split: if_splits)
  then show "ipt_verdict (view (snd b)) p" using assms(3) c j
    by (auto simp: ipt_verdict_def list_ex_iff split: option.splits)
qed

text \<open>If all its commands succeed, nothing of ours is left.\<close>

lemma teardown_all_succeeded:
  assumes "list_doc list_out view" "ipt_teardown tool list_out b = (b', None)"
    and "\<forall>(prog, args, ok) \<in> set (teardown_outcomes tool list_out (snd b)). ok"
  shows "chain (view (snd b')) v = None" "has_prefix m set_prefix \<Longrightarrow> ipsets (view (snd b')) m = None"
proof -
  let ?os = "teardown_outcomes tool list_out (snd b)"
  note e = teardown_effect [OF assms(1,2)]
  have "\<exists>ok. (cmd (fam v), [''-X'', ip_chain], ok) \<in> set ?os"
    by (cases v) (auto simp: teardown_outcomes_def chains_dropped_def fam_names drop_cmds_def split: prod.splits)
  then have "(cmd (fam v), [''-X'', ip_chain], True) \<in> set ?os" using assms(3) by fastforce
  then show "chain (view (snd b')) v = None" using e(3) [of v] by (simp add: removed_chain_def)
  show "ipsets (view (snd b')) m = None" if pre: "has_prefix m set_prefix"
  proof (cases "ipsets (view (snd b)) m = None")
    case False
    then obtain ok where "(''ipset'', [''destroy'', m], ok) \<in> set ?os" using e(7) [OF refl pre False] by blast
    then have "(''ipset'', [''destroy'', m], True) \<in> set ?os" using assms(3) by fastforce
    then show ?thesis using e(5) [of m] by simp
  qed (use e(5) [of m] in simp)
qed

text \<open>A full apply gets through the sets exactly if the payload can be executed.\<close>

lemma unrefreshable_fails:
  assumes "wf_state st" "\<exists>s \<in> set (ipt_specs st). \<not> refreshable (view k) s"
  shows "snd (full_apply tool st (sorted_uids (PerUser st)) k) \<noteq> None"
proof -
  let ?us = "sorted_uids (PerUser st)"
  have "exec_sets False (refresh_all_sets st ?us) (view k) = None"
    using assms(2) refresh_all_iff [OF assms(1)] by blast
  then have "\<not> snd (tool ''ipset'' (restore_args False) (ipset_payload (refresh_all_sets st ?us)) k)"
    using ipset_run [OF refresh_input [OF assms(1)]] by (metis option.distinct(1) prod.collapse)
  then show ?thesis
    by (auto simp: full_apply_def refresh_run_def restore_args_def split: prod.splits bool.splits)
qed

end

section \<open>Reference tools\<close>

text \<open>
  Tools that read their input back and act on the sets and chains; \<open>broken\<close> says which
  invocations fail for reasons of their own.
\<close>

fun exec_upto :: "bool \<Rightarrow> ipset_cmd list \<Rightarrow> ipt_view \<Rightarrow> ipt_view \<times> bool" where
  "exec_upto ex [] w = (w, True)"
| "exec_upto ex (c # cs) w = (case exec_set ex c w of None \<Rightarrow> (w, False) | Some w' \<Rightarrow> exec_upto ex cs w')"

definition ipset_reference :: "string list \<Rightarrow> string \<Rightarrow> ipt_view \<Rightarrow> ipt_view \<times> bool" where
  "ipset_reference args stdin w =
     (if args = restore_args False \<or> args = restore_args True then
        (case parse_lines parse_ipset stdin of
           None \<Rightarrow> (w, False)
         | Some cs \<Rightarrow> exec_upto (args = restore_args True) cs w)
      else if length args = 2 \<and> hd args = ''destroy'' then exec_upto False [DestroySet (last args)] w
      else (w, False))"

definition chain_reference :: "bool \<Rightarrow> string \<Rightarrow> ipt_view \<Rightarrow> ipt_view \<times> bool" where
  "chain_reference v6 stdin w =
     (case parse_chain_payload stdin of
        None \<Rightarrow> (w, False)
      | Some ls \<Rightarrow>
          (case exec_lines w ls (chain w v6) of None \<Rightarrow> (w, False) | Some c \<Rightarrow> (set_chain v6 c w, True)))"

definition rule_reference :: "bool \<Rightarrow> string list \<Rightarrow> ipt_view \<Rightarrow> ipt_view \<times> bool" where
  "rule_reference v6 args w =
     (if args = ''-C'' # jump_args then (w, 0 < jumps w v6)
      else if args = [''-I'', ''OUTPUT'', ''1'', ''-j'', ip_chain] then
        (if chain w v6 = None then (w, False) else (set_jumps v6 (Suc (jumps w v6)) w, True))
      else if args = ''-D'' # jump_args then
        (if 0 < jumps w v6 then (set_jumps v6 (jumps w v6 - 1) w, True) else (w, False))
      else if args = [''-F'', ip_chain] then
        (if chain w v6 = None then (w, False) else (set_chain v6 (Some []) w, True))
      else if args = [''-X'', ip_chain] then
        (if chain w v6 = Some [] \<and> jumps w v6 = 0 then (set_chain v6 None w, True) else (w, False))
      else (w, False))"

definition ipt_reference :: "(string \<Rightarrow> string list \<Rightarrow> string \<Rightarrow> bool) \<Rightarrow> ipt_view tool" where
  "ipt_reference broken prog args stdin w =
     (if broken prog args stdin then (w, False)
      else if prog = ''ipset'' then ipset_reference args stdin w
      else if prog = ''iptables-restore'' \<and> args = [''--noflush''] then chain_reference False stdin w
      else if prog = ''ip6tables-restore'' \<and> args = [''--noflush''] then chain_reference True stdin w
      else if prog = ''iptables'' then rule_reference False args w
      else if prog = ''ip6tables'' then rule_reference True args w
      else (w, False))"

lemma exec_upto_cases:
  "exec_upto ex cs w = (w', ok) \<Longrightarrow>
   if ok then exec_sets ex cs w = Some w' else exec_sets ex cs w = None \<and> (\<exists>i. exec_sets ex (take i cs) w = Some w')"
proof (induction cs arbitrary: w)
  case (Cons c cs)
  show ?case
  proof (cases "exec_set ex c w")
    case None
    then show ?thesis using Cons.prems by (auto intro: exI [of _ 0])
  next
    case (Some w1)
    then have "exec_upto ex cs w1 = (w', ok)" using Cons.prems by simp
    note ih = Cons.IH [OF this]
    show ?thesis
    proof (cases ok)
      case False
      then obtain i where "exec_sets ex (take i cs) w1 = Some w'" using ih by auto
      then have "exec_sets ex (take (Suc i) (c # cs)) w = Some w'" using Some by simp
      then have "\<exists>i. exec_sets ex (take i (c # cs)) w = Some w'" by blast
      then show ?thesis using False ih Some by simp
    qed (use ih Some in simp)
  qed
qed simp

lemma ref_ipset_doc: "ipset_doc (ipt_reference broken) (\<lambda>w. w)"
  unfolding ipset_doc_def
proof (intro allI impI, elim conjE)
  fix ex cs k k' ok
  assume "ipset_input ex cs"
    and run: "ipt_reference broken ''ipset'' (restore_args ex) (ipset_payload cs) k = (k', ok)"
  note wf = ipset_input_wf [OF \<open>ipset_input ex cs\<close>]
  show "if ok then exec_sets ex cs k = Some k' else \<exists>i. exec_sets ex (take i cs) k = Some k'"
  proof (cases "broken ''ipset'' (restore_args ex) (ipset_payload cs)")
    case True
    then show ?thesis using run by (auto simp: ipt_reference_def intro: exI [of _ 0])
  next
    case False
    then have "exec_upto ex cs k = (k', ok)"
      using run wf by (cases ex)
        (simp_all add: ipt_reference_def ipset_reference_def parse_ipset_payload restore_args_def)
    from exec_upto_cases [OF this] show ?thesis by (auto split: if_splits)
  qed
qed

lemma fam_sel [simp]:
  "restore (fam v6) = (if v6 then ''ip6tables-restore'' else ''iptables-restore'')"
  "cmd (fam v6) = (if v6 then ''ip6tables'' else ''iptables'')"
  by (simp_all add: fam_def family4_def family6_def)

lemma ref_chain: "ipt_reference broken (restore (fam v6)) [''--noflush''] stdin w =
    (if broken (restore (fam v6)) [''--noflush''] stdin then (w, False) else chain_reference v6 stdin w)"
  by (simp add: ipt_reference_def)

lemma ref_rule: "ipt_reference broken (cmd (fam v6)) args stdin w =
    (if broken (cmd (fam v6)) args stdin then (w, False) else rule_reference v6 args w)"
  by (simp add: ipt_reference_def)

lemma ref_chain_doc: "chain_doc (ipt_reference broken) (\<lambda>w. w)"
  unfolding chain_doc_def ref_chain
  by (auto simp: chain_reference_def parse_chain_text chain_input_wf split: if_splits option.splits)

lemma ref_jump_doc: "jump_doc (ipt_reference broken) (\<lambda>w. w)"
  unfolding jump_doc_def ref_rule
  by (auto simp: rule_reference_def jump_args_def split: if_splits)

lemma ref_destroy:
  "ipt_reference broken ''ipset'' [''destroy'', n] stdin w =
    (if broken ''ipset'' [''destroy'', n] stdin \<or> ipsets w n = None \<or> in_use w n then (w, False)
     else (w\<lparr>ipsets := (ipsets w)(n := None)\<rparr>, True))"
  by (auto simp: ipt_reference_def ipset_reference_def restore_args_def split: option.splits)

lemma ref_removal_doc: "removal_doc (ipt_reference broken) (\<lambda>w. w)"
  unfolding removal_doc_def ref_rule ref_destroy
  by (auto simp: rule_reference_def jump_args_def split: if_splits)

interpretation ipt_ref: ipt_kernel "ipt_reference broken" "\<lambda>w. w" for broken
  by unfold_locales (rule ref_ipset_doc ref_chain_doc ref_jump_doc ref_removal_doc)+

end
