(* ===== verification/Engine_Contract.thy ===== *)
theory Engine_Contract
  imports Engine_Spec Nft_Backend Iptables_Tools
begin

text \<open>
  The engine over any backend that keeps its contract: a successful rebuild makes the kernel
  block exactly what the lists on disk and the cache say, every operation keeps the engine's
  invariant, and the lists change as the request asks or not at all. The locale
  \<open>engine_parts\<close> extends the contract \<open>backend\<close>; it is interpreted on both backends.
\<close>

section \<open>What should be blocked\<close>

text \<open>Addresses of the global list for everyone, those of a user's list for that user\<close>

definition desired :: "disk \<Rightarrow> cache \<Rightarrow> packet \<Rightarrow> bool" where
  "desired d c p \<longleftrightarrow>
     listed c (global_list d) (is_v6 p) (daddr p) \<or>
     (go_int (skuid p) \<and> listed c (user_list d (skuid p)) (is_v6 p) (daddr p))"

text \<open>Only uids that the kernel can have carry entries.\<close>

definition disk_uids_ok :: "disk \<Rightarrow> bool" where
  "disk_uids_ok d \<longleftrightarrow> (\<forall>u. go_int u \<and> \<not> kernel_uid u \<longrightarrow> user_list d u = empty_blocklist)"

definition engine_inv :: "('b \<Rightarrow> bool) \<Rightarrow> 'b engine \<Rightarrow> bool" where
  "engine_inv be_inv eng \<longleftrightarrow>
     wf_disk (disk_of eng) \<and> disk_uids_ok (disk_of eng) \<and> wf_cache (cache eng) \<and> be_inv (be_state eng)"

text \<open>The name service answers with well-formed addresses.\<close>

definition world_ok :: "world \<Rightarrow> bool" where
  "world_ok w \<longleftrightarrow> (\<forall>d r. answers w d = Inr r \<longrightarrow> wf_resolved r)"

lemma resolve_world: "(\<forall>d ips. lookup d = Inr ips \<longrightarrow> list_all wf_ip ips) \<Longrightarrow> answers w = resolve lookup \<Longrightarrow> world_ok w"
  using resolve_spec(3) by (fastforce simp: world_ok_def resolve_def split: sum.splits)

lemma desired_loaded:
  assumes "load_all io d = Inr (global, ulists)" "wf_disk d" "iteration_order ord"
  shows "blocked (build_state ord c global ulists) p \<longleftrightarrow> desired d c p"
proof -
  note l = load_all_spec [OF assms(1,2)]
  have "(\<exists>bl. map_of ulists (skuid p) = Some bl \<and> listed c bl (is_v6 p) (daddr p)) \<longleftrightarrow>
      go_int (skuid p) \<and> listed c (user_list d (skuid p)) (is_v6 p) (daddr p)"
    using l(3) [of "skuid p"] l(4) [of "skuid p"] by (cases "map_of ulists (skuid p)") auto
  then show ?thesis by (simp add: build_state_blocked [OF assms(3) l(2)] desired_def l(1))
qed

lemma loaded_uids:
  assumes "load_all io d = Inr (global, ulists)" "wf_disk d" "disk_uids_ok d"
  shows "\<forall>(u, bl) \<in> set ulists. bl = empty_blocklist \<or> kernel_uid u"
proof -
  note l = load_all_spec [OF assms(1,2)]
  have "bl = empty_blocklist \<or> kernel_uid u" if "(u, bl) \<in> set ulists" for u bl
    using l(3) [of u bl] map_of_is_SomeI [OF l(2) that] assms(3) by (auto simp: disk_uids_ok_def)
  then show ?thesis by blast
qed

text \<open>A scope that the kernel knows, as \<open>GlobalScope\<close> and \<open>UserScope\<close> make them\<close>

definition scope_ok :: "scope \<Rightarrow> bool" where
  "scope_ok s \<longleftrightarrow> (if Global s then UID s = 0 else kernel_uid (UID s))"

lemma scope_ok_go: "scope_ok s \<Longrightarrow> go_int (UID s)"
  by (auto simp: scope_ok_def kernel_uid_def go_int_def split: if_splits)

section \<open>The engine over a backend\<close>

locale engine_parts = backend "be_apply cfg" verdict inv
  for cfg :: "'b engine_cfg" and verdict :: "'b \<Rightarrow> packet \<Rightarrow> bool" and inv :: "'b \<Rightarrow> bool" +
  assumes order: "iteration_order (map_order cfg)"
begin

text \<open>Whatever lists are applied, the backend ends up enforcing them.\<close>

lemma build_and_apply_any:
  assumes "engine_inv inv eng" "distinct (map fst ulists)"
    and "\<forall>(u, bl) \<in> set ulists. bl = empty_blocklist \<or> kernel_uid u"
    and "build_and_apply cfg global ulists eng = (eng', r)"
  shows "engine_inv inv eng'" "disk_of eng' = disk_of eng"
    and "r = None \<Longrightarrow> verdict (be_state eng') p \<longleftrightarrow> blocked (build_state (map_order cfg) (cache eng') global ulists) p"
proof -
  let ?c = "prune (wanted_domains global ulists) (cache eng)"
  let ?st = "build_state (map_order cfg) ?c global ulists"
  obtain b q where b: "be_apply cfg (be_state eng) ?st = (b, q)" by (cases "be_apply cfg (be_state eng) ?st") auto
  have eng': "eng' = eng\<lparr>cache := ?c, be_state := b\<rparr>" "r = map_option BackendFailed q"
    using assms(4) b by (auto simp: build_and_apply_def Let_def)
  have i: "wf_disk (disk_of eng)" "disk_uids_ok (disk_of eng)" "wf_cache ?c" "inv (be_state eng)"
    using assms(1) wf_prune by (auto simp: engine_inv_def)
  have wf: "wf_state ?st" by (rule wf_build_state [OF order i(3) assms(2,3)])
  show "engine_inv inv eng'" "disk_of eng' = disk_of eng"
    using i apply_inv [OF i(4) wf b] by (simp_all add: eng' engine_inv_def)
  show "r = None \<Longrightarrow> verdict (be_state eng') p \<longleftrightarrow> blocked (build_state (map_order cfg) (cache eng') global ulists) p"
    using apply_enforces [OF i(4) wf, of b p] b eng' by simp
qed

lemma build_and_apply_ok:
  assumes "load_all io (disk_of eng) = Inr (global, ulists)" "engine_inv inv eng"
    and "build_and_apply cfg global ulists eng = (eng', r)"
  shows "engine_inv inv eng'" "r = None \<Longrightarrow> verdict (be_state eng') p \<longleftrightarrow> desired (disk_of eng') (cache eng') p"
proof -
  have i: "wf_disk (disk_of eng)" "disk_uids_ok (disk_of eng)" using assms(2) by (auto simp: engine_inv_def)
  note any = build_and_apply_any [OF assms(2) load_all_spec(2) [OF assms(1) i(1)] loaded_uids [OF assms(1) i] assms(3)]
  show "engine_inv inv eng'" by (rule any(1))
  show "verdict (be_state eng') p \<longleftrightarrow> desired (disk_of eng') (cache eng') p" if "r = None"
    using any(3) [OF that] desired_loaded [OF assms(1) i(1) order] by (simp add: any(2))
qed

theorem rebuild_ok:
  assumes "engine_inv inv eng" "world_ok w" "rebuild cfg w mode eng = (eng', r)"
  shows "engine_inv inv eng'" "r = None \<Longrightarrow> verdict (be_state eng') p \<longleftrightarrow> desired (disk_of eng') (cache eng') p"
proof -
  have wfr: "wf_cache (store_results fresh rs (cache eng))" if "resolve_many (answers w) todo = (rs, fs)" for fresh todo rs fs
    using resolve_many_results [OF that] assms(1,2)
    by (intro wf_store_results) (fastforce simp: engine_inv_def world_ok_def)+
  have "engine_inv inv eng' \<and> (r = None \<longrightarrow> verdict (be_state eng') p \<longleftrightarrow> desired (disk_of eng') (cache eng') p)"
    using assms(3)
  proof (cases rule: rebuild_cases)
    case (no_load e)
    then show ?thesis using assms(1) by simp
  next
    case (fast global ulists)
    then show ?thesis using build_and_apply_ok [OF fast(1) assms(1) fast(3)] by simp
  next
    case (no_reload global ulists todo rs fs e)
    then show ?thesis using wfr [OF no_reload(3)] assms(1) by (simp add: engine_inv_def)
  next
    case (slow global ulists todo rs fs global' ulists' evs)
    let ?eng = "eng\<lparr>cache := store_results (now_second w + ttl cfg) rs (cache eng), log := evs\<rparr>"
    have "load_all (io_second w) (disk_of ?eng) = Inr (global', ulists')" using slow(4) by simp
    moreover have "engine_inv inv ?eng" using wfr [OF slow(3)] assms(1) by (simp add: engine_inv_def)
    ultimately show ?thesis using build_and_apply_ok [of "io_second w" ?eng] slow(5) by blast
  qed
  then show "engine_inv inv eng'" "r = None \<Longrightarrow> verdict (be_state eng') p \<longleftrightarrow> desired (disk_of eng') (cache eng') p"
    by blast+
qed

text \<open>An address stays blocked while the lookups of its domain fail.\<close>

theorem failed_lookup_ok:
  assumes "engine_inv inv eng" "world_ok w" "rebuild cfg w mode eng = (eng', None)"
    and "d \<in> set (Domains (global_list (disk_of eng))) \<or>
      go_int (skuid p) \<and> d \<in> set (Domains (user_list (disk_of eng) (skuid p)))"
    and "answers w d = Inl e" "map_of (cache eng) d = Some entry" "daddr p \<in> set (cached_addrs (is_v6 p) (res entry))"
  shows "verdict (be_state eng') p"
proof -
  have wf: "wf_disk (disk_of eng)" using assms(1) by (simp add: engine_inv_def)
  have disk: "disk_of eng' = disk_of eng" by (rule rebuild_disk [OF assms(3)])
  have "wanted_on (disk_of eng) d" using assms(4) by (auto simp: wanted_on_def)
  then have "map_of (cache eng') d = Some entry"
    using rebuild_cache [OF assms(3) order wf] assms(5,6) by (simp add: expected_cache_def)
  then have "listed (cache eng') bl (is_v6 p) (daddr p)" if "d \<in> set (Domains bl)" for bl
    using that assms(7) by (auto simp: listed_def)
  then have "desired (disk_of eng') (cache eng') p" using assms(4) by (auto simp: desired_def disk)
  then show ?thesis using rebuild_ok(2) [OF assms(1-3)] by simp
qed

lemma mutate_disk_inv:
  assumes "mutate io d s fn = (d', q)" "wf_disk d" "disk_uids_ok d" "scope_ok s" "temp_digits io"
  shows "wf_disk d' \<and> disk_uids_ok d'"
proof
  show "wf_disk d'" using fs_store.mutate_inv [OF assms(1,2) scope_ok_go [OF assms(4)] assms(5)] .
  show "disk_uids_ok d'" unfolding disk_uids_ok_def
  proof (intro allI impI, elim conjE)
    fix u assume u: "go_int u" "\<not> kernel_uid u"
    then have "\<not> same_scope s (UserScope u)" using assms(4) by (auto simp: scope_ok_def)
    then have "content d' (UserScope u) = content d (UserScope u)" by (rule fs_store.mutate_frame [OF assms(1)])
    then have "user_list d' u = user_list d u" by (simp add: user_list_def)
    then show "user_list d' u = empty_blocklist" using assms(3) u by (simp add: disk_uids_ok_def)
  qed
qed

theorem change_ok:
  assumes "engine_inv inv eng" "world_ok w" "scope_ok s" "temp_digits io"
    and "change_entries cfg io w s fn eng = (eng', n, m, r)"
  shows "engine_inv inv eng'" "r = None \<Longrightarrow> verdict (be_state eng') p \<longleftrightarrow> desired (disk_of eng') (cache eng') p"
proof -
  obtain d q where mu: "mutate io (disk_of eng) s fn = (d, q)" by (cases "mutate io (disk_of eng) s fn") auto
  have "wf_disk d \<and> disk_uids_ok d"
    by (rule mutate_disk_inv [OF mu _ _ assms(3,4)]) (use assms(1) in \<open>auto simp: engine_inv_def\<close>)
  then have i: "engine_inv inv (eng\<lparr>disk_of := d\<rparr>)" using assms(1) by (simp add: engine_inv_def)
  show "engine_inv inv eng'"
    using assms(5) i rebuild_ok(1) [OF i assms(2)]
    by (auto simp: change_entries_def mu split: sum.splits prod.splits)
  show "r = None \<Longrightarrow> verdict (be_state eng') p \<longleftrightarrow> desired (disk_of eng') (cache eng') p"
    using assms(5) rebuild_ok(2) [OF i assms(2)]
    by (auto simp: change_entries_def mu split: sum.splits prod.splits)
qed

end

section \<open>Requests and refreshes over time\<close>

datatype operation = AddReq scope "string list" "string list" | RemoveReq scope "string list" "string list"
  | RefreshReq resolve_mode

fun run_request :: "'b engine_cfg \<Rightarrow> store_io \<times> world \<times> operation \<Rightarrow> 'b engine \<Rightarrow> 'b engine \<times> engine_error option" where
  "run_request cfg (io, w, AddReq s ds is) eng = (case add_entries cfg io w s ds is eng of (eng', n, m, r) \<Rightarrow> (eng', r))"
| "run_request cfg (io, w, RemoveReq s ds is) eng = (case remove_entries cfg io w s ds is eng of (eng', n, m, r) \<Rightarrow> (eng', r))"
| "run_request cfg (io, w, RefreshReq mode) eng = rebuild cfg w mode eng"

fun run_requests :: "'b engine_cfg \<Rightarrow> (store_io \<times> world \<times> operation) list \<Rightarrow> 'b engine \<Rightarrow> 'b engine" where
  "run_requests cfg [] eng = eng"
| "run_requests cfg (q # qs) eng = run_requests cfg qs (fst (run_request cfg q eng))"

fun request_ok :: "store_io \<times> world \<times> operation \<Rightarrow> bool" where
  "request_ok (io, w, AddReq s ds is) \<longleftrightarrow> world_ok w \<and> scope_ok s \<and> temp_digits io"
| "request_ok (io, w, RemoveReq s ds is) \<longleftrightarrow> world_ok w \<and> scope_ok s \<and> temp_digits io"
| "request_ok (io, w, RefreshReq mode) \<longleftrightarrow> world_ok w"

context engine_parts
begin

lemma run_request_ok:
  assumes "engine_inv inv eng" "request_ok q" "run_request cfg q eng = (eng', r)"
  shows "engine_inv inv eng'" "r = None \<Longrightarrow> verdict (be_state eng') p \<longleftrightarrow> desired (disk_of eng') (cache eng') p"
proof -
  have "engine_inv inv eng' \<and> (r = None \<longrightarrow> verdict (be_state eng') p \<longleftrightarrow> desired (disk_of eng') (cache eng') p)"
  proof (cases "(cfg, q, eng)" rule: run_request.cases)
    case (1 cfg' io w s ds xs eng0)
    then show ?thesis using assms change_ok [of eng w s io "add_fn ds xs"]
      by (auto simp: add_entries_def split: prod.splits)
  next
    case (2 cfg' io w s ds xs eng0)
    then show ?thesis using assms change_ok [of eng w s io "remove_fn ds xs"]
      by (auto simp: remove_entries_def split: prod.splits)
  next
    case (3 cfg' io w mode eng0)
    then show ?thesis using assms rebuild_ok [of eng w mode] by auto
  qed
  then show "engine_inv inv eng'" "r = None \<Longrightarrow> verdict (be_state eng') p \<longleftrightarrow> desired (disk_of eng') (cache eng') p"
    by blast+
qed

lemma run_requests_inv:
  "engine_inv inv eng \<Longrightarrow> \<forall>q \<in> set qs. request_ok q \<Longrightarrow> engine_inv inv (run_requests cfg qs eng)"
proof (induction qs arbitrary: eng)
  case (Cons q qs)
  obtain eng1 r1 where q: "run_request cfg q eng = (eng1, r1)" by (cases "run_request cfg q eng") auto
  have "engine_inv inv eng1" using run_request_ok(1) [OF Cons.prems(1) _ q] Cons.prems(2) by simp
  then show ?case using Cons q by simp
qed simp

text \<open>Whatever happened before, a request or refresh that succeeds leaves the kernel right.\<close>

theorem requests_enforce:
  assumes "engine_inv inv eng" "\<forall>q \<in> set (qs @ [q]). request_ok q"
    and "run_request cfg q (run_requests cfg qs eng) = (eng', None)"
  shows "verdict (be_state eng') p \<longleftrightarrow> desired (disk_of eng') (cache eng') p"
  using run_request_ok(2) [OF run_requests_inv [OF assms(1)] _ assms(3)] assms(2) by simp

end

section \<open>What a request does to the lists\<close>

lemma add_fn_spec:
  assumes "add_fn ds is bl = Inr (bl', n, m)"
  shows "set (Domains bl') = (set (Domains bl) \<union> set ds) - {[]}" "set (IPs bl') = (set (IPs bl) \<union> set is) - {[]}"
    and "n = card (set ds - set (Domains bl))" "m = card (set is - set (IPs bl))" "wf_blocklist bl'"
proof -
  obtain xs ys where x: "add_unique (Domains bl) ds = (xs, n)" and y: "add_unique (IPs bl) is = (ys, m)"
    and bl': "bl' = \<lparr>Domains = xs, IPs = ys\<rparr>"
    using assms by (auto simp: add_fn_def AddDomains_def AddIPs_def split: prod.splits)
  show "set (Domains bl') = (set (Domains bl) \<union> set ds) - {[]}" "set (IPs bl') = (set (IPs bl) \<union> set is) - {[]}"
    "n = card (set ds - set (Domains bl))" "m = card (set is - set (IPs bl))"
    using add_unique_spec [OF x] add_unique_spec [OF y] by (simp_all add: bl')
  show "wf_blocklist bl'" using wf_list_add_unique [OF x] wf_list_add_unique [OF y] by (simp add: bl' wf_blocklist_def)
qed

lemma remove_fn_spec:
  assumes "remove_fn ds is bl = Inr (bl', n, m)" "wf_blocklist bl"
  shows "set (Domains bl') = set (Domains bl) - set ds" "set (IPs bl') = set (IPs bl) - set is"
    and "n = card (set (Domains bl) \<inter> set ds)" "m = card (set (IPs bl) \<inter> set is)" "wf_blocklist bl'"
proof -
  obtain xs ys where x: "remove_all (Domains bl) ds = (xs, n)" and y: "remove_all (IPs bl) is = (ys, m)"
    and bl': "bl' = \<lparr>Domains = xs, IPs = ys\<rparr>"
    using assms by (auto simp: remove_fn_def RemoveDomains_def RemoveIPs_def split: prod.splits)
  show "set (Domains bl') = set (Domains bl) - set ds" "set (IPs bl') = set (IPs bl) - set is"
    "n = card (set (Domains bl) \<inter> set ds)" "m = card (set (IPs bl) \<inter> set is)"
    using remove_all_spec [OF x] remove_all_spec [OF y] assms(2)
    by (auto simp: bl' wf_blocklist_def wf_list_def)
  show "wf_blocklist bl'" using wf_list_remove_all [OF x] wf_list_remove_all [OF y] by (simp add: bl' wf_blocklist_def)
qed

lemma list_fns_total:
  "\<exists>bl' n m. add_fn ds is bl = Inr (bl', n, m)" "\<exists>bl' n m. remove_fn ds is bl = Inr (bl', n, m)"
  by (simp_all add: add_fn_def remove_fn_def split: prod.split)

text \<open>
  Either the request failed before anything was stored, or the scope has the changed list and
  the others are as before; this holds even if applying it then fails.
\<close>

theorem change_entries_cases:
  assumes "change_entries cfg io w s fn eng = (eng', n, m, r)"
  shows "((\<forall>t. content (disk_of eng') t = content (disk_of eng) t) \<and> n = 0 \<and> m = 0 \<and> r \<noteq> None \<and>
      cache eng' = cache eng \<and> be_state eng' = be_state eng) \<or>
    (\<exists>bl bl'. content (disk_of eng) s = Some bl \<and> fn bl = Inr (bl', n, m) \<and>
      (\<forall>t. content (disk_of eng') t = (if same_scope s t then Some (tidy bl') else content (disk_of eng) t)))"
proof -
  obtain d q where mu: "mutate io (disk_of eng) s fn = (d, q)" by (cases "mutate io (disk_of eng) s fn") auto
  show ?thesis
  proof (cases q)
    case (Inl e)
    then show ?thesis using assms fs_store.mutate_fail [OF mu [unfolded Inl]]
      by (auto simp: change_entries_def mu)
  next
    case (Inr nm)
    obtain eng1 r1 where rb: "rebuild cfg w ResolveMissing (eng\<lparr>disk_of := d\<rparr>) = (eng1, r1)"
      by (cases "rebuild cfg w ResolveMissing (eng\<lparr>disk_of := d\<rparr>)") auto
    have "nm = (n, m)" "eng' = eng1" using assms Inr rb by (auto simp: change_entries_def mu split: prod.splits)
    then show ?thesis using fs_store.mutate_get [OF mu [unfolded Inr]] rebuild_disk [OF rb] by auto
  qed
qed

section \<open>Uids that the kernel does not know\<close>

text \<open>
  If a list with an address is stored for a uid outside the kernel's range, no rebuild over
  nftables succeeds any more, for any caller and also at the start of the daemon.
\<close>

lemma build_bad_uid:
  assumes "nft_kernel tool rules" "be_apply cfg = nft_apply tool" "iteration_order (map_order cfg)"
    and "wf_disk (disk_of eng)" "wf_cache (cache eng)" "nft_inv rules (be_state eng)"
    and "go_int u" "\<not> kernel_uid u" "ip \<in> set (IPs (user_list (disk_of eng) u))" "parse_ip ip \<noteq> None"
    and "load_all io (disk_of eng) = Inr (global, ulists)"
  shows "snd (build_and_apply cfg global ulists eng) \<noteq> None"
proof -
  let ?c = "prune (wanted_domains global ulists) (cache eng)"
  let ?st = "build_state (map_order cfg) ?c global ulists"
  note l = load_all_spec [OF assms(11,4)] and ord = assms(3)
  have wc: "wf_cache ?c" by (rule wf_prune [OF assms(5)])
  obtain bl where bl: "map_of ulists u = Some bl" "ip \<in> set (IPs bl)"
    using l(3,4) [of u] assms(7,9) by (cases "map_of ulists u") (auto simp: empty_blocklist_def)
  obtain x where x: "parse_ip ip = Some x" using assms(10) by blast
  have "listed ?c bl (to4 x = None) (ip_string x)" using bl(2) x by (auto simp: listed_def)
  then have "ip_string x \<in> set (family_of (to4 x = None) (ip_set_for (map_order cfg) ?c bl))"
    by (simp add: ip_set_for_spec(1) [OF ord])
  then have "family_of (to4 x = None) (ip_set_for (map_order cfg) ?c bl) \<noteq> []" by force
  then have "\<not> Empty (ip_set_for (map_order cfg) ?c bl)" unfolding Empty_family by blast
  then have "map_of (PerUser ?st) u \<noteq> None" using bl(1) by (simp add: built_users [OF l(2)])
  then have u: "u \<in> fst ` set (PerUser ?st)" by (simp add: map_of_eq_None_iff)
  have "go_int v" if "v \<in> fst ` set (PerUser ?st)" for v
  proof -
    have "v \<in> fst ` set ulists" using that built_keys by blast
    then obtain bv where "map_of ulists v = Some bv" using map_of_eq_None_iff [of ulists v] by auto
    then show ?thesis using l(3) by blast
  qed
  moreover have "wf_sets ?st"
    using wf_ip_set_for [OF ord wc] by (auto simp: wf_sets_def build_state_def)
  ultimately have "snd (nft_apply tool (be_state eng) ?st) = Some NftFailed"
    using nft_kernel.apply_bad_uid [OF assms(1,6) _ _ distinct_built [OF l(2)] u assms(8)] by blast
  then show ?thesis using assms(2) by (auto simp: build_and_apply_def Let_def split: prod.split)
qed

theorem rebuild_bad_uid:
  assumes "nft_kernel tool rules" "be_apply cfg = nft_apply tool" "iteration_order (map_order cfg)"
    and "wf_disk (disk_of eng)" "wf_cache (cache eng)" "nft_inv rules (be_state eng)" "world_ok w"
    and "go_int u" "\<not> kernel_uid u" "ip \<in> set (IPs (user_list (disk_of eng) u))" "parse_ip ip \<noteq> None"
  shows "snd (rebuild cfg w mode eng) \<noteq> None"
proof -
  obtain eng' r where rb: "rebuild cfg w mode eng = (eng', r)" by (cases "rebuild cfg w mode eng")
  have "r \<noteq> None" using rb
  proof (cases rule: rebuild_cases)
    case (fast global ulists)
    then show ?thesis using build_bad_uid [OF assms(1-6,8-11) fast(1)] by simp
  next
    case (slow global ulists todo rs fs global' ulists' evs)
    let ?eng = "eng\<lparr>cache := store_results (now_second w + ttl cfg) rs (cache eng), log := evs\<rparr>"
    have "wf_cache (cache ?eng)"
      using resolve_many_results [OF slow(3)] assms(5,7)
      by (auto simp: world_ok_def intro!: wf_store_results)
    then show ?thesis
      using build_bad_uid [OF assms(1-3), of ?eng u ip "io_second w" global' ulists'] assms slow by simp
  qed simp_all
  then show ?thesis using rb by simp
qed

section \<open>Both backends\<close>

definition nft_cfg :: "(string \<Rightarrow> bool) \<Rightarrow> nft_tbl option backend_state engine_cfg" where
  "nft_cfg broken = new_engine
     \<lparr>be_apply = nft_apply (nft_reference broken), map_order = (\<lambda>xs. xs), concurrency = 16, ttl = 15 * minute\<rparr>"

definition ipt_cfg :: "(string \<Rightarrow> string list \<Rightarrow> string \<Rightarrow> bool) \<Rightarrow> ipt_view backend_state engine_cfg" where
  "ipt_cfg broken = new_engine
     \<lparr>be_apply = ipt_apply (ipt_reference broken), map_order = (\<lambda>xs. xs), concurrency = 16, ttl = 15 * minute\<rparr>"

lemma cfg_sel [simp]:
  "be_apply (nft_cfg broken) = nft_apply (nft_reference broken)" "map_order (nft_cfg broken) = (\<lambda>xs. xs)"
  "be_apply (ipt_cfg broken') = ipt_apply (ipt_reference broken')" "map_order (ipt_cfg broken') = (\<lambda>xs. xs)"
  "ttl (nft_cfg broken) = 15 * minute" "ttl (ipt_cfg broken') = 15 * minute"
  by (simp_all add: nft_cfg_def ipt_cfg_def new_engine_def minute_def second_def)

text \<open>The engine over a backend is the engine over any tools that behave as documented.\<close>

lemma engine_partsI: "backend (be_apply cfg) verdict be_inv \<Longrightarrow> iteration_order (map_order cfg) \<Longrightarrow> engine_parts cfg verdict be_inv"
  by (simp add: engine_parts_def engine_parts_axioms_def)

context nft_kernel
begin

lemma nft_parts:
  "be_apply cfg = nft_apply tool \<Longrightarrow> iteration_order (map_order cfg) \<Longrightarrow>
   engine_parts cfg (\<lambda>b. nft_verdict (rules (snd b))) (nft_inv rules)"
  using nft.backend_axioms by (intro engine_partsI) simp_all

end

context ipt_kernel
begin

lemma ipt_parts:
  "be_apply cfg = ipt_apply tool \<Longrightarrow> iteration_order (map_order cfg) \<Longrightarrow>
   engine_parts cfg (\<lambda>b. ipt_verdict (view (snd b))) (ipt_inv view)"
  using ipt.backend_axioms by (intro engine_partsI) simp_all

end

interpretation nft_engine: engine_parts "nft_cfg broken" "\<lambda>b. nft_verdict (snd b)" "nft_inv (\<lambda>tb. tb)" for broken
  by (rule nft_ref.nft_parts) simp_all

interpretation ipt_engine: engine_parts "ipt_cfg broken" "\<lambda>b. ipt_verdict (snd b)" "ipt_inv (\<lambda>w. w)" for broken
  by (rule ipt_ref.ipt_parts) simp_all

end
