(* ===== verification/Validate.thy ===== *)
theory Validate
  imports Go_IP
begin

text \<open>
  \<open>internal/validate/validate.go\<close>: the limits, the normalisation of a pasted URL to a host
  name, the check of a host name, and the normalisation of an address. The lemmas show that
  the check accepts exactly the grammar \<open>hostname\<close>, that an accepted host name is left alone
  by normalisation, which host a URL is reduced to, and that normalised addresses are equal
  exactly when they denote the same address.
\<close>

section \<open>Limits and errors\<close>

definition max_items_per_request :: nat where "max_items_per_request = 256"
definition max_domain_len :: nat where "max_domain_len = 253"
definition max_label_len :: nat where "max_label_len = 63"

text \<open>
  The error values of the package, one constructor per \<open>fmt.Errorf\<close>, with its operands.
  \<open>BadCharacter d r\<close> holds the rest \<open>r\<close> of the label from the offending rune on.
\<close>

datatype validate_error =
    EmptyDomain
  | DomainTooLong string
  | IsIPAddress string
  | TooFewLabels string
  | EmptyLabel string
  | LabelTooLong string
  | LabelHyphen string
  | BadCharacter string string
  | InvalidIP string

section \<open>Normalising a domain\<close>

definition strip_scheme :: "string \<Rightarrow> string" where
  "strip_scheme d = (case index_of d ''://'' of Some i \<Rightarrow> drop (i + 3) d | None \<Rightarrow> d)"

definition strip_userinfo :: "string \<Rightarrow> string" where
  "strip_userinfo d = (case last_index_of d ''@'' of Some i \<Rightarrow> drop (i + 1) d | None \<Rightarrow> d)"

definition cut_at :: "string \<Rightarrow> string \<Rightarrow> string" where
  "cut_at d sep = (case index_of d sep of Some i \<Rightarrow> take i d | None \<Rightarrow> d)"

definition strip_port :: "string \<Rightarrow> string" where
  "strip_port d =
     (if \<not> contains d '':'' \<or> count_byte CHR '':'' d = 1
      then (case last_index_of d '':'' of Some i \<Rightarrow> take i d | None \<Rightarrow> d)
      else d)"

definition normalize_domain :: "(string \<Rightarrow> string) \<Rightarrow> string \<Rightarrow> string" where
  "normalize_domain unicode_lower inp =
     (let d = trim_space inp in
      if d = [] then []
      else
        let d = to_lower unicode_lower d;
            d = strip_scheme d;
            d = strip_userinfo d;
            d = foldl cut_at d [''/'', ''?'', ''#''];
            d = strip_port d
        in trim_suffix d ''.'')"

section \<open>Checking a domain\<close>

fun first_bad :: "string \<Rightarrow> string option" where
  "first_bad [] = None"
| "first_bad (c # s) =
     (if is_lower c \<or> is_digit c \<or> c = CHR ''-'' then first_bad s else Some (c # s))"

definition validate_label :: "string \<Rightarrow> string \<Rightarrow> validate_error option" where
  "validate_label l d =
     (if l = [] then Some (EmptyLabel d)
      else if max_label_len < length l then Some (LabelTooLong d)
      else if has_prefix l ''-'' \<or> has_suffix l ''-'' then Some (LabelHyphen d)
      else (case first_bad l of Some r \<Rightarrow> Some (BadCharacter d r) | None \<Rightarrow> None))"

definition validate_domain :: "string \<Rightarrow> validate_error option" where
  "validate_domain d =
     (if d = [] then Some EmptyDomain
      else if max_domain_len < length d then Some (DomainTooLong d)
      else if parse_ip d \<noteq> None then Some (IsIPAddress d)
      else
        let labels = split_on CHR ''.'' d in
        if length labels < 2 then Some (TooFewLabels d)
        else try_all (\<lambda>l. validate_label l d) labels)"

section \<open>Normalising an address\<close>

definition normalize_ip :: "string \<Rightarrow> validate_error + string \<times> bool" where
  "normalize_ip inp =
     (case parse_ip (trim_space inp) of
        None \<Rightarrow> Inl (InvalidIP inp)
      | Some a \<Rightarrow>
          (case to4 a of
             Some q \<Rightarrow> Inr (ip_string q, False)
           | None \<Rightarrow> Inr (ip_string a, True)))"

section \<open>The grammar of host names\<close>

text \<open>
  The reference: at least two labels of 1 to 63 letters, digits and inner hyphens, joined by
  dots, at most 253 bytes in all, and not the text of an address.
\<close>

definition label_ok :: "string \<Rightarrow> bool" where
  "label_ok l \<longleftrightarrow> l \<noteq> [] \<and> length l \<le> max_label_len \<and> hd l \<noteq> CHR ''-'' \<and> last l \<noteq> CHR ''-''
     \<and> (\<forall>c \<in> set l. is_lower c \<or> is_digit c \<or> c = CHR ''-'')"

definition hostname :: "string \<Rightarrow> bool" where
  "hostname d \<longleftrightarrow>
     (\<exists>labels. d = join ''.'' labels \<and> 2 \<le> length labels \<and> (\<forall>l \<in> set labels. label_ok l))
     \<and> length d \<le> max_domain_len \<and> parse_ip d = None"

lemma first_bad_None: "first_bad l = None \<longleftrightarrow> (\<forall>c \<in> set l. is_lower c \<or> is_digit c \<or> c = CHR ''-'')"
  by (induction l) auto

lemma hyphen_ends:
  "l \<noteq> [] \<Longrightarrow> has_prefix l ''-'' \<longleftrightarrow> hd l = CHR ''-''"
  "l \<noteq> [] \<Longrightarrow> has_suffix l ''-'' \<longleftrightarrow> last l = CHR ''-''"
  by (cases l; simp) (cases l rule: rev_cases; simp add: has_suffix_def)

lemma validate_label_None: "validate_label l d = None \<longleftrightarrow> label_ok l"
  using first_bad_None [of l] hyphen_ends [of l]
  by (auto simp: validate_label_def label_ok_def split: option.splits)

lemma label_ok_no_dot: "label_ok l \<Longrightarrow> CHR ''.'' \<notin> set l"
  by (auto simp: label_ok_def is_lower_def is_digit_def)

lemma label_ok_host: "label_ok l \<Longrightarrow> c \<in> set l \<Longrightarrow> host_char c"
  by (auto simp: label_ok_def host_char_def)

lemma validate_domain_labels:
  "validate_domain d = None \<longleftrightarrow>
     length d \<le> max_domain_len \<and> parse_ip d = None \<and>
     2 \<le> length (split_on CHR ''.'' d) \<and> (\<forall>l \<in> set (split_on CHR ''.'' d). label_ok l)"
  by (auto simp: validate_domain_def Let_def try_all_None_iff validate_label_None)

lemma validate_domain_hostname: "validate_domain d = None \<longleftrightarrow> hostname d"
proof
  assume "validate_domain d = None"
  then show "hostname d"
    unfolding validate_domain_labels hostname_def by (metis join_split)
next
  assume h: "hostname d"
  then obtain ls where ls: "d = join ''.'' ls" "2 \<le> length ls" "\<forall>l \<in> set ls. label_ok l"
    by (auto simp: hostname_def)
  then have "split_on CHR ''.'' d = ls"
    using split_join [of ls "CHR ''.''"] label_ok_no_dot by force
  then show "validate_domain d = None"
    using h ls by (simp add: validate_domain_labels hostname_def)
qed

lemma valid_domain_chars: "validate_domain d = None \<Longrightarrow> list_all host_char d"
proof -
  assume "validate_domain d = None"
  then have "\<forall>l \<in> set (split_on CHR ''.'' d). label_ok l" by (simp add: validate_domain_labels)
  moreover have "host_char CHR ''.''" by (simp add: host_char_def)
  ultimately show ?thesis
    using split_on_dots_set [of d "CHR ''.''"] label_ok_host by (fastforce simp: list_all_iff)
qed

lemma valid_domain_not_Nil: "validate_domain d = None \<Longrightarrow> d \<noteq> []"
  by (auto simp: validate_domain_def)

lemma split_on_snoc_sep: "split_on c (s @ [c]) = split_on c s @ [[]]"
  by (induction s) (auto split: list.splits)

lemma valid_domain_no_final_dot: "validate_domain d = None \<Longrightarrow> \<not> has_suffix d ''.''"
proof
  assume v: "validate_domain d = None" and "has_suffix d ''.''"
  then obtain t where "d = t @ ''.''" by (auto simp: has_suffix_iff)
  then have "[] \<in> set (split_on CHR ''.'' d)" by (simp only: split_on_snoc_sep) simp
  then show False using v by (auto simp: validate_domain_labels label_ok_def)
qed

section \<open>Accepted domains are fixed points of normalisation\<close>

lemma host_char_not [simp]:
  "\<not> host_char CHR '':''" "\<not> host_char CHR ''/''" "\<not> host_char CHR ''@''"
  "\<not> host_char CHR ''?''" "\<not> host_char CHR ''#''" "\<not> host_char CHR '' ''"
  by (simp_all add: host_char_def is_lower_def is_digit_def)

lemma cut_at_none: "c \<notin> set d \<Longrightarrow> cut_at d [c] = d"
  by (auto simp: cut_at_def split: option.splits) (metis index_of_byte_None option.distinct(1))

lemma strip_port_none: "CHR '':'' \<notin> set d \<Longrightarrow> strip_port d = d"
  using last_index_of_byte_None [of d "CHR '':''"] by (auto simp: strip_port_def split: option.splits)

lemma strip_scheme_none: "CHR '':'' \<notin> set d \<Longrightarrow> strip_scheme d = d"
  by (simp add: strip_scheme_def index_of_None_multi)

lemma strip_userinfo_none: "CHR ''@'' \<notin> set d \<Longrightarrow> strip_userinfo d = d"
  using last_index_of_byte_None [of d "CHR ''@''"] by (auto simp: strip_userinfo_def split: option.splits)

lemma trim_suffix_none: "\<not> has_suffix s p \<Longrightarrow> trim_suffix s p = s"
  by (simp add: trim_suffix_def)

lemma host_chars_absent: "list_all host_char d \<Longrightarrow> \<not> host_char c \<Longrightarrow> c \<notin> set d"
  by (auto simp: list_all_iff)

lemma normalize_domain_valid:
  assumes v: "validate_domain d = None"
  shows "normalize_domain u d = d"
proof -
  have h: "list_all host_char d" using v by (rule valid_domain_chars)
  note absent = host_chars_absent [OF h]
  show ?thesis
    using trim_space_host [OF h] to_lower_host [OF h, of u] valid_domain_no_final_dot [OF v]
    by (simp add: normalize_domain_def Let_def strip_scheme_none strip_userinfo_none cut_at_none
        strip_port_none trim_suffix_none absent)
qed

section \<open>The host of a URL\<close>

lemma index_of_scheme:
  "CHR '':'' \<notin> set s \<Longrightarrow> index_of (s @ ''://'' @ r) ''://'' = Some (length s)"
  by (induction s) auto

lemma last_index_of_append:
  "c \<notin> set r \<Longrightarrow> last_index_of (s @ c # r) [c] = Some (length s)"
proof (induction s)
  case Nil
  then show ?case using last_index_of_byte_None [of r c] by (auto split: option.splits)
qed auto

lemma index_of_byte_append: "c \<notin> set s \<Longrightarrow> index_of (s @ c # r) [c] = Some (length s)"
  by (induction s) auto

lemma cut_at_append: "c \<notin> set s \<Longrightarrow> cut_at (s @ c # r) [c] = s"
  by (simp add: cut_at_def index_of_byte_append)

lemma strip_scheme_append: "CHR '':'' \<notin> set s \<Longrightarrow> strip_scheme (s @ ''://'' @ r) = r"
  using index_of_scheme [of s r] by (simp add: strip_scheme_def)

lemma strip_userinfo_append: "CHR ''@'' \<notin> set r \<Longrightarrow> strip_userinfo (s @ CHR ''@'' # r) = r"
  by (simp add: strip_userinfo_def last_index_of_append)

lemma count_byte_append: "count_byte c (s @ t) = count_byte c s + count_byte c t"
  by (simp add: count_byte_def)

lemma count_byte_absent: "c \<notin> set s \<Longrightarrow> count_byte c s = 0"
  by (auto simp: count_byte_def filter_empty_conv)

lemma strip_port_append:
  "CHR '':'' \<notin> set d \<Longrightarrow> CHR '':'' \<notin> set p \<Longrightarrow> strip_port (d @ CHR '':'' # p) = d"
  by (auto simp: strip_port_def last_index_of_append count_byte_def filter_empty_conv)

lemma lower_byte_ascii: "is_ascii c \<Longrightarrow> is_ascii (lower_byte c)"
  by (auto simp: is_ascii_def lower_byte_def is_upper_def)

lemma lower_byte_eq:
  assumes "\<not> is_lower d" "\<not> is_upper d"
  shows "lower_byte c = d \<longleftrightarrow> c = d"
proof (cases "is_upper c")
  case True
  then have "byte_of (lower_byte c) = byte_of c + 32" by (auto simp: lower_byte_def is_upper_def)
  then have "is_lower (lower_byte c)" using True by (auto simp: is_lower_def is_upper_def)
  then show ?thesis using assms True by auto
qed (simp add: lower_byte_def)

lemma lower_absent: "\<not> is_lower d \<Longrightarrow> \<not> is_upper d \<Longrightarrow> d \<notin> set s \<Longrightarrow> d \<notin> set (map lower_byte s)"
  using lower_byte_eq by force

text \<open>The parts of a URL: what may stand before and after the host\<close>

definition url_part :: "string \<Rightarrow> bool" where
  "url_part s \<longleftrightarrow> (\<forall>c \<in> set s. 32 < byte_of c \<and> byte_of c < 127)"

definition url_userinfo :: "string \<Rightarrow> bool" where
  "url_userinfo s \<longleftrightarrow> s = [] \<or> (url_part s \<and> last s = CHR ''@'')"

definition url_port :: "string \<Rightarrow> bool" where
  "url_port s \<longleftrightarrow> s = [] \<or> (hd s = CHR '':'' \<and> list_all is_digit (tl s))"

definition url_tail :: "string \<Rightarrow> bool" where
  "url_tail s \<longleftrightarrow> s = [] \<or>
     (url_part s \<and> (hd s = CHR ''/'' \<or> hd s = CHR ''?'' \<or> hd s = CHR ''#'') \<and> CHR ''@'' \<notin> set s)"

lemma url_part_append [simp]: "url_part (s @ t) \<longleftrightarrow> url_part s \<and> url_part t"
  by (auto simp: url_part_def)

lemma url_part_trim: "url_part s \<Longrightarrow> trim_space s = s"
  by (rule trim_space_solid) (auto simp: url_part_def intro: ascii_print_solid)

lemma url_part_lower: "url_part s \<Longrightarrow> to_lower u s = map lower_byte s"
  by (auto simp: to_lower_def url_part_def is_ascii_def list_all_iff)

lemma takeWhile_first: "c \<notin> set a \<Longrightarrow> takeWhile (\<lambda>x. x \<noteq> c) (a @ c # b) = a"
  by (induction a) auto

lemma cut_tail:
  assumes "CHR ''/'' \<notin> set h" "CHR ''?'' \<notin> set h" "CHR ''#'' \<notin> set h"
    and "t = [] \<or> hd t = CHR ''/'' \<or> hd t = CHR ''?'' \<or> hd t = CHR ''#''"
  shows "foldl cut_at (h @ t) [''/'', ''?'', ''#''] = h"
proof -
  have cut: "cut_at (h @ t') [c] = (if c \<in> set t' then h @ takeWhile (\<lambda>x. x \<noteq> c) t' else h @ t')"
    if "c \<notin> set h" for c t'
  proof (cases "c \<in> set t'")
    case True
    then obtain a b where "t' = a @ c # b" "c \<notin> set a" by (auto dest: split_list_first)
    then show ?thesis using that cut_at_append [of c "h @ a" b] by (simp add: takeWhile_first)
  qed (simp add: that cut_at_none)
  show ?thesis
  proof (cases t)
    case Nil
    then show ?thesis using assms by (simp add: cut_at_none)
  next
    case (Cons c r)
    then show ?thesis using assms by (auto simp: cut cut_at_none)
  qed
qed

theorem normalize_url:
  assumes v: "validate_domain d = None" and h: "map lower_byte h = d" "url_part h"
    and s: "s \<noteq> []" "url_part s" "CHR '':'' \<notin> set s"
    and w: "url_userinfo w" and p: "url_port p" and t: "url_tail t"
  shows "normalize_domain u (s @ ''://'' @ w @ h @ p @ t) = d"
proof -
  let ?l = "map lower_byte"
  have dc: "list_all host_char d" using v by (rule valid_domain_chars)
  note absent = host_chars_absent [OF dc]
  have pp: "url_part p" and p2: "?l p = p"
    using p by (cases p; auto simp: url_port_def url_part_def list_all_iff is_digit_def lower_byte_def
        is_upper_def intro!: map_idI)+
  have part: "url_part (s @ ''://'' @ w @ h @ p @ t)"
    using h s w pp t by (auto simp: url_userinfo_def url_tail_def url_part_def)
  have sep: "?l ''://'' = ''://''" by (simp add: lower_byte_def is_upper_def)
  have low: "to_lower u (s @ ''://'' @ w @ h @ p @ t) = ?l s @ ''://'' @ ?l w @ d @ p @ ?l t"
    using url_part_lower [OF part] p2 h(1) sep by simp
  have 1: "strip_scheme (?l s @ ''://'' @ ?l w @ d @ p @ ?l t) = ?l w @ d @ p @ ?l t"
    by (rule strip_scheme_append) (rule lower_absent, use s in \<open>auto simp: is_lower_def is_upper_def\<close>)
  have at: "CHR ''@'' \<notin> set (d @ p @ ?l t)"
  proof -
    have "CHR ''@'' \<notin> set (?l t)"
      by (rule lower_absent) (use t in \<open>auto simp: url_tail_def is_lower_def is_upper_def\<close>)
    moreover have "CHR ''@'' \<notin> set p"
      using p by (cases p) (auto simp: url_port_def list_all_iff is_digit_def)
    ultimately show ?thesis using absent by simp
  qed
  have 2: "strip_userinfo (?l w @ d @ p @ ?l t) = d @ p @ ?l t"
  proof (cases w rule: rev_cases)
    case Nil
    then show ?thesis using at by (simp add: strip_userinfo_none)
  next
    case (snoc w' c)
    then have "?l w = ?l w' @ ''@''"
      using w by (simp add: url_userinfo_def lower_byte_def is_upper_def)
    then show ?thesis using at strip_userinfo_append [of "d @ p @ ?l t" "?l w'"] by simp
  qed
  have pc: "c \<notin> set p" if "\<not> is_digit c" "c \<noteq> CHR '':''" for c
    using that p by (cases p) (auto simp: url_port_def list_all_iff)
  have hdt: "?l t = [] \<or> hd (?l t) = CHR ''/'' \<or> hd (?l t) = CHR ''?'' \<or> hd (?l t) = CHR ''#''"
    using t by (cases t) (auto simp: url_tail_def lower_byte_def is_upper_def)
  have 3: "foldl cut_at ((d @ p) @ ?l t) [''/'', ''?'', ''#''] = d @ p"
    by (rule cut_tail) (use absent pc hdt in \<open>auto simp: is_digit_def\<close>)
  have 4: "strip_port (d @ p) = d"
  proof (cases p)
    case Nil
    then show ?thesis using absent by (simp add: strip_port_none)
  next
    case (Cons c r)
    then have "c = CHR '':''" "CHR '':'' \<notin> set r"
      using p by (auto simp: url_port_def list_all_iff is_digit_def)
    then show ?thesis using Cons absent strip_port_append [of d r] by simp
  qed
  have ne: "s @ ''://'' @ w @ h @ p @ t \<noteq> []" by simp
  show ?thesis
    using 3 valid_domain_no_final_dot [OF v]
    by (simp add: normalize_domain_def Let_def url_part_trim [OF part, simplified] low [simplified]
        1 [simplified] 2 4 trim_suffix_none)
qed

section \<open>Normalised addresses\<close>

lemma to4_length: "to4 a = Some q \<Longrightarrow> length q = 4"
  by (auto simp: to4_def split: if_splits)

lemma ip_string_to4: "to4 a = Some q \<Longrightarrow> wf_ip a \<Longrightarrow> ip_string q = ip_string a"
proof -
  assume q: "to4 a = Some q" and a: "wf_ip a"
  have "length q = 4" using q by (rule to4_length)
  then have "q \<noteq> []" "to4 q = Some q" by (auto simp: to4_def)
  then show ?thesis using q a \<open>length q = 4\<close> by (auto simp: ip_string_def wf_ip_def)
qed

lemma normalize_ip_Inr:
  "normalize_ip s = Inr (c, v6) \<longleftrightarrow>
     (\<exists>a. parse_ip (trim_space s) = Some a \<and> c = ip_string a \<and> v6 = (to4 a = None))"
proof -
  have "wf_ip a" if "parse_ip t = Some a" for t a
    using that go_ip.parse_valid by blast
  then show ?thesis
    using ip_string_to4 by (fastforce simp: normalize_ip_def split: option.splits)
qed

lemma addr_char_solid: "addr_char c \<Longrightarrow> solid c"
  by (rule ascii_print_solid) (auto simp: addr_char_def is_digit_def)

lemma trim_space_addr: "list_all addr_char s \<Longrightarrow> trim_space s = s"
  by (rule trim_space_solid) (auto simp: list_all_iff addr_char_solid)

lemma normalize_ip_idem:
  assumes "normalize_ip s = Inr (c, v6)"
  shows "normalize_ip c = Inr (c, v6)"
proof -
  obtain a where a: "parse_ip (trim_space s) = Some a" "c = ip_string a" "v6 = (to4 a = None)"
    using assms by (auto simp: normalize_ip_Inr)
  then have "wf_ip a" using go_ip.parse_valid by blast
  then have "trim_space c = c" using a ip_string_addr trim_space_addr by blast
  then show ?thesis using a go_ip.reparse [OF a(1)] by (auto simp: normalize_ip_Inr)
qed

lemma normalize_ip_same:
  assumes "normalize_ip s = Inr (c, v)" "normalize_ip t = Inr (d, w)"
  shows "c = d \<longleftrightarrow> parse_ip (trim_space s) = parse_ip (trim_space t)"
  using assms go_ip.same_text_iff by (metis normalize_ip_Inr)

lemma normalize_ip_chars: "normalize_ip s = Inr (c, v) \<Longrightarrow> list_all addr_char c \<and> c \<noteq> []"
  by (metis normalize_ip_Inr go_ip.parse_valid ip_string_addr ip_string_not_Nil)

text \<open>The family flag can be read off the text.\<close>

lemma normalize_ip_family:
  assumes "normalize_ip s = Inr (c, v6)"
  shows "v6 \<longleftrightarrow> CHR '':'' \<in> set c"
proof -
  obtain a where a: "parse_ip (trim_space s) = Some a" "c = ip_string a" "v6 = (to4 a = None)"
    using assms by (auto simp: normalize_ip_Inr)
  then have len: "length a = 16" using parse_ip_length by blast
  show ?thesis
  proof (cases "to4 a")
    case None
    then have "c = string6 (groups a)" using a len by (auto simp: ip_string_def)
    then show ?thesis using a None len string6_colon [of "groups a"] by (simp add: length_groups)
  next
    case (Some q)
    then have "c = dotted q" using a len by (auto simp: ip_string_def)
    moreover have "CHR '':'' \<notin> set (dotted q)"
      using set_join_subset [of "''.''" "map (\<lambda>b. nat_digits (octet b)) q"] nat_digits_all_digits
      by (fastforce simp: dotted_def list_all_iff is_digit_def)
    ultimately show ?thesis using a Some by simp
  qed
qed

end
