(* ===== verification/Proto.thy ===== *)
theory Proto
  imports Validate Store
begin

text \<open>
  \<open>internal/proto/proto.go\<close> and \<open>cmd/webblockd/identity.go\<close>: the messages between client and
  daemon, and the identity of a caller. Error texts that the daemon returns are one
  constructor each, with their operands.
\<close>

definition socket_path :: string where
  "socket_path = ''/run/webblock.sock''"

text \<open>The protocol version\<close>

definition proto_version :: int where
  "proto_version = 1"

definition action_add :: string where "action_add = ''add''"
definition action_remove :: string where "action_remove = ''remove''"
definition action_show :: string where "action_show = ''show''"
definition action_status :: string where "action_status = ''status''"

record request =
  req_version :: int
  req_action :: string
  req_domains :: "string list"
  req_ips :: "string list"
  target_user :: string

record scope_view =
  view_scope :: string
  read_only :: bool
  view_domains :: "string list"
  view_ips :: "string list"

record status_info =
  status_backend :: string
  protocol_version :: int

datatype api_error =
    NoIdentity
  | Malformed
  | RateLimited
  | UnsupportedVersion int
  | UnknownAction string
  | NotYourList
  | UnknownUser string
  | NonNumericUID string
  | TooManyItems
  | Invalid validate_error
  | NothingToDo
  | ApplyFailed

text \<open>A response has an error text or is OK; the fields that are not set are empty.\<close>

record response =
  resp_ok :: bool
  resp_error :: "api_error option"
  resp_message :: string
  resp_views :: "scope_view list"
  resp_status :: "status_info option"

definition error_response :: "api_error \<Rightarrow> response" where
  "error_response e = \<lparr>resp_ok = False, resp_error = Some e, resp_message = [], resp_views = [], resp_status = None\<rparr>"

definition ok_response :: response where
  "ok_response = \<lparr>resp_ok = True, resp_error = None, resp_message = [], resp_views = [], resp_status = None\<rparr>"

section \<open>Callers\<close>

text \<open>What \<open>SO_PEERCRED\<close> reports; the pid is an \<open>int32\<close>\<close>

record peer_cred =
  cred_uid :: "32 word"
  cred_gid :: "32 word"
  cred_pid :: "32 word"

definition IsRoot :: "peer_cred \<Rightarrow> bool" where
  "IsRoot c \<longleftrightarrow> cred_uid c = 0"

text \<open>\<open>int(caller.UID)\<close> on a 64-bit platform\<close>

definition uid_int :: "peer_cred \<Rightarrow> int" where
  "uid_int c = uint (cred_uid c)"

lemma uid_int_range: "0 \<le> uid_int c" "uid_int c < 2 ^ 32" "go_int (uid_int c)"
proof -
  show "0 \<le> uid_int c" "uid_int c < 2 ^ 32"
    using uint_ge_0 [of "cred_uid c"] uint_lt2p [of "cred_uid c"] by (simp_all add: uid_int_def)
  then show "go_int (uid_int c)" by (simp add: go_int_def)
qed

lemma uid_int_inj: "uid_int c = uid_int d \<longleftrightarrow> cred_uid c = cred_uid d"
  unfolding uid_int_def by (rule word_uint_eq_iff [symmetric])

end
