(* ===== verification/Authz.thy ===== *)
theory Authz
  imports Proto Backend
begin

text \<open>
  \<open>cmd/webblockd/authz.go\<close>: which list a mutating request is about, and who may do it. The
  system's user database is a parameter.
\<close>

text \<open>\<open>user.Lookup\<close> gives the uid text of a name, \<open>user.LookupId\<close> the name of a uid text.\<close>

record user_db =
  by_name :: "string \<Rightarrow> string option"
  by_id :: "string \<Rightarrow> string option"

definition lookup_uid :: "user_db \<Rightarrow> string \<Rightarrow> api_error + int" where
  "lookup_uid db target =
     (case atoi target of
        Some uid \<Rightarrow> Inr uid
      | None \<Rightarrow>
          (case by_name db target of
             None \<Rightarrow> Inl (UnknownUser target)
           | Some u \<Rightarrow> (case atoi u of None \<Rightarrow> Inl (NonNumericUID target) | Some uid \<Rightarrow> Inr uid)))"

definition ResolveScope :: "user_db \<Rightarrow> string \<Rightarrow> peer_cred \<Rightarrow> api_error + scope" where
  "ResolveScope db target caller =
     (if \<not> IsRoot caller then
        (if target \<noteq> [] \<and> target \<noteq> itoa (uid_int caller) then Inl NotYourList
         else Inr (UserScope (uid_int caller)))
      else if target = [] \<or> target = ''global'' then Inr GlobalScope
      else (case lookup_uid db target of Inl e \<Rightarrow> Inl e | Inr uid \<Rightarrow> Inr (UserScope uid)))"

definition scope_label_with_name :: "user_db \<Rightarrow> int \<Rightarrow> string" where
  "scope_label_with_name db uid =
     (case by_id db (itoa uid) of
        Some name \<Rightarrow> ''user:'' @ itoa uid @ '' ('' @ name @ '')''
      | None \<Rightarrow> ''user:'' @ itoa uid)"

section \<open>Who may touch what\<close>

lemma kernel_uid_caller: "kernel_uid (uid_int c)"
  using uid_int_range [of c] by (simp add: kernel_uid_def)

theorem user_scope_only:
  assumes "\<not> IsRoot caller"
  shows "ResolveScope db target caller =
    (if target = [] \<or> target = itoa (uid_int caller) then Inr (UserScope (uid_int caller)) else Inl NotYourList)"
  using assms by (auto simp: ResolveScope_def)

lemma lookup_uid_range: "lookup_uid db target = Inr uid \<Longrightarrow> go_int uid"
  by (auto simp: lookup_uid_def dest: atoi_range split: option.splits)

lemma resolve_scope_range: "ResolveScope db target caller = Inr s \<Longrightarrow> go_int (UID s)"
  using uid_int_range(3) [of caller]
  by (auto simp: ResolveScope_def UserScope_def GlobalScope_def go_int_def dest!: lookup_uid_range
      split: if_splits sum.splits)

lemma resolve_scope_cases:
  assumes "ResolveScope db target caller = Inr s"
  shows "s = GlobalScope \<and> IsRoot caller \<or> (\<exists>u. s = UserScope u \<and> (IsRoot caller \<or> u = uid_int caller))"
  using assms by (auto simp: ResolveScope_def split: if_splits sum.splits)

text \<open>Decimal text of any 64-bit number names that uid for root, also outside the kernel's range.\<close>

theorem root_target_number:
  assumes "IsRoot caller" "go_int u"
  shows "ResolveScope db (itoa u) caller = Inr (UserScope u)"
proof -
  have "itoa u \<noteq> ''global''"
  proof
    assume "itoa u = ''global''"
    then have "CHR ''g'' \<in> set (itoa u)" by simp
    then show False using set_itoa [of u] by (auto simp: is_digit_def)
  qed
  then show ?thesis using assms by (simp add: ResolveScope_def lookup_uid_def atoi_itoa)
qed

end
