(* ===== verification/Handlers.thy ===== *)
theory Handlers
  imports Engine_Contract Authz
begin

text \<open>
  \<open>cmd/webblockd/handlers.go\<close> and \<open>dispatch.go\<close>: what the daemon does for one request of an
  identified caller. A handler takes the engine's state and returns it with the response. The
  locale \<open>request_handler\<close> is the contract of the interface \<open>Handler\<close>: a caller other than
  root changes no list but its own, a response is an error or OK, and a refused request
  changes nothing. All four handlers keep it, and so does the dispatcher over any table of
  handlers that do.
\<close>

section \<open>What the handlers are built from\<close>

record 'b service =
  eng_cfg :: "'b engine_cfg"
  eng_backend_name :: string
  user_names :: user_db
  unicode_lower :: "string \<Rightarrow> string"

text \<open>What the outside contributes to one request\<close>

record call =
  call_io :: store_io
  call_world :: world

type_synonym 'b handler = "'b service \<Rightarrow> call \<Rightarrow> peer_cred \<Rightarrow> request \<Rightarrow> 'b engine \<Rightarrow> 'b engine \<times> response"

definition valid_domain :: "(string \<Rightarrow> string) \<Rightarrow> string \<Rightarrow> validate_error + string" where
  "valid_domain u d =
     (let n = normalize_domain u d in
      case validate_domain n of Some e \<Rightarrow> Inl e | None \<Rightarrow> Inr n)"

definition canon_ip :: "string \<Rightarrow> validate_error + string" where
  "canon_ip ip = (case normalize_ip ip of Inl e \<Rightarrow> Inl e | Inr (canon, v6) \<Rightarrow> Inr canon)"

definition normalize_and_validate ::
    "(string \<Rightarrow> string) \<Rightarrow> string list \<Rightarrow> string list \<Rightarrow> api_error + string list \<times> string list" where
  "normalize_and_validate u raw_domains raw_ips =
     (if max_items_per_request < length raw_domains + length raw_ips then Inl TooManyItems
      else (case try_map (valid_domain u) raw_domains of
              Inl e \<Rightarrow> Inl (Invalid e)
            | Inr domains \<Rightarrow>
                (case try_map canon_ip raw_ips of
                   Inl e \<Rightarrow> Inl (Invalid e)
                 | Inr ips \<Rightarrow> Inr (domains, ips))))"

section \<open>Adding and removing\<close>

definition mutate_message :: "bool \<Rightarrow> scope \<Rightarrow> nat \<Rightarrow> nat \<Rightarrow> nat \<Rightarrow> nat \<Rightarrow> string" where
  "mutate_message add s changed_dom changed_ip req_dom req_ip =
     (let verb = (if add then ''added to'' else ''removed from'');
          msg = itoa (int changed_dom) @ '' domain(s) and '' @ itoa (int changed_ip) @ '' IP(s) '' @ verb
                @ '' '' @ Label s @ '' blocklist'';
          noop = (int req_dom - int changed_dom) + (int req_ip - int changed_ip)
      in if noop > 0 then
           msg @ (if add then '' ('' @ itoa noop @ '' already present)'' else '' ('' @ itoa noop @ '' not found)'')
         else msg)"

definition mutate_handle :: "bool \<Rightarrow> 'b handler" where
  "mutate_handle add sv call caller req eng =
     (case ResolveScope (user_names sv) (target_user req) caller of
        Inl e \<Rightarrow> (eng, error_response e)
      | Inr s \<Rightarrow>
          (case normalize_and_validate (unicode_lower sv) (req_domains req) (req_ips req) of
             Inl e \<Rightarrow> (eng, error_response e)
           | Inr (domains, ips) \<Rightarrow>
               if length domains = 0 \<and> length ips = 0 then (eng, error_response NothingToDo)
               else
                 (case (if add then add_entries (eng_cfg sv) (call_io call) (call_world call) s domains ips eng
                        else remove_entries (eng_cfg sv) (call_io call) (call_world call) s domains ips eng) of
                    (eng', n_dom, n_ip, Some e) \<Rightarrow> (eng', error_response ApplyFailed)
                  | (eng', n_dom, n_ip, None) \<Rightarrow>
                      (eng', ok_response\<lparr>resp_message :=
                         mutate_message add s n_dom n_ip (length domains) (length ips)\<rparr>))))"

section \<open>Showing\<close>

text \<open>The loop over the stored users\<close>

fun user_views :: "user_db \<Rightarrow> store_io \<Rightarrow> disk \<Rightarrow> int list \<Rightarrow> store_error + scope_view list" where
  "user_views db io d [] = Inr []"
| "user_views db io d (uid # uids) =
     (case load_locked io d (UserScope uid) of
        Inl e \<Rightarrow> Inl e
      | Inr bl \<Rightarrow>
          (case user_views db io d uids of
             Inl e \<Rightarrow> Inl e
           | Inr vs \<Rightarrow>
               Inr (\<lparr>view_scope = scope_label_with_name db uid, read_only = False,
                     view_domains = Domains bl, view_ips = IPs bl\<rparr> # vs)))"

definition show_as_root :: "user_db \<Rightarrow> store_io \<Rightarrow> disk \<Rightarrow> response" where
  "show_as_root db io d =
     (case load_locked io d GlobalScope of
        Inl e \<Rightarrow> error_response ApplyFailed
      | Inr global \<Rightarrow>
          (case list_user_uids io d of
             Inl e \<Rightarrow> error_response ApplyFailed
           | Inr uids \<Rightarrow>
               (case user_views db io d uids of
                  Inl e \<Rightarrow> error_response ApplyFailed
                | Inr vs \<Rightarrow>
                    ok_response\<lparr>resp_views :=
                      \<lparr>view_scope = ''global (all users)'', read_only = False,
                       view_domains = Domains global, view_ips = IPs global\<rparr> # vs\<rparr>)))"

definition show_as_user :: "store_io \<Rightarrow> disk \<Rightarrow> int \<Rightarrow> response" where
  "show_as_user io d uid =
     (case load_locked io d (UserScope uid) of
        Inl e \<Rightarrow> error_response ApplyFailed
      | Inr own \<Rightarrow>
          (case load_locked io d GlobalScope of
             Inl e \<Rightarrow> error_response ApplyFailed
           | Inr global \<Rightarrow>
               ok_response\<lparr>resp_views :=
                 [\<lparr>view_scope = ''your blocklist'', read_only = False,
                   view_domains = Domains own, view_ips = IPs own\<rparr>,
                  \<lparr>view_scope = ''global (set by administrator)'', read_only = True,
                   view_domains = Domains global, view_ips = IPs global\<rparr>]\<rparr>))"

definition show_handle :: "'b handler" where
  "show_handle sv call caller req eng =
     (eng, if IsRoot caller then show_as_root (user_names sv) (call_io call) (disk_of eng)
           else show_as_user (call_io call) (disk_of eng) (uid_int caller))"

definition status_handle :: "'b handler" where
  "status_handle sv call caller req eng =
     (eng, ok_response\<lparr>resp_status :=
        Some \<lparr>status_backend = eng_backend_name sv, protocol_version = proto_version\<rparr>\<rparr>)"

section \<open>Dispatch\<close>

definition handler_table :: "(string \<times> 'b handler) list" where
  "handler_table =
     [(action_add, mutate_handle True), (action_remove, mutate_handle False),
      (action_show, show_handle), (action_status, status_handle)]"

definition dispatch :: "(string \<times> 'b handler) list \<Rightarrow> 'b handler" where
  "dispatch table sv call caller req eng =
     (if req_version req > proto_version then (eng, error_response (UnsupportedVersion (req_version req)))
      else (case map_of table (req_action req) of
              None \<Rightarrow> (eng, error_response (UnknownAction (req_action req)))
            | Some h \<Rightarrow> h sv call caller req eng))"

lemma action_names [simp]:
  "action_add \<noteq> action_remove" "action_add \<noteq> action_show" "action_add \<noteq> action_status"
  "action_remove \<noteq> action_add" "action_remove \<noteq> action_show" "action_remove \<noteq> action_status"
  "action_show \<noteq> action_add" "action_show \<noteq> action_remove" "action_show \<noteq> action_status"
  "action_status \<noteq> action_add" "action_status \<noteq> action_remove" "action_status \<noteq> action_show"
  by (simp_all add: action_add_def action_remove_def action_show_def action_status_def)

lemma dispatch_known:
  assumes "req_version req \<le> proto_version"
  shows "req_action req = action_add \<Longrightarrow> dispatch handler_table sv call caller req eng = mutate_handle True sv call caller req eng"
    and "req_action req = action_remove \<Longrightarrow> dispatch handler_table sv call caller req eng = mutate_handle False sv call caller req eng"
    and "req_action req = action_show \<Longrightarrow> dispatch handler_table sv call caller req eng = show_handle sv call caller req eng"
    and "req_action req = action_status \<Longrightarrow> dispatch handler_table sv call caller req eng = status_handle sv call caller req eng"
  using assms by (simp_all add: dispatch_def handler_table_def)

section \<open>Validated input\<close>

lemma valid_domain_ok: "valid_domain u d = Inr n \<longleftrightarrow> n = normalize_domain u d \<and> validate_domain n = None"
  by (auto simp: valid_domain_def Let_def split: option.splits)

lemma valid_domain_fixed: "valid_domain u d = Inr n \<Longrightarrow> valid_domain u n = Inr n"
  unfolding valid_domain_ok by (metis normalize_domain_valid)

lemma try_map_valid_domain:
  "try_map (valid_domain u) xs = Inr ys \<longleftrightarrow>
   ys = map (normalize_domain u) xs \<and> (\<forall>y \<in> set ys. validate_domain y = None)"
  unfolding try_map_Inr_iff
proof (induction xs arbitrary: ys)
  case (Cons x xs)
  show ?case
    using Cons.IH by (cases ys) (auto simp: valid_domain_ok)
qed auto

text \<open>A canonical address: a text that parsing and printing leaves alone\<close>

definition canonical_ip :: "string \<Rightarrow> bool" where
  "canonical_ip a \<longleftrightarrow> addr_text False a \<or> addr_text True a"

lemma canon_ip_canonical: "canon_ip ip = Inr a \<Longrightarrow> canonical_ip a"
proof -
  assume "canon_ip ip = Inr a"
  then obtain x where x: "parse_ip (trim_space ip) = Some x"
    and a: "a = (case to4 x of Some q \<Rightarrow> ip_string q | None \<Rightarrow> ip_string x)"
    by (auto simp: canon_ip_def normalize_ip_def split: option.splits)
  have wf: "wf_ip x" by (rule parse_ip_wf [OF x])
  then have "a = ip_string x" using a to4_string by (auto split: option.splits)
  then show ?thesis using addr_text_print [OF wf] by (cases "to4 x = None") (auto simp: canonical_ip_def)
qed

theorem normalize_and_validate_ok:
  assumes "normalize_and_validate u raw_domains raw_ips = Inr (domains, ips)"
  shows "length domains + length ips \<le> max_items_per_request"
    and "domains = map (normalize_domain u) raw_domains" "\<forall>d \<in> set domains. validate_domain d = None"
    and "map canon_ip raw_ips = map Inr ips" "\<forall>a \<in> set ips. canonical_ip a"
proof -
  have d: "try_map (valid_domain u) raw_domains = Inr domains" and i: "try_map canon_ip raw_ips = Inr ips"
    and n: "length raw_domains + length raw_ips \<le> max_items_per_request"
    using assms by (auto simp: normalize_and_validate_def split: if_splits sum.splits)
  show "domains = map (normalize_domain u) raw_domains" "\<forall>d \<in> set domains. validate_domain d = None"
    using d by (simp_all add: try_map_valid_domain)
  show "map canon_ip raw_ips = map Inr ips" using i by (simp add: try_map_Inr_iff)
  show "length domains + length ips \<le> max_items_per_request"
    using n try_map_length [OF d] try_map_length [OF i] by simp
  show "\<forall>a \<in> set ips. canonical_ip a"
    using try_map_set [OF i] canon_ip_canonical by blast
qed

section \<open>The contract of a handler\<close>

lemma response_sel [simp]:
  "resp_ok (error_response e) = False" "resp_error (error_response e) = Some e"
  "resp_ok ok_response = True" "resp_error ok_response = None" "resp_views (error_response e) = []"
  by (simp_all add: error_response_def ok_response_def)

text \<open>The ways through a mutating handler: refused, or the lists were changed and applied\<close>

lemma mutate_handle_cases:
  assumes "mutate_handle add sv call caller req eng = (eng', resp)"
  obtains
    (refused) e where "eng' = eng" "resp = error_response e" "e \<noteq> ApplyFailed"
  | (changed) s domains ips n m r where
      "ResolveScope (user_names sv) (target_user req) caller = Inr s"
      "normalize_and_validate (unicode_lower sv) (req_domains req) (req_ips req) = Inr (domains, ips)"
      "change_entries (eng_cfg sv) (call_io call) (call_world call) s
         (if add then add_fn domains ips else remove_fn domains ips) eng = (eng', n, m, r)"
      "resp = (case r of Some e \<Rightarrow> error_response ApplyFailed
         | None \<Rightarrow> ok_response\<lparr>resp_message := mutate_message add s n m (length domains) (length ips)\<rparr>)"
proof (cases "ResolveScope (user_names sv) (target_user req) caller")
  case (Inl e)
  have "e \<noteq> ApplyFailed"
    using Inl by (auto simp: ResolveScope_def lookup_uid_def split: if_splits sum.splits option.splits)
  then show ?thesis using assms Inl by (intro refused [of e]) (simp_all add: mutate_handle_def)
next
  case s: (Inr s)
  show ?thesis
  proof (cases "normalize_and_validate (unicode_lower sv) (req_domains req) (req_ips req)")
    case (Inl e)
    have "e \<noteq> ApplyFailed" using Inl by (auto simp: normalize_and_validate_def split: if_splits sum.splits)
    then show ?thesis using assms s Inl by (intro refused [of e]) (simp_all add: mutate_handle_def)
  next
    case (Inr di)
    obtain domains ips where di: "di = (domains, ips)" by (cases di)
    let ?change = "change_entries (eng_cfg sv) (call_io call) (call_world call) s
         (if add then add_fn domains ips else remove_fn domains ips) eng"
    obtain eng1 n m r where c: "?change = (eng1, n, m, r)" by (cases ?change) auto
    show ?thesis
    proof (cases "domains = [] \<and> ips = []")
      case True
      then show ?thesis using assms s Inr di by (intro refused [of NothingToDo]) (simp_all add: mutate_handle_def)
    next
      case False
      then have "mutate_handle add sv call caller req eng = (eng1, case r of Some e \<Rightarrow> error_response ApplyFailed
         | None \<Rightarrow> ok_response\<lparr>resp_message := mutate_message add s n m (length domains) (length ips)\<rparr>)"
        using s Inr di c by (cases add) (auto simp: mutate_handle_def add_entries_def remove_entries_def split: option.splits)
      then show ?thesis using assms s Inr di c by (intro changed [of s domains ips n m r]) auto
    qed
  qed
qed

locale request_handler =
  fixes handle :: "'b handler"
  assumes own_list_only: "handle sv call caller req eng = (eng', resp) \<Longrightarrow> \<not> IsRoot caller \<Longrightarrow>
      \<not> same_scope (UserScope (uid_int caller)) t \<Longrightarrow> content (disk_of eng') t = content (disk_of eng) t"
    and answered: "handle sv call caller req eng = (eng', resp) \<Longrightarrow> resp_ok resp \<longleftrightarrow> resp_error resp = None"
    and refusal_is_free: "handle sv call caller req eng = (eng', resp) \<Longrightarrow> resp_error resp = Some e \<Longrightarrow>
      e \<noteq> ApplyFailed \<Longrightarrow> eng' = eng"
begin

text \<open>A sequence of requests\<close>

fun handle_all :: "'b service \<Rightarrow> (call \<times> peer_cred \<times> request) list \<Rightarrow> 'b engine \<Rightarrow> 'b engine \<times> response list" where
  "handle_all sv [] eng = (eng, [])"
| "handle_all sv ((call, caller, req) # qs) eng =
     (case handle sv call caller req eng of
        (eng1, resp) \<Rightarrow> case handle_all sv qs eng1 of (eng2, rs) \<Rightarrow> (eng2, resp # rs))"

text \<open>Whatever other users do, the list of a user and the global list stay as they are.\<close>

lemma others_cannot_change:
  assumes "handle_all sv qs eng = (eng', rs)"
    and "\<forall>(call, caller, req) \<in> set qs. \<not> IsRoot caller \<and> \<not> same_scope (UserScope (uid_int caller)) t"
  shows "content (disk_of eng') t = content (disk_of eng) t"
  using assms
proof (induction qs arbitrary: eng rs)
  case (Cons q qs)
  obtain call caller req where q: "q = (call, caller, req)" by (cases q) auto
  obtain eng1 resp where 1: "handle sv call caller req eng = (eng1, resp)"
    by (cases "handle sv call caller req eng") auto
  obtain rs1 where 2: "handle_all sv qs eng1 = (eng', rs1)" using Cons.prems(1) 1 by (auto simp: q split: prod.splits)
  have "content (disk_of eng1) t = content (disk_of eng) t"
    using own_list_only [OF 1] Cons.prems(2) by (simp add: q)
  then show ?case using Cons.IH [OF 2] Cons.prems(2) by simp
qed simp

end

lemma mutate_handler: "request_handler (mutate_handle add)"
proof
  fix sv call caller req eng eng' resp t e
  assume h: "mutate_handle add sv call caller req eng = (eng', resp)"
  show "content (disk_of eng') t = content (disk_of eng) t"
    if "\<not> IsRoot caller" "\<not> same_scope (UserScope (uid_int caller)) t"
    using h
  proof (cases rule: mutate_handle_cases)
    case (changed s domains ips n m r)
    have "s = UserScope (uid_int caller)"
      using changed(1) that(1) by (auto simp: user_scope_only split: if_splits)
    then have "\<not> same_scope s t" using that(2) by simp
    then show ?thesis using change_entries_cases [OF changed(3)] by auto
  qed simp
  show "resp_ok resp \<longleftrightarrow> resp_error resp = None"
    using h by (cases rule: mutate_handle_cases) (auto split: option.splits)
  show "eng' = eng" if "resp_error resp = Some e" "e \<noteq> ApplyFailed"
    using h that by (cases rule: mutate_handle_cases) (auto split: option.splits)
qed

interpretation add_handler: request_handler "mutate_handle True"
  by (rule mutate_handler)

interpretation remove_handler: request_handler "mutate_handle False"
  by (rule mutate_handler)

interpretation show_handler: request_handler show_handle
  by unfold_locales (auto simp: show_handle_def show_as_root_def show_as_user_def split: if_splits sum.splits)

interpretation status_handler: request_handler status_handle
  by unfold_locales (auto simp: status_handle_def)

text \<open>The dispatcher keeps the contract if its handlers do.\<close>

locale handlers =
  fixes table :: "(string \<times> 'b handler) list"
  assumes all_handlers: "\<forall>(a, h) \<in> set table. request_handler h"
begin

lemma dispatch_cases:
  assumes "dispatch table sv call caller req eng = (eng', resp)"
  obtains
    (refused) e where "eng' = eng" "resp = error_response e" "e \<noteq> ApplyFailed"
  | (handled) h where "(req_action req, h) \<in> set table" "request_handler h" "req_version req \<le> proto_version"
      "h sv call caller req eng = (eng', resp)"
proof (cases "req_version req > proto_version")
  case True
  then show ?thesis using assms refused [of "UnsupportedVersion (req_version req)"] by (simp add: dispatch_def)
next
  case v: False
  show ?thesis
  proof (cases "map_of table (req_action req)")
    case None
    then show ?thesis using assms v refused [of "UnknownAction (req_action req)"] by (simp add: dispatch_def)
  next
    case (Some h)
    then have "(req_action req, h) \<in> set table" by (rule map_of_SomeD)
    then show ?thesis using assms v Some all_handlers by (intro handled [of h]) (auto simp: dispatch_def)
  qed
qed

end

sublocale handlers \<subseteq> dispatcher: request_handler "dispatch table"
proof
  fix sv call caller req eng eng' resp t e
  assume h: "dispatch table sv call caller req eng = (eng', resp)"
  show "\<not> IsRoot caller \<Longrightarrow> \<not> same_scope (UserScope (uid_int caller)) t \<Longrightarrow>
      content (disk_of eng') t = content (disk_of eng) t"
    using h by (cases rule: dispatch_cases) (auto dest: request_handler.own_list_only)
  show "resp_ok resp \<longleftrightarrow> resp_error resp = None"
    using h by (cases rule: dispatch_cases) (auto dest: request_handler.answered)
  show "resp_error resp = Some e \<Longrightarrow> e \<noteq> ApplyFailed \<Longrightarrow> eng' = eng"
    using h by (cases rule: dispatch_cases) (auto dest: request_handler.refusal_is_free)
qed

interpretation daemon: handlers handler_table
  by unfold_locales
    (simp add: handler_table_def mutate_handler show_handler.request_handler_axioms status_handler.request_handler_axioms)

end
