(* ===== verification/Go_UTF8.thy ===== *)
theory Go_UTF8
  imports Go_Strings
begin

text \<open>
  UTF-8 as Go's \<open>unicode/utf8\<close> decodes it: a string falls into units, the encodings of runes
  and single bytes that are not part of one. Replacing the latter by U+FFFD is what the JSON
  encoder and decoder do to a string (\<open>utf8_fix\<close>); ASCII text is left alone.
\<close>

section \<open>Units\<close>

definition cont_byte :: "char \<Rightarrow> bool" where
  "cont_byte c \<longleftrightarrow> 128 \<le> byte_of c \<and> byte_of c < 192"

text \<open>\<open>utf8.DecodeRune\<close>: the width of the valid encoding at the start of a string, if there is one\<close>

fun rune_width :: "string \<Rightarrow> nat option" where
  "rune_width [] = None"
| "rune_width (a # s) =
     (let b = byte_of a in
      if b < 128 then Some 1
      else if 194 \<le> b \<and> b < 224 then
        (case s of c # _ \<Rightarrow> if cont_byte c then Some 2 else None | _ \<Rightarrow> None)
      else if 224 \<le> b \<and> b < 240 then
        (case s of c # d # _ \<Rightarrow>
           if cont_byte c \<and> cont_byte d \<and> (b = 224 \<longrightarrow> 160 \<le> byte_of c) \<and> (b = 237 \<longrightarrow> byte_of c < 160)
           then Some 3 else None
         | _ \<Rightarrow> None)
      else if 240 \<le> b \<and> b < 245 then
        (case s of c # d # e # _ \<Rightarrow>
           if cont_byte c \<and> cont_byte d \<and> cont_byte e \<and> (b = 240 \<longrightarrow> 144 \<le> byte_of c) \<and> (b = 244 \<longrightarrow> byte_of c < 144)
           then Some 4 else None
         | _ \<Rightarrow> None)
      else None)"

lemma rune_width_range: "rune_width s = Some n \<Longrightarrow> 1 \<le> n \<and> n \<le> length s"
  by (cases s) (auto simp: Let_def split: if_splits list.splits)

text \<open>Only the bytes of the rune matter.\<close>

lemma rune_width_take: "rune_width s = Some n \<Longrightarrow> rune_width (take n s @ r) = Some n"
  by (cases s) (auto simp: Let_def split: if_splits list.splits)

lemma rune_width_ascii: "is_ascii c \<Longrightarrow> rune_width (c # s) = Some 1"
  by (simp add: is_ascii_def)

text \<open>All bytes of a longer unit are outside ASCII.\<close>

lemma rune_width_high: "rune_width s = Some n \<Longrightarrow> n \<noteq> 1 \<Longrightarrow> c \<in> set (take n s) \<Longrightarrow> 128 \<le> byte_of c"
  by (cases s) (auto simp: Let_def cont_byte_def split: if_splits list.splits)

lemma rune_width_one: "rune_width (c # s) = Some (Suc 0) \<longleftrightarrow> is_ascii c"
  by (auto simp: Let_def is_ascii_def split: list.splits)

text \<open>\<open>for _, r := range s\<close>: the units of a string\<close>

function utf8_units :: "string \<Rightarrow> string list" where
  "utf8_units [] = []"
| "utf8_units (c # s) =
     (case rune_width (c # s) of
        Some n \<Rightarrow> take n (c # s) # utf8_units (drop n (c # s))
      | None \<Rightarrow> [c] # utf8_units s)"
  by pat_completeness auto
termination
  by (relation "measure length") (auto dest: rune_width_range simp del: rune_width.simps)

definition replacement :: string where
  "replacement = [CHR 0xEF, CHR 0xBF, CHR 0xBD]"

definition fix_unit :: "string \<Rightarrow> string" where
  "fix_unit u = (if rune_width u = None then replacement else u)"

definition utf8_fix :: "string \<Rightarrow> string" where
  "utf8_fix s = concat (map fix_unit (utf8_units s))"

text \<open>The encoding of one rune\<close>

definition valid_unit :: "string \<Rightarrow> bool" where
  "valid_unit u \<longleftrightarrow> rune_width u = Some (length u)"

lemma valid_unit_replacement: "valid_unit replacement"
  by (simp add: valid_unit_def replacement_def cont_byte_def)

lemma valid_unit_ascii: "is_ascii c \<Longrightarrow> valid_unit [c]"
  by (simp add: valid_unit_def rune_width_ascii del: rune_width.simps)

lemma valid_unit_append: "valid_unit u \<Longrightarrow> rune_width (u @ r) = Some (length u)"
  unfolding valid_unit_def by (drule rune_width_take [where r = r]) simp

lemma valid_unit_not_Nil: "valid_unit u \<Longrightarrow> u \<noteq> []"
  by (auto simp: valid_unit_def)

lemma utf8_units_valid [simp]:
  assumes "valid_unit u"
  shows "utf8_units (u @ s) = u # utf8_units s"
proof -
  obtain c t where u: "u = c # t" using valid_unit_not_Nil [OF assms] by (cases u) auto
  show ?thesis using valid_unit_append [OF assms, of s] by (simp add: u del: rune_width.simps)
qed

lemma utf8_units_kinds:
  "u \<in> set (utf8_units s) \<Longrightarrow> valid_unit u \<or> (\<exists>c. u = [c] \<and> rune_width [c] = None)"
proof (induction s rule: utf8_units.induct)
  case (2 c s)
  show ?case
  proof (cases "rune_width (c # s)")
    case None
    then have "\<not> is_ascii c" using rune_width_ascii by fastforce
    then have "rune_width [c] = None" by (auto simp: is_ascii_def Let_def)
    then show ?thesis using 2 None by (auto simp del: rune_width.simps)
  next
    case (Some n)
    have "valid_unit (take n (c # s))"
      using rune_width_take [OF Some, of "[]"] rune_width_range [OF Some] by (simp add: valid_unit_def)
    then show ?thesis using 2 Some by (auto simp del: rune_width.simps)
  qed
qed simp

lemma fix_unit_valid: "u \<in> set (utf8_units s) \<Longrightarrow> valid_unit (fix_unit u)"
  using utf8_units_kinds [of u s] valid_unit_replacement by (auto simp: fix_unit_def valid_unit_def)

lemma fix_unit_id: "valid_unit u \<Longrightarrow> fix_unit u = u"
  by (simp add: fix_unit_def valid_unit_def)

lemma units_concat: "concat (utf8_units s) = s"
  by (induction s rule: utf8_units.induct) (auto simp del: rune_width.simps split: option.splits)

lemma units_of_valid: "\<forall>u \<in> set us. valid_unit u \<Longrightarrow> utf8_units (concat us) = us"
  by (induction us) auto

text \<open>A repaired string is valid, so repairing it again changes nothing.\<close>

lemma utf8_fix_idem [simp]: "utf8_fix (utf8_fix s) = utf8_fix s"
proof -
  have "utf8_units (utf8_fix s) = map fix_unit (utf8_units s)"
    unfolding utf8_fix_def using fix_unit_valid by (intro units_of_valid) auto
  then show ?thesis using fix_unit_valid fix_unit_id by (auto simp: utf8_fix_def intro!: arg_cong [of _ _ concat])
qed

lemma utf8_units_ascii: "list_all is_ascii s \<Longrightarrow> utf8_units s = map (\<lambda>c. [c]) s"
  by (induction s) (simp_all add: rune_width_ascii del: rune_width.simps)

lemma utf8_fix_ascii: "list_all is_ascii s \<Longrightarrow> utf8_fix s = s"
proof -
  assume a: "list_all is_ascii s"
  then have "map fix_unit (utf8_units s) = map (\<lambda>c. [c]) s"
    by (simp add: utf8_units_ascii list_all_iff fix_unit_id valid_unit_ascii)
  then show ?thesis by (simp add: utf8_fix_def)
qed

lemma utf8_fix_Nil [simp]: "utf8_fix [] = []"
  by (simp add: utf8_fix_def)

lemma utf8_fix_eq_Nil [simp]: "utf8_fix s = [] \<longleftrightarrow> s = []"
proof
  assume "utf8_fix s = []"
  moreover have "fix_unit u \<noteq> []" if "u \<in> set (utf8_units s)" for u
    using fix_unit_valid [OF that] valid_unit_not_Nil by blast
  ultimately have "utf8_units s = []" by (cases "utf8_units s") (auto simp: utf8_fix_def)
  then show "s = []" using units_concat [of s] by simp
qed simp

section \<open>Code points\<close>

lemma char_of_is: "n < 256 \<Longrightarrow> char_of n = c \<longleftrightarrow> n = byte_of c" "n < 256 \<Longrightarrow> c = char_of n \<longleftrightarrow> n = byte_of c" for n :: nat
  by (metis char_of_char of_char_of mod_less)+

text \<open>\<open>utf8.AppendRune\<close> of a code point that is not a surrogate\<close>

definition utf8_encode :: "nat \<Rightarrow> string" where
  "utf8_encode n =
     (if n < 0x80 then [char_of n]
      else if n < 0x800 then [char_of (0xC0 + n div 64), char_of (0x80 + n mod 64)]
      else if n < 0x10000 then
        [char_of (0xE0 + n div 4096), char_of (0x80 + n div 64 mod 64), char_of (0x80 + n mod 64)]
      else [char_of (0xF0 + n div 262144), char_of (0x80 + n div 4096 mod 64),
            char_of (0x80 + n div 64 mod 64), char_of (0x80 + n mod 64)])"

text \<open>A hexadecimal digit, and the last \<open>k\<close> of them of a number\<close>

definition hex_char :: "nat \<Rightarrow> char" where
  "hex_char n = (if n < 10 then char_of (48 + n) else char_of (87 + n))"

fun hex_text :: "nat \<Rightarrow> nat \<Rightarrow> string" where
  "hex_text 0 n = []"
| "hex_text (Suc k) n = hex_text k (n div 16) @ [hex_char (n mod 16)]"

text \<open>The code point of a unit\<close>

fun rune_value :: "string \<Rightarrow> nat" where
  "rune_value [a] = byte_of a"
| "rune_value [a, b] = (byte_of a - 0xC0) * 64 + (byte_of b - 0x80)"
| "rune_value [a, b, c] = (byte_of a - 0xE0) * 4096 + (byte_of b - 0x80) * 64 + (byte_of c - 0x80)"
| "rune_value [a, b, c, d] =
     (byte_of a - 0xF0) * 262144 + (byte_of b - 0x80) * 4096 + (byte_of c - 0x80) * 64 + (byte_of d - 0x80)"
| "rune_value _ = 0"

end
