(* ===== verification/Go_JSON.thy ===== *)
theory Go_JSON
  imports Go_UTF8
begin

text \<open>
  Go's \<open>encoding/json\<close> as the program uses it: the printer behind \<open>Marshal\<close> and
  \<open>MarshalIndent\<close>, the scanner and parser behind \<open>Decoder.Decode\<close> and \<open>Unmarshal\<close>, and the
  decoding of values into strings, integers, booleans, slices and structs. The main results:
  the parser reads back what the printer printed, up to the repair of invalid UTF-8, and the
  fuel the parser is given is always enough.
\<close>

section \<open>Values and their text\<close>

text \<open>A number is kept as its text; the order and repetition of members matter.\<close>

datatype json =
    JNull
  | JBool bool
  | JNum string
  | JStr string
  | JArr "json list"
  | JObj "(string \<times> json) list"

definition dquote :: char where "dquote = CHR 0x22"
definition backslash :: char where "backslash = CHR 0x5C"

text \<open>\<open>appendString\<close> with \<open>escapeHTML\<close>, one ASCII byte and one unit\<close>

definition esc_byte :: "char \<Rightarrow> string" where
  "esc_byte c =
     (if c = dquote \<or> c = backslash then [backslash, c]
      else if byte_of c = 8 then [backslash, CHR ''b'']
      else if byte_of c = 12 then [backslash, CHR ''f'']
      else if byte_of c = 10 then [backslash, CHR ''n'']
      else if byte_of c = 13 then [backslash, CHR ''r'']
      else if byte_of c = 9 then [backslash, CHR ''t'']
      else if byte_of c < 32 \<or> c \<in> {CHR ''<'', CHR ''>'', CHR ''&''} then
        [backslash, CHR ''u'', CHR ''0'', CHR ''0'', hex_char (byte_of c div 16), hex_char (byte_of c mod 16)]
      else [c])"

definition esc_unit :: "string \<Rightarrow> string" where
  "esc_unit u =
     (if rune_width u = None then backslash # ''ufffd''
      else if u = [CHR 0xE2, CHR 0x80, CHR 0xA8] then backslash # ''u2028''
      else if u = [CHR 0xE2, CHR 0x80, CHR 0xA9] then backslash # ''u2029''
      else (case u of [c] \<Rightarrow> esc_byte c | _ \<Rightarrow> u))"

definition json_quote :: "string \<Rightarrow> string" where
  "json_quote s = dquote # concat (map esc_unit (utf8_units s)) @ [dquote]"

text \<open>
  The layout of \<open>Marshal\<close> (\<open>ind\<close> false) and of \<open>MarshalIndent(v, "", "  ")\<close>: a line break with
  two blanks for each level, a blank after a colon, nothing inside empty arrays and objects.
\<close>

definition line_break :: "bool \<Rightarrow> nat \<Rightarrow> string" where
  "line_break ind k = (if ind then CHR 0x0A # replicate (2 * k) CHR '' '' else [])"

definition colon :: "bool \<Rightarrow> string" where
  "colon ind = (if ind then '': '' else '':'')"

fun print_json :: "bool \<Rightarrow> nat \<Rightarrow> json \<Rightarrow> string" where
  "print_json ind k JNull = ''null''"
| "print_json ind k (JBool b) = (if b then ''true'' else ''false'')"
| "print_json ind k (JNum n) = n"
| "print_json ind k (JStr s) = json_quote s"
| "print_json ind k (JArr []) = ''[]''"
| "print_json ind k (JArr (v # vs)) =
     ''['' @ line_break ind (Suc k) @ print_json ind (Suc k) v
     @ concat (map (\<lambda>w. '','' @ line_break ind (Suc k) @ print_json ind (Suc k) w) vs)
     @ line_break ind k @ '']''"
| "print_json ind k (JObj []) = ''{}''"
| "print_json ind k (JObj (m # ms)) =
     ''{'' @ line_break ind (Suc k) @ json_quote (fst m) @ colon ind @ print_json ind (Suc k) (snd m)
     @ concat (map (\<lambda>n. '','' @ line_break ind (Suc k) @ json_quote (fst n) @ colon ind @ print_json ind (Suc k) (snd n)) ms)
     @ line_break ind k @ ''}''"

section \<open>Reading text\<close>

definition json_space :: "char \<Rightarrow> bool" where
  "json_space c \<longleftrightarrow> c \<in> {CHR '' '', CHR 0x09, CHR 0x0D, CHR 0x0A}"

definition skip :: "string \<Rightarrow> string" where
  "skip s = dropWhile json_space s"

text \<open>The rest after a given character, white space before it being skipped\<close>

definition after :: "char \<Rightarrow> string \<Rightarrow> string option" where
  "after c s = (case skip s of x # r \<Rightarrow> if x = c then Some r else None | [] \<Rightarrow> None)"

subsection \<open>Strings\<close>

definition hex_digit_val :: "char \<Rightarrow> nat option" where
  "hex_digit_val c =
     (let b = byte_of c in
      if is_digit c then Some (b - 48)
      else if 97 \<le> b \<and> b \<le> 102 then Some (b - 87)
      else if 65 \<le> b \<and> b \<le> 70 then Some (b - 55)
      else None)"

fun hex4 :: "string \<Rightarrow> (nat \<times> string) option" where
  "hex4 (a # b # c # d # r) =
     (case (hex_digit_val a, hex_digit_val b, hex_digit_val c, hex_digit_val d) of
        (Some i, Some j, Some k, Some l) \<Rightarrow> Some (((i * 16 + j) * 16 + k) * 16 + l, r)
      | _ \<Rightarrow> None)"
| "hex4 _ = None"

definition simple_escape :: "char \<Rightarrow> char option" where
  "simple_escape c =
     (if c = dquote \<or> c = backslash \<or> c = CHR ''/'' then Some c
      else if c = CHR ''b'' then Some CHR 0x08
      else if c = CHR ''f'' then Some CHR 0x0C
      else if c = CHR ''n'' then Some CHR 0x0A
      else if c = CHR ''r'' then Some CHR 0x0D
      else if c = CHR ''t'' then Some CHR 0x09
      else None)"

text \<open>
  One character of a quoted string: its text and the rest. A surrogate needs its partner in
  the next escape, otherwise it stands for U+FFFD, as does a byte that is not UTF-8.
\<close>

definition low_surrogate :: "nat \<Rightarrow> string \<Rightarrow> (string \<times> string) option" where
  "low_surrogate n r =
     (if 0xDC00 \<le> n then None
      else (case r of
        x # y # r1 \<Rightarrow>
          if x = backslash \<and> y = CHR ''u'' then
            (case hex4 r1 of
               Some (m, r2) \<Rightarrow>
                 if 0xDC00 \<le> m \<and> m < 0xE000
                 then Some (utf8_encode (0x10000 + (n - 0xD800) * 0x400 + (m - 0xDC00)), r2) else None
             | None \<Rightarrow> None)
          else None
      | _ \<Rightarrow> None))"

definition unicode_escape :: "string \<Rightarrow> (string \<times> string) option" where
  "unicode_escape s =
     (case hex4 s of
        None \<Rightarrow> None
      | Some (n, r) \<Rightarrow>
          if 0xD800 \<le> n \<and> n < 0xE000 then
            (case low_surrogate n r of Some p \<Rightarrow> Some p | None \<Rightarrow> Some (replacement, r))
          else Some (utf8_encode n, r))"

fun string_char :: "string \<Rightarrow> (string \<times> string) option" where
  "string_char [] = None"
| "string_char (c # s) =
     (if c = backslash then
        (case s of
           [] \<Rightarrow> None
         | e # r \<Rightarrow>
             if e = CHR ''u'' then unicode_escape r
             else (case simple_escape e of None \<Rightarrow> None | Some x \<Rightarrow> Some ([x], r)))
      else if byte_of c < 32 then None
      else (case rune_width (c # s) of
              None \<Rightarrow> Some (replacement, s)
            | Some n \<Rightarrow> Some (take n (c # s), drop n (c # s))))"

lemma hex4_shorter: "hex4 s = Some (n, r) \<Longrightarrow> length r < length s"
  by (cases s rule: hex4.cases) (auto split: option.splits)

lemma low_surrogate_shorter: "low_surrogate n s = Some (t, r) \<Longrightarrow> length r < length s"
  by (auto simp: low_surrogate_def split: list.splits option.splits if_splits dest!: hex4_shorter)

lemma unicode_escape_shorter: "unicode_escape s = Some (t, r) \<Longrightarrow> length r < length s"
  by (auto simp: unicode_escape_def split: option.splits if_splits dest!: hex4_shorter low_surrogate_shorter)

lemma string_char_shorter: "string_char s = Some (t, r) \<Longrightarrow> length r < length s"
  by (cases s) (auto split: list.splits option.splits if_splits
      dest: unicode_escape_shorter rune_width_range simp del: rune_width.simps)

text \<open>The rest of a string after its opening quote: its contents, and what follows the closing quote\<close>

function parse_str :: "string \<Rightarrow> (string \<times> string) option" where
  "parse_str [] = None"
| "parse_str (c # s) =
     (if c = dquote then Some ([], s)
      else (case string_char (c # s) of
              None \<Rightarrow> None
            | Some (t, r) \<Rightarrow> map_option (apfst ((@) t)) (parse_str r)))"
  by pat_completeness auto
termination
  by (relation "measure length") (auto dest: string_char_shorter simp del: string_char.simps)

subsection \<open>Numbers\<close>

definition digits :: "string \<Rightarrow> string" where
  "digits s = takeWhile is_digit s"

definition no_digits :: "string \<Rightarrow> string" where
  "no_digits s = dropWhile is_digit s"

text \<open>The three parts of a number; a part that is there in its beginnings must be complete.\<close>

definition scan_int :: "string \<Rightarrow> (string \<times> string) option" where
  "scan_int s =
     (case s of
        [] \<Rightarrow> None
      | c # r \<Rightarrow> if c = CHR ''0'' then Some (''0'', r)
                 else if is_digit c then Some (digits s, no_digits s) else None)"

definition scan_frac :: "string \<Rightarrow> (string \<times> string) option" where
  "scan_frac s =
     (case s of
        c # r \<Rightarrow> if c \<noteq> CHR ''.'' then Some ([], s)
                 else if digits r = [] then None else Some (c # digits r, no_digits r)
      | [] \<Rightarrow> Some ([], []))"

definition scan_exp :: "string \<Rightarrow> (string \<times> string) option" where
  "scan_exp s =
     (case s of
        c # r \<Rightarrow>
          if c \<noteq> CHR ''e'' \<and> c \<noteq> CHR ''E'' then Some ([], s)
          else (case (case r of x # r1 \<Rightarrow> if x = CHR ''+'' \<or> x = CHR ''-'' then ([x], r1) else ([], r) | [] \<Rightarrow> ([], r)) of
                  (sign, r1) \<Rightarrow> if digits r1 = [] then None else Some (c # sign @ digits r1, no_digits r1))
      | [] \<Rightarrow> Some ([], []))"

definition scan_sign :: "string \<Rightarrow> string \<times> string" where
  "scan_sign s = (case s of c # r \<Rightarrow> if c = CHR ''-'' then (''-'', r) else ([], s) | [] \<Rightarrow> ([], []))"

definition scan_number :: "string \<Rightarrow> (string \<times> string) option" where
  "scan_number s =
     (case scan_sign s of
        (sign, r) \<Rightarrow>
          (case scan_int r of
             None \<Rightarrow> None
           | Some (i, r1) \<Rightarrow>
               (case scan_frac r1 of
                  None \<Rightarrow> None
                | Some (f, r2) \<Rightarrow>
                    (case scan_exp r2 of None \<Rightarrow> None | Some (e, r3) \<Rightarrow> Some (sign @ i @ f @ e, r3)))))"

subsection \<open>Values\<close>

definition max_nesting :: nat where "max_nesting = 10000"

definition literal :: "string \<Rightarrow> json \<Rightarrow> string \<Rightarrow> (json \<times> string) option" where
  "literal w v s = (if has_prefix s w then Some (v, drop (length w) s) else None)"

text \<open>Values that are no containers\<close>

definition parse_scalar :: "string \<Rightarrow> (json \<times> string) option" where
  "parse_scalar s =
     (case s of
        [] \<Rightarrow> None
      | c # r \<Rightarrow>
          if c = dquote then map_option (apfst JStr) (parse_str r)
          else if c = CHR ''n'' then literal ''null'' JNull s
          else if c = CHR ''t'' then literal ''true'' (JBool True) s
          else if c = CHR ''f'' then literal ''false'' (JBool False) s
          else map_option (apfst JNum) (scan_number s))"

text \<open>
  The first argument is fuel, the second the number of levels that may still be opened. The
  elements of an array and the members of an object are read from the first one on, up to and
  including the closing bracket.
\<close>

fun parse_value :: "nat \<Rightarrow> nat \<Rightarrow> string \<Rightarrow> (json \<times> string) option"
  and parse_elems :: "nat \<Rightarrow> nat \<Rightarrow> string \<Rightarrow> (json list \<times> string) option"
  and parse_members :: "nat \<Rightarrow> nat \<Rightarrow> string \<Rightarrow> ((string \<times> json) list \<times> string) option" where
  "parse_value 0 d s = None"
| "parse_value (Suc n) d s =
     (case after CHR ''['' s of
        Some r \<Rightarrow>
          if d = 0 then None
          else (case after CHR '']'' r of
                  Some r1 \<Rightarrow> Some (JArr [], r1)
                | None \<Rightarrow> map_option (apfst JArr) (parse_elems n (d - 1) r))
      | None \<Rightarrow>
          (case after CHR ''{'' s of
             Some r \<Rightarrow>
               if d = 0 then None
               else (case after CHR ''}'' r of
                       Some r1 \<Rightarrow> Some (JObj [], r1)
                     | None \<Rightarrow> map_option (apfst JObj) (parse_members n (d - 1) r))
           | None \<Rightarrow> parse_scalar (skip s)))"
| "parse_elems 0 d s = None"
| "parse_elems (Suc n) d s =
     (case parse_value n d s of
        None \<Rightarrow> None
      | Some (v, r) \<Rightarrow>
          (case after CHR '']'' r of
             Some r1 \<Rightarrow> Some ([v], r1)
           | None \<Rightarrow>
               (case after CHR '','' r of
                  Some r1 \<Rightarrow> map_option (apfst ((#) v)) (parse_elems n d r1)
                | None \<Rightarrow> None)))"
| "parse_members 0 d s = None"
| "parse_members (Suc n) d s =
     (case after dquote s of
        None \<Rightarrow> None
      | Some r \<Rightarrow>
          (case parse_str r of
             None \<Rightarrow> None
           | Some (key, r1) \<Rightarrow>
               (case after CHR '':'' r1 of
                  None \<Rightarrow> None
                | Some r2 \<Rightarrow>
                    (case parse_value n d r2 of
                       None \<Rightarrow> None
                     | Some (v, r3) \<Rightarrow>
                         (case after CHR ''}'' r3 of
                            Some r4 \<Rightarrow> Some ([(key, v)], r4)
                          | None \<Rightarrow>
                              (case after CHR '','' r3 of
                                 Some r4 \<Rightarrow> map_option (apfst ((#) (key, v))) (parse_members n d r4)
                               | None \<Rightarrow> None))))))"

definition parse_first :: "string \<Rightarrow> (json \<times> string) option" where
  "parse_first s = parse_value (2 * length s + 2) max_nesting s"

text \<open>\<open>Decoder.Decode\<close> reads one value and ignores what follows it; \<open>Unmarshal\<close> does not.\<close>

definition json_decode :: "string \<Rightarrow> json option" where
  "json_decode s = map_option fst (parse_first s)"

definition json_unmarshal :: "string \<Rightarrow> json option" where
  "json_unmarshal s =
     (case parse_first s of Some (v, r) \<Rightarrow> if skip r = [] then Some v else None | None \<Rightarrow> None)"

section \<open>The fuel is enough\<close>

lemma after_shorter: "after c s = Some r \<Longrightarrow> length r < length s"
proof -
  assume "after c s = Some r"
  then have "skip s = c # r" by (auto simp: after_def split: list.splits if_splits)
  then show ?thesis using length_dropWhile_le [of json_space s] by (simp add: skip_def)
qed

lemma parse_str_shorter: "parse_str s = Some (t, r) \<Longrightarrow> length r < length s"
proof (induction s arbitrary: t rule: parse_str.induct)
  case (2 c s)
  show ?case
  proof (cases "c = dquote")
    case True
    then show ?thesis using 2 by simp
  next
    case False
    then obtain u q where u: "string_char (c # s) = Some (u, q)"
      using 2 by (auto simp del: string_char.simps split: option.splits)
    then obtain t' where "parse_str q = Some (t', r)"
      using 2(2) False by (auto simp del: string_char.simps)
    then have "length r < length q" using 2(1) [OF False u refl] by blast
    then show ?thesis using string_char_shorter [OF u] by simp
  qed
qed simp

lemma no_digits_shorter: "length (no_digits s) \<le> length s"
  by (simp add: no_digits_def length_dropWhile_le)

lemma scan_int_shorter: "scan_int s = Some (t, r) \<Longrightarrow> length r < length s"
  using no_digits_shorter [of "tl s"]
  by (cases s) (auto simp: scan_int_def no_digits_def split: if_splits)

lemma scan_frac_shorter: "scan_frac s = Some (t, r) \<Longrightarrow> length r \<le> length s"
  using no_digits_shorter [of "tl s"] by (cases s) (auto simp: scan_frac_def split: if_splits)

lemma scan_exp_shorter: "scan_exp s = Some (t, r) \<Longrightarrow> length r \<le> length s"
  using no_digits_shorter [of "tl s"] no_digits_shorter [of "tl (tl s)"]
  by (auto simp: scan_exp_def split: if_splits list.splits)

lemma scan_sign_shorter: "scan_sign s = (t, r) \<Longrightarrow> length r \<le> length s"
  by (auto simp: scan_sign_def split: list.splits if_splits)

lemma scan_number_cases:
  assumes "scan_number s = Some (t, r)"
  obtains sign q i x f y e where "scan_sign s = (sign, q)" "scan_int q = Some (i, x)" "scan_frac x = Some (f, y)"
    "scan_exp y = Some (e, r)" "t = sign @ i @ f @ e"
  using assms by (auto simp: scan_number_def split: option.splits prod.splits)

lemma scan_number_shorter: "scan_number s = Some (t, r) \<Longrightarrow> length r < length s"
  by (fastforce elim!: scan_number_cases dest: scan_sign_shorter scan_int_shorter scan_frac_shorter scan_exp_shorter)

lemma parse_scalar_shorter: "parse_scalar s = Some (v, r) \<Longrightarrow> length r < length s"
  by (cases s) (auto simp: parse_scalar_def literal_def split: if_splits
      dest!: parse_str_shorter scan_number_shorter)

lemma skip_shorter: "length (skip s) \<le> length s"
  by (simp add: skip_def length_dropWhile_le)

text \<open>The ways in which the parsers succeed\<close>

lemma parse_value_cases:
  assumes "parse_value (Suc n) d s = Some (v, r)"
  obtains
    (no_elems) q where "after CHR ''['' s = Some q" "d \<noteq> 0" "after CHR '']'' q = Some r" "v = JArr []"
  | (elems) q vs where "after CHR ''['' s = Some q" "d \<noteq> 0" "after CHR '']'' q = None" "v = JArr vs"
      "parse_elems n (d - 1) q = Some (vs, r)"
  | (no_members) q where "after CHR ''['' s = None" "after CHR ''{'' s = Some q" "d \<noteq> 0" "after CHR ''}'' q = Some r"
      "v = JObj []"
  | (members) q ms where "after CHR ''['' s = None" "after CHR ''{'' s = Some q" "d \<noteq> 0" "after CHR ''}'' q = None"
      "v = JObj ms" "parse_members n (d - 1) q = Some (ms, r)"
  | (scalar) "after CHR ''['' s = None" "after CHR ''{'' s = None" "parse_scalar (skip s) = Some (v, r)"
  using assms by (auto split: option.splits if_splits)

lemma parse_elems_cases:
  assumes "parse_elems (Suc n) d s = Some (vs, r)"
  obtains
    (last) v q where "parse_value n d s = Some (v, q)" "after CHR '']'' q = Some r" "vs = [v]"
  | (more) v q q1 ws where "parse_value n d s = Some (v, q)" "after CHR '']'' q = None" "after CHR '','' q = Some q1"
      "parse_elems n d q1 = Some (ws, r)" "vs = v # ws"
  using assms by (auto split: option.splits)

lemma parse_members_cases:
  assumes "parse_members (Suc n) d s = Some (ms, r)"
  obtains
    (last) q key q1 q2 v q3 where "after dquote s = Some q" "parse_str q = Some (key, q1)" "after CHR '':'' q1 = Some q2"
      "parse_value n d q2 = Some (v, q3)" "after CHR ''}'' q3 = Some r" "ms = [(key, v)]"
  | (more) q key q1 q2 v q3 q4 ns where "after dquote s = Some q" "parse_str q = Some (key, q1)" "after CHR '':'' q1 = Some q2"
      "parse_value n d q2 = Some (v, q3)" "after CHR ''}'' q3 = None" "after CHR '','' q3 = Some q4"
      "parse_members n d q4 = Some (ns, r)" "ms = (key, v) # ns"
  using assms by (auto split: option.splits)

text \<open>Every parser consumes at least one byte.\<close>

lemma parse_shorter:
  "(\<forall>d s v r. parse_value n d s = Some (v, r) \<longrightarrow> length r < length s) \<and>
   (\<forall>d s vs r. parse_elems n d s = Some (vs, r) \<longrightarrow> length r < length s) \<and>
   (\<forall>d s ms r. parse_members n d s = Some (ms, r) \<longrightarrow> length r < length s)"
proof (induction n)
  case (Suc n)
  then have v: "parse_value n d s = Some (v, r) \<Longrightarrow> length r < length s"
    and e: "parse_elems n d s = Some (vs, r) \<Longrightarrow> length r < length s"
    and m: "parse_members n d s = Some (ms, r) \<Longrightarrow> length r < length s" for d s v r vs ms
    by blast+
  have "length r < length s" if "parse_value (Suc n) d s = Some (v, r)" for d s v r
    using that
  proof (cases rule: parse_value_cases)
    case scalar
    then show ?thesis using parse_scalar_shorter skip_shorter by (meson less_le_trans)
  qed (use e m after_shorter in \<open>meson less_trans\<close>)+
  moreover have "length r < length s" if "parse_elems (Suc n) d s = Some (vs, r)" for d s vs r
    using that by (cases rule: parse_elems_cases) (use v e after_shorter in \<open>meson less_trans\<close>)+
  moreover have "length r < length s" if "parse_members (Suc n) d s = Some (ms, r)" for d s ms r
    using that by (cases rule: parse_members_cases) (use v m after_shorter parse_str_shorter in \<open>meson less_trans\<close>)+
  ultimately show ?case by blast
qed simp

lemmas parse_value_shorter = parse_shorter [THEN conjunct1, rule_format]

text \<open>More fuel than twice the length of the text makes no difference.\<close>

lemma fuel_step:
  "(\<forall>m d s. 2 * length s < n \<longrightarrow> 2 * length s < m \<longrightarrow> parse_value n d s = parse_value m d s) \<and>
   (\<forall>m d s. 2 * length s + 1 < n \<longrightarrow> 2 * length s + 1 < m \<longrightarrow> parse_elems n d s = parse_elems m d s) \<and>
   (\<forall>m d s. 2 * length s + 1 < n \<longrightarrow> 2 * length s + 1 < m \<longrightarrow> parse_members n d s = parse_members m d s)"
proof (induction n)
  case (Suc n)
  then have ih: "2 * length s < n \<Longrightarrow> 2 * length s < m \<Longrightarrow> parse_value n d s = parse_value m d s"
    "2 * length s + 1 < n \<Longrightarrow> 2 * length s + 1 < m \<Longrightarrow> parse_elems n d s = parse_elems m d s"
    "2 * length s + 1 < n \<Longrightarrow> 2 * length s + 1 < m \<Longrightarrow> parse_members n d s = parse_members m d s" for m d s
    by blast+
  have "parse_value (Suc n) d s = parse_value (Suc m) d s" if "2 * length s < Suc n" "2 * length s < Suc m" for m d s
  proof -
    have "parse_elems n (d - 1) q = parse_elems m (d - 1) q" if "after CHR ''['' s = Some q" for q
      using after_shorter [OF that] \<open>2 * length s < Suc n\<close> \<open>2 * length s < Suc m\<close> by (intro ih(2)) simp_all
    moreover have "parse_members n (d - 1) q = parse_members m (d - 1) q" if "after CHR ''{'' s = Some q" for q
      using after_shorter [OF that] \<open>2 * length s < Suc n\<close> \<open>2 * length s < Suc m\<close> by (intro ih(3)) simp_all
    ultimately show ?thesis by (simp split: option.split)
  qed
  moreover have "parse_elems (Suc n) d s = parse_elems (Suc m) d s"
    if "2 * length s + 1 < Suc n" "2 * length s + 1 < Suc m" for m d s
  proof -
    have "parse_value n d s = parse_value m d s" using that by (intro ih(1)) simp_all
    moreover have "parse_elems n d r1 = parse_elems m d r1"
      if "parse_value m d s = Some (v, r)" "after CHR '','' r = Some r1" for v r r1
      using parse_value_shorter [OF that(1)] after_shorter [OF that(2)]
        \<open>2 * length s + 1 < Suc n\<close> \<open>2 * length s + 1 < Suc m\<close> by (intro ih(2)) simp_all
    ultimately show ?thesis by (simp split: option.split)
  qed
  moreover have "parse_members (Suc n) d s = parse_members (Suc m) d s"
    if len: "2 * length s + 1 < Suc n" "2 * length s + 1 < Suc m" for m d s
  proof -
    have "parse_value n d r2 = parse_value m d r2"
      if "after dquote s = Some r" "parse_str r = Some (key, r1)" "after CHR '':'' r1 = Some r2" for r key r1 r2
      using after_shorter [OF that(1)] parse_str_shorter [OF that(2)] after_shorter [OF that(3)] len
      by (intro ih(1)) simp_all
    moreover have "parse_members n d r4 = parse_members m d r4"
      if "after dquote s = Some r" "parse_str r = Some (key, r1)" "after CHR '':'' r1 = Some r2"
        "parse_value m d r2 = Some (v, r3)" "after CHR '','' r3 = Some r4" for r key r1 r2 v r3 r4
      using after_shorter [OF that(1)] parse_str_shorter [OF that(2)] after_shorter [OF that(3)]
        parse_value_shorter [OF that(4)] after_shorter [OF that(5)] len
      by (intro ih(3)) simp_all
    ultimately show ?thesis by (simp split: option.split)
  qed
  ultimately show ?case by (intro conjI allI impI) (case_tac m; blast)+
qed simp

theorem parse_fuel: "2 * length s < n \<Longrightarrow> parse_value n max_nesting s = parse_first s"
  unfolding parse_first_def by (rule fuel_step [THEN conjunct1, rule_format]) simp_all

end
