(* ===== verification/Go_JSON_Roundtrip.thy ===== *)
theory Go_JSON_Roundtrip
  imports Go_JSON
begin

text \<open>
  The parser reads back what the printer printed, in either layout: the same value, with
  invalid UTF-8 in its strings repaired.
\<close>

section \<open>Strings\<close>

lemma hex_char_val: "n < 16 \<Longrightarrow> hex_digit_val (hex_char n) = Some n"
  by (auto simp: hex_char_def hex_digit_val_def is_digit_def Let_def)

lemma hex4_control:
  "n < 128 \<Longrightarrow> hex4 (CHR ''0'' # CHR ''0'' # hex_char (n div 16) # hex_char (n mod 16) # r) = Some (n, r)"
proof -
  assume "n < 128"
  moreover have "hex_digit_val CHR ''0'' = Some 0" by (simp add: hex_digit_val_def is_digit_def)
  ultimately show ?thesis by (simp add: hex_char_val)
qed

lemma dquote_backslash [simp]: "dquote \<noteq> backslash" "backslash \<noteq> dquote" "byte_of dquote = 34" "byte_of backslash = 92"
  by (simp_all add: dquote_def backslash_def)

lemma unicode_escape_bmp:
  "hex4 s = Some (n, r) \<Longrightarrow> n < 0xD800 \<or> 0xE000 \<le> n \<Longrightarrow> unicode_escape s = Some (utf8_encode n, r)"
  by (auto simp: unicode_escape_def)

lemma string_char_esc_byte:
  assumes "is_ascii c"
  shows "string_char (esc_byte c @ r) = Some ([c], r) \<and> (\<exists>x t. esc_byte c = x # t \<and> x \<noteq> dquote)"
proof -
  have c: "byte_of c = n \<Longrightarrow> c = char_of n" for n by (metis char_of_char)
  let ?html = "c \<in> {CHR ''<'', CHR ''>'', CHR ''&''}"
  consider (quoted) "c = dquote \<or> c = backslash" | (named) "byte_of c \<in> {8, 9, 10, 12, 13}"
    | (hex) "c \<noteq> dquote" "c \<noteq> backslash" "byte_of c \<notin> {8, 9, 10, 12, 13}" "byte_of c < 32 \<or> ?html"
    | (plain) "c \<noteq> dquote" "c \<noteq> backslash" "32 \<le> byte_of c" "\<not> ?html"
    by fastforce
  then show ?thesis
  proof cases
    case quoted
    then show ?thesis by (auto simp: esc_byte_def simple_escape_def dquote_def backslash_def)
  next
    case named
    then consider "c = CHR 0x08" | "c = CHR 0x09" | "c = CHR 0x0A" | "c = CHR 0x0C" | "c = CHR 0x0D"
      using c [of 8] c [of 9] c [of 10] c [of 12] c [of 13] by (auto simp: char_of_is(1))
    then show ?thesis by cases (simp_all add: esc_byte_def simple_escape_def dquote_def backslash_def)
  next
    case hex
    let ?n = "byte_of c"
    have n: "?n < 128" using assms by (simp add: is_ascii_def)
    have e: "esc_byte c = [backslash, CHR ''u'', CHR ''0'', CHR ''0'', hex_char (?n div 16), hex_char (?n mod 16)]"
      using hex by (auto simp: esc_byte_def)
    have "unicode_escape (CHR ''0'' # CHR ''0'' # hex_char (?n div 16) # hex_char (?n mod 16) # r) = Some (utf8_encode ?n, r)"
      using hex4_control [OF n, of r] n by (intro unicode_escape_bmp) simp_all
    then show ?thesis using n by (simp add: e utf8_encode_def)
  next
    case plain
    then have "esc_byte c = [c]" by (auto simp: esc_byte_def)
    then show ?thesis using plain rune_width_ascii [OF assms, of r] by (simp del: rune_width.simps)
  qed
qed

lemma esc_separators:
  "esc_unit [CHR 0xE2, CHR 0x80, CHR 0xA8] = backslash # ''u202'' @ [CHR ''8'']"
  "esc_unit [CHR 0xE2, CHR 0x80, CHR 0xA9] = backslash # ''u202'' @ [CHR ''9'']"
  by (simp_all add: esc_unit_def cont_byte_def)

lemma string_char_esc:
  assumes "valid_unit u \<or> (\<exists>c. u = [c] \<and> rune_width [c] = None)"
  shows "string_char (esc_unit u @ r) = Some (fix_unit u, r) \<and> (\<exists>x t. esc_unit u = x # t \<and> x \<noteq> dquote)"
proof (cases "rune_width u")
  case None
  have "hex4 (''fffd'' @ r) = Some (0xFFFD, r)" by (simp add: hex_digit_val_def is_digit_def)
  from unicode_escape_bmp [OF this]
  have "unicode_escape (''fffd'' @ r) = Some (replacement, r)" by (simp add: utf8_encode_def replacement_def char_of_is)
  then show ?thesis using None by (simp add: esc_unit_def fix_unit_def)
next
  case (Some n)
  then have v: "valid_unit u" using assms by auto
  then have f: "fix_unit u = u" by (rule fix_unit_id)
  obtain c t where u: "u = c # t" using valid_unit_not_Nil [OF v] by (cases u) auto
  let ?sep = "\<lambda>x. [CHR 0xE2, CHR 0x80, x]"
  show ?thesis
  proof (cases "t = []")
    case True
    have "is_ascii c" using v True by (simp add: valid_unit_def u rune_width_one del: rune_width.simps)
    moreover have "esc_unit u = esc_byte c" using Some True by (simp add: esc_unit_def u)
    ultimately show ?thesis using string_char_esc_byte [of c r] f u True by simp
  next
    case wide: False
    show ?thesis
    proof (cases "u = ?sep CHR 0xA8 \<or> u = ?sep CHR 0xA9")
      case True
      then obtain x where x: "x \<in> {CHR ''8'', CHR ''9''}" "esc_unit u = backslash # ''u202'' @ [x]"
          "u = ?sep (char_of (byte_of x + 112))"
      proof (rule disjE)
        assume "u = ?sep CHR 0xA8"
        then show thesis using that [of "CHR ''8''"] esc_separators(1) by (simp add: char_of_is)
      next
        assume "u = ?sep CHR 0xA9"
        then show thesis using that [of "CHR ''9''"] esc_separators(2) by (simp add: char_of_is)
      qed
      have "hex4 (''202'' @ x # r) = Some (0x2020 + (byte_of x - 48), r)"
        using x(1) by (auto simp: hex_digit_val_def is_digit_def)
      from unicode_escape_bmp [OF this]
      have "unicode_escape (''202'' @ x # r) = Some (u, r)"
        using x(1,3) by (auto simp: utf8_encode_def char_of_is)
      then show ?thesis using x(2) f by simp
    next
      case False
      then have "esc_unit u = u" using Some wide u by (auto simp: esc_unit_def split: list.split)
      have "length u \<noteq> 1" using wide u by simp
      then have "128 \<le> byte_of c" using v u rune_width_high [of u "length u" c] by (simp add: valid_unit_def)
      then have "c \<noteq> dquote" "c \<noteq> backslash" "\<not> byte_of c < 32" by auto
      then show ?thesis using \<open>esc_unit u = u\<close> f u valid_unit_append [OF v, of r] by (simp del: rune_width.simps)
    qed
  qed
qed

lemma parse_str_units:
  assumes "\<forall>u \<in> set us. valid_unit u \<or> (\<exists>c. u = [c] \<and> rune_width [c] = None)"
  shows "parse_str (concat (map esc_unit us) @ dquote # r) = Some (concat (map fix_unit us), r)"
  using assms
proof (induction us)
  case (Cons u us)
  then obtain x t where "esc_unit u = x # t" "x \<noteq> dquote" "string_char (x # t @ concat (map esc_unit us) @ dquote # r) = Some (fix_unit u, concat (map esc_unit us) @ dquote # r)"
    using string_char_esc [of u "concat (map esc_unit us) @ dquote # r"] by auto
  then show ?case using Cons by (simp del: string_char.simps)
qed simp

lemma parse_str_quote: "parse_str (tl (json_quote s) @ r) = Some (utf8_fix s, r)"
  using parse_str_units [of "utf8_units s" r] utf8_units_kinds [of _ s] by (auto simp: json_quote_def utf8_fix_def)

section \<open>Numbers\<close>

definition ends_value :: "string \<Rightarrow> bool" where
  "ends_value r \<longleftrightarrow> (case r of [] \<Rightarrow> True | c # t \<Rightarrow> \<not> is_digit c \<and> c \<notin> {CHR ''.'', CHR ''e'', CHR ''E''})"

lemma nat_digits_zero: "nat_digits n = CHR ''0'' # s \<Longrightarrow> s = []"
proof (induction n arbitrary: s rule: nat_digits.induct)
  case (1 n)
  show ?case
  proof (cases "n < 10")
    case True
    then show ?thesis using 1(2) by (subst (asm) nat_digits.simps) simp
  next
    case False
    then have e: "nat_digits (n div 10) @ [digit_char (n mod 10)] = CHR ''0'' # s"
      using 1(2) by (subst (asm) nat_digits.simps) simp
    then obtain t where t: "nat_digits (n div 10) = CHR ''0'' # t" by (cases "nat_digits (n div 10)") auto
    then have "nat_digits (n div 10) = ''0''" using 1(1) [OF False t] by simp
    then have "n div 10 = digits_value ''0''" using digits_value_nat_digits [of "n div 10"] by simp
    also have "\<dots> = 0" by (simp add: digits_value_def digit_val_def)
    finally show ?thesis using False by simp
  qed
qed

lemma digits_append: "list_all is_digit ds \<Longrightarrow> ends_value r \<Longrightarrow> digits (ds @ r) = ds \<and> no_digits (ds @ r) = r"
  by (induction ds) (auto simp: digits_def no_digits_def ends_value_def split: list.splits)

lemma scan_int_nat: "ends_value r \<Longrightarrow> scan_int (nat_digits n @ r) = Some (nat_digits n, r)"
proof -
  assume r: "ends_value r"
  obtain c t where ct: "nat_digits n = c # t" by (cases "nat_digits n") auto
  show ?thesis
  proof (cases "c = CHR ''0''")
    case True
    then show ?thesis using nat_digits_zero [of n t] ct by (simp add: scan_int_def)
  next
    case False
    then show ?thesis
      using digits_append [OF nat_digits_all_digits r, of n] nat_digits_hd [OF ct] ct by (simp add: scan_int_def)
  qed
qed

lemma scan_number_itoa:
  assumes "ends_value r"
  shows "scan_number (itoa i @ r) = Some (itoa i, r)"
proof -
  have end_: "scan_frac r = Some ([], r)" "scan_exp r = Some ([], r)"
    using assms by (auto simp: ends_value_def scan_frac_def scan_exp_def split: list.splits)
  have "scan_sign (itoa i @ r) = (if i < 0 then (''-'', nat_digits (nat (- i)) @ r) else ([], nat_digits (nat i) @ r))"
  proof (cases "i < 0")
    case True
    then show ?thesis by (simp add: itoa_def scan_sign_def)
  next
    case False
    obtain c t where ct: "nat_digits (nat i) = c # t" by (cases "nat_digits (nat i)") auto
    then have "c \<noteq> CHR ''-''" using nat_digits_hd [OF ct] by auto
    then show ?thesis using False ct by (simp add: itoa_def scan_sign_def)
  qed
  then show ?thesis by (simp add: scan_number_def scan_int_nat [OF assms] end_ itoa_def)
qed


section \<open>Values\<close>

text \<open>What a value is read back as\<close>

fun fix_json :: "json \<Rightarrow> json" where
  "fix_json (JStr s) = JStr (utf8_fix s)"
| "fix_json (JArr vs) = JArr (map fix_json vs)"
| "fix_json (JObj ms) = JObj (map (\<lambda>m. (utf8_fix (fst m), fix_json (snd m))) ms)"
| "fix_json v = v"

text \<open>Numbers are the text of integers; \<open>nesting\<close> is the number of levels of containers.\<close>

fun wf_json :: "json \<Rightarrow> bool" where
  "wf_json (JNum n) = (\<exists>i. n = itoa i)"
| "wf_json (JArr vs) = (\<forall>v \<in> set vs. wf_json v)"
| "wf_json (JObj ms) = (\<forall>m \<in> set ms. wf_json (snd m))"
| "wf_json v = True"

fun nesting :: "json \<Rightarrow> nat" where
  "nesting (JArr vs) = Suc (fold max (map nesting vs) 0)"
| "nesting (JObj ms) = Suc (fold max (map (\<lambda>m. nesting (snd m)) ms) 0)"
| "nesting v = 0"

lemma nesting_le: "fold max ns a \<le> (d :: nat) \<longleftrightarrow> a \<le> d \<and> (\<forall>n \<in> set ns. n \<le> d)"
  by (induction ns arbitrary: a) auto

text \<open>A parser yields a result with all large enough amounts of fuel.\<close>

definition reads :: "(nat \<Rightarrow> 'a option) \<Rightarrow> 'a \<Rightarrow> bool" where
  "reads p x \<longleftrightarrow> (\<exists>n. \<forall>m \<ge> n. p m = Some x)"

lemma reads_Suc: "reads (\<lambda>m. p (Suc m)) x \<Longrightarrow> reads p x"
  unfolding reads_def by (metis Suc_le_D Suc_le_mono)

lemma reads_const: "(\<And>m. p m = Some x) \<Longrightarrow> reads p x"
  by (auto simp: reads_def)

lemma reads_bind:
  assumes "reads p x" "reads f y" "\<And>m. p m = Some x \<Longrightarrow> q m = h (f m)" "h (Some y) = Some z"
  shows "reads q z"
proof -
  obtain n k where "\<forall>m \<ge> n. p m = Some x" "\<forall>m \<ge> k. f m = Some y" using assms(1,2) by (auto simp: reads_def)
  then have "\<forall>m \<ge> max n k. q m = Some z" using assms(3,4) by simp
  then show ?thesis unfolding reads_def by blast
qed

lemma reads_map: "reads p x \<Longrightarrow> (\<And>m. p m = Some x \<Longrightarrow> q m = Some y) \<Longrightarrow> reads q y"
  unfolding reads_def by blast

lemma reads_first: "reads (\<lambda>m. parse_value m max_nesting s) x \<Longrightarrow> parse_first s = Some x"
proof -
  assume "reads (\<lambda>m. parse_value m max_nesting s) x"
  then obtain n where n: "\<forall>m \<ge> n. parse_value m max_nesting s = Some x" by (auto simp: reads_def)
  then show ?thesis using parse_fuel [of s "max n (Suc (2 * length s))"] n by simp
qed

subsection \<open>White space\<close>

definition blank :: "string \<Rightarrow> bool" where
  "blank ws \<longleftrightarrow> list_all json_space ws"

lemma blank_simps [simp]: "blank []" "blank (line_break ind k)" "blank '' ''"
  by (auto simp: blank_def line_break_def list_all_iff json_space_def)

lemma skip_blank: "blank ws \<Longrightarrow> \<not> json_space c \<Longrightarrow> skip (ws @ c # r) = c # r"
  by (induction ws) (auto simp: blank_def skip_def)

lemma after_blank: "blank ws \<Longrightarrow> \<not> json_space c \<Longrightarrow> after x (ws @ c # r) = (if c = x then Some r else None)"
  by (simp add: after_def skip_blank)

text \<open>How a printed value begins\<close>

definition value_start :: "char \<Rightarrow> bool" where
  "value_start c \<longleftrightarrow> \<not> json_space c \<and> c \<notin> {CHR '']'', CHR ''}'', CHR '','', CHR '':''}"

lemma value_start_chars [simp]:
  "value_start CHR ''[''" "value_start CHR ''{''" "value_start dquote"
  "value_start CHR ''n''" "value_start CHR ''t''" "value_start CHR ''f''"
  by (simp_all add: value_start_def json_space_def dquote_def)

lemma value_start_number: "is_digit c \<or> c = CHR ''-'' \<Longrightarrow> value_start c"
  by (auto simp: value_start_def json_space_def is_digit_def)

lemma print_start: "wf_json v \<Longrightarrow> \<exists>c t. print_json ind k v = c # t \<and> value_start c"
proof (cases v)
  case (JNum n)
  assume "wf_json v"
  then obtain i where i: "n = itoa i" using JNum by auto
  show ?thesis
  proof (cases "i < 0")
    case True
    then show ?thesis using JNum i by (simp add: itoa_def value_start_number)
  next
    case False
    obtain c t where "nat_digits (nat i) = c # t" by (cases "nat_digits (nat i)") auto
    then show ?thesis using JNum i False nat_digits_hd [of "nat i"] by (simp add: itoa_def value_start_number)
  qed
next
  case (JArr vs)
  then show ?thesis by (cases vs) simp_all
next
  case (JObj ms)
  then show ?thesis by (cases ms) simp_all
qed (auto simp: json_quote_def)

subsection \<open>Reading what was printed\<close>

lemma json_space_chars [simp]:
  "\<not> json_space CHR '']''" "\<not> json_space CHR ''}''" "\<not> json_space CHR '',''" "\<not> json_space CHR '':''" "\<not> json_space dquote"
  "\<not> json_space CHR ''[''" "\<not> json_space CHR ''{''"
  by (simp_all add: json_space_def dquote_def)

lemma ends_chars [simp]:
  "ends_value []" "ends_value (CHR '']'' # r)" "ends_value (CHR ''}'' # r)" "ends_value (CHR '','' # r)"
  by (simp_all add: ends_value_def is_digit_def)

lemma ends_line [simp]: "ends_value r \<Longrightarrow> ends_value (line_break ind k @ r)"
  by (auto simp: line_break_def ends_value_def is_digit_def)

lemma print_not: "wf_json v \<Longrightarrow> blank ws \<Longrightarrow> c \<in> {CHR '']'', CHR ''}''} \<Longrightarrow> after c (ws @ print_json ind k v @ r) = None"
  using print_start [of v ind k] by (auto simp: after_blank value_start_def)

lemma parse_print_elems:
  assumes "\<And>w ws r. w \<in> set (v # vs) \<Longrightarrow> blank ws \<Longrightarrow> ends_value r \<Longrightarrow>
      reads (\<lambda>m. parse_value m d (ws @ print_json ind k w @ r)) (fix_json w, r)"
    and "blank ws"
  shows "reads (\<lambda>m. parse_elems m d (ws @ print_json ind k v
      @ concat (map (\<lambda>w. '','' @ line_break ind k @ print_json ind k w) vs) @ line_break ind l @ CHR '']'' # r))
    (map fix_json (v # vs), r)"
  using assms
proof (induction vs arbitrary: v ws)
  case Nil
  let ?r = "line_break ind l @ CHR '']'' # r"
  have "reads (\<lambda>m. parse_value m d (ws @ print_json ind k v @ ?r)) (fix_json v, ?r)" using Nil by simp
  then have "reads (\<lambda>m. parse_elems (Suc m) d (ws @ print_json ind k v @ ?r)) ([fix_json v], r)"
    by (rule reads_map) (simp add: after_blank)
  then show ?case by (auto intro: reads_Suc)
next
  case (Cons w vs)
  let ?more = "line_break ind k @ print_json ind k w
      @ concat (map (\<lambda>w. '','' @ line_break ind k @ print_json ind k w) vs) @ line_break ind l @ CHR '']'' # r"
  let ?text = "ws @ print_json ind k v @ CHR '','' # ?more"
  have one: "reads (\<lambda>m. parse_value m d ?text) (fix_json v, CHR '','' # ?more)" using Cons.prems by simp
  have "reads (\<lambda>m. parse_elems m d ?more) (map fix_json (w # vs), r)"
    using Cons.prems(1) by (intro Cons.IH) simp_all
  then have "reads (\<lambda>m. parse_elems (Suc m) d ?text) (map fix_json (v # w # vs), r)"
    by (rule reads_bind [OF one, where h = "map_option (apfst ((#) (fix_json v)))"])
      (simp_all add: after_blank [of "[]", simplified])
  then show ?case by (auto intro: reads_Suc)
qed

lemma colon_after: "after CHR '':'' (colon ind @ r) = Some (drop 1 (colon ind) @ r)" "blank (drop 1 (colon ind))"
  by (simp_all add: colon_def after_blank [of "[]", simplified])

lemma parse_print_members:
  assumes "\<And>m ws r. m \<in> set (x # ms) \<Longrightarrow> blank ws \<Longrightarrow> ends_value r \<Longrightarrow>
      reads (\<lambda>n. parse_value n d (ws @ print_json ind k (snd m) @ r)) (fix_json (snd m), r)"
    and "blank ws"
  shows "reads (\<lambda>n. parse_members n d (ws @ json_quote (fst x) @ colon ind @ print_json ind k (snd x)
      @ concat (map (\<lambda>m. '','' @ line_break ind k @ json_quote (fst m) @ colon ind @ print_json ind k (snd m)) ms)
      @ line_break ind l @ CHR ''}'' # r))
    (map (\<lambda>m. (utf8_fix (fst m), fix_json (snd m))) (x # ms), r)"
  using assms
proof (induction ms arbitrary: x ws)
  case Nil
  let ?r = "line_break ind l @ CHR ''}'' # r"
  let ?item = "\<lambda>m. parse_value m d (drop 1 (colon ind) @ print_json ind k (snd x) @ ?r)"
  have "reads ?item (fix_json (snd x), ?r)" using Nil colon_after(2) by simp
  then have "reads (\<lambda>m. parse_members (Suc m) d (ws @ json_quote (fst x) @ colon ind @ print_json ind k (snd x) @ ?r))
      ([(utf8_fix (fst x), fix_json (snd x))], r)"
    by (rule reads_map)
      (use Nil parse_str_quote [of "fst x"] colon_after in \<open>simp add: after_blank json_quote_def\<close>)
  then show ?case by (auto intro: reads_Suc)
next
  case (Cons y ms)
  let ?more = "line_break ind k @ json_quote (fst y) @ colon ind @ print_json ind k (snd y)
      @ concat (map (\<lambda>m. '','' @ line_break ind k @ json_quote (fst m) @ colon ind @ print_json ind k (snd m)) ms)
      @ line_break ind l @ CHR ''}'' # r"
  let ?text = "ws @ json_quote (fst x) @ colon ind @ print_json ind k (snd x) @ CHR '','' # ?more"
  let ?item = "\<lambda>m. parse_value m d (drop 1 (colon ind) @ print_json ind k (snd x) @ CHR '','' # ?more)"
  have one: "reads ?item (fix_json (snd x), CHR '','' # ?more)"
    using Cons.prems colon_after(2) by simp
  have "reads (\<lambda>m. parse_members m d ?more) (map (\<lambda>m. (utf8_fix (fst m), fix_json (snd m))) (y # ms), r)"
    using Cons.prems(1) by (intro Cons.IH) simp_all
  then have "reads (\<lambda>m. parse_members (Suc m) d ?text) (map (\<lambda>m. (utf8_fix (fst m), fix_json (snd m))) (x # y # ms), r)"
    by (rule reads_bind [OF one, where h = "map_option (apfst ((#) (utf8_fix (fst x), fix_json (snd x))))"])
      (use Cons.prems parse_str_quote [of "fst x"] colon_after in
        \<open>simp_all add: after_blank after_blank [of "[]", simplified] json_quote_def\<close>)
  then show ?case by (auto intro: reads_Suc)
qed

lemma parse_scalar_print:
  assumes "wf_json v" "ends_value r" "\<nexists>vs. v = JArr vs" "\<nexists>ms. v = JObj ms" "print_json ind k v = c # t"
  shows "parse_scalar (c # t @ r) = Some (fix_json v, r) \<and> c \<noteq> CHR ''['' \<and> c \<noteq> CHR ''{''"
proof (cases v)
  case (JNum n)
  then obtain i where i: "n = itoa i" using assms(1) by auto
  then have "is_digit c \<or> c = CHR ''-''"
    using assms(5) JNum nat_digits_hd by (auto simp: itoa_def split: if_splits)
  then have "c \<notin> {dquote, CHR ''n'', CHR ''t'', CHR ''f'', CHR ''['', CHR ''{''}"
    by (auto simp: is_digit_def dquote_def)
  then show ?thesis using scan_number_itoa [OF assms(2), of i] JNum i assms(5) by (simp add: parse_scalar_def)
next
  case (JStr s)
  then have "c = dquote" "t = tl (json_quote s)" using assms(5) by (auto simp: json_quote_def)
  then show ?thesis using parse_str_quote [of s r] JStr by (simp add: parse_scalar_def dquote_def)
next
  case JNull
  then have "c = CHR ''n''" "t = ''ull''" using assms(5) by auto
  then show ?thesis using JNull by (simp add: parse_scalar_def literal_def dquote_def)
next
  case (JBool b)
  then have "c = (if b then CHR ''t'' else CHR ''f'')" "t = (if b then ''rue'' else ''alse'')" using assms(5) by (auto split: if_splits)
  then show ?thesis using JBool by (simp add: parse_scalar_def literal_def dquote_def)
qed (use assms(3,4) in blast)+

lemma parse_print_scalar:
  assumes "wf_json v" "blank ws" "ends_value r" "\<nexists>vs. v = JArr vs" "\<nexists>ms. v = JObj ms"
  shows "reads (\<lambda>m. parse_value m d (ws @ print_json ind k v @ r)) (fix_json v, r)"
proof -
  obtain c t where ct: "print_json ind k v = c # t" "value_start c" using print_start [OF assms(1)] by blast
  note sc = parse_scalar_print [OF assms(1,3,4,5) ct(1)]
  have "\<not> json_space c" using ct(2) by (simp add: value_start_def)
  then have "parse_value (Suc m) d (ws @ print_json ind k v @ r) = Some (fix_json v, r)" for m
    using sc assms(2) by (simp add: ct(1) after_blank skip_blank)
  then show ?thesis by (rule reads_Suc [OF reads_const])
qed

theorem parse_print:
  assumes "wf_json v" "nesting v \<le> d" "blank ws" "ends_value r"
  shows "reads (\<lambda>m. parse_value m d (ws @ print_json ind k v @ r)) (fix_json v, r)"
  using assms
proof (induction v arbitrary: d k ws r)
  case (JArr vs)
  show ?case
  proof (cases vs)
    case Nil
    have "reads (\<lambda>m. parse_value (Suc m) d (ws @ print_json ind k (JArr vs) @ r)) (fix_json (JArr vs), r)"
      using JArr.prems Nil by (intro reads_const) (simp add: after_blank after_blank [of "[]", simplified])
    then show ?thesis by (rule reads_Suc)
  next
    case (Cons w ws')
    let ?rest = "print_json ind (Suc k) w @ concat (map (\<lambda>w. '','' @ line_break ind (Suc k) @ print_json ind (Suc k) w) ws')
        @ line_break ind k @ CHR '']'' # r"
    have d: "nesting x \<le> d - 1" "d \<noteq> 0" if "x \<in> set vs" for x
      using JArr.prems(2) that nesting_le [of "map nesting vs" 0 "d - 1"] by auto
    have "reads (\<lambda>m. parse_elems m (d - 1) (line_break ind (Suc k) @ ?rest)) (map fix_json (w # ws'), r)"
    proof (rule parse_print_elems)
      fix x ws1 r1 assume "x \<in> set (w # ws')" "blank ws1" "ends_value r1"
      moreover from this have "x \<in> set vs" "wf_json x" using JArr.prems(1) Cons by auto
      ultimately show "reads (\<lambda>m. parse_value m (d - 1) (ws1 @ print_json ind (Suc k) x @ r1)) (fix_json x, r1)"
        by (intro JArr.IH d)
    qed simp
    moreover have "after CHR '']'' (line_break ind (Suc k) @ ?rest) = None"
      using JArr.prems(1) Cons by (intro print_not) simp_all
    ultimately have "reads (\<lambda>m. parse_value (Suc m) d (ws @ print_json ind k (JArr vs) @ r)) (fix_json (JArr vs), r)"
      using JArr.prems(3) d(2) [of w] Cons by (elim reads_map) (simp add: after_blank)
    then show ?thesis by (rule reads_Suc)
  qed
next
  case (JObj ms)
  show ?case
  proof (cases ms)
    case Nil
    have "reads (\<lambda>m. parse_value (Suc m) d (ws @ print_json ind k (JObj ms) @ r)) (fix_json (JObj ms), r)"
      using JObj.prems Nil by (intro reads_const) (simp add: after_blank after_blank [of "[]", simplified])
    then show ?thesis by (rule reads_Suc)
  next
    case (Cons x xs)
    let ?rest = "json_quote (fst x) @ colon ind @ print_json ind (Suc k) (snd x)
        @ concat (map (\<lambda>m. '','' @ line_break ind (Suc k) @ json_quote (fst m) @ colon ind @ print_json ind (Suc k) (snd m)) xs)
        @ line_break ind k @ CHR ''}'' # r"
    have d: "nesting (snd m) \<le> d - 1" "d \<noteq> 0" if "m \<in> set ms" for m
      using JObj.prems(2) that nesting_le [of "map (\<lambda>m. nesting (snd m)) ms" 0 "d - 1"] by auto
    have "reads (\<lambda>m. parse_members m (d - 1) (line_break ind (Suc k) @ ?rest))
        (map (\<lambda>m. (utf8_fix (fst m), fix_json (snd m))) (x # xs), r)"
    proof (rule parse_print_members)
      fix m ws1 r1 assume "m \<in> set (x # xs)" "blank ws1" "ends_value r1"
      moreover from this have "m \<in> set ms" "wf_json (snd m)" using JObj.prems(1) Cons by auto
      ultimately show "reads (\<lambda>n. parse_value n (d - 1) (ws1 @ print_json ind (Suc k) (snd m) @ r1)) (fix_json (snd m), r1)"
        using d by (intro JObj.IH [of m]) (simp_all add: snds.simps)
    qed simp
    moreover have "after CHR ''}'' (line_break ind (Suc k) @ ?rest) = None"
      by (simp add: json_quote_def after_blank) (simp add: dquote_def)
    ultimately have "reads (\<lambda>m. parse_value (Suc m) d (ws @ print_json ind k (JObj ms) @ r)) (fix_json (JObj ms), r)"
      using JObj.prems(3) d(2) [of x] Cons by (elim reads_map) (simp add: after_blank)
    then show ?thesis by (rule reads_Suc)
  qed
qed (rule parse_print_scalar; simp)+

theorem parse_first_print:
  assumes "wf_json v" "nesting v \<le> max_nesting" "ends_value r"
  shows "parse_first (print_json ind k v @ r) = Some (fix_json v, r)"
  using reads_first parse_print [OF assms(1,2) _ assms(3), of "[]"] by simp

end
