(* ===== verification/Go_JSON_Decode.thy ===== *)
theory Go_JSON_Decode
  imports Go_JSON_Roundtrip
begin

text \<open>
  How \<open>encoding/json\<close> stores a parsed value in a Go variable. A decoder takes the value and the
  old contents of the variable; it fails where \<open>Decode\<close> and \<open>Unmarshal\<close> return an error for a
  wrong type. \<open>null\<close> leaves a variable that is no slice or pointer as it is.
\<close>

type_synonym 'a decoder = "json \<Rightarrow> 'a \<Rightarrow> 'a option"

definition decode_string :: "string decoder" where
  "decode_string v old = (case v of JStr s \<Rightarrow> Some s | JNull \<Rightarrow> Some old | _ \<Rightarrow> None)"

definition decode_bool :: "bool decoder" where
  "decode_bool v old = (case v of JBool b \<Rightarrow> Some b | JNull \<Rightarrow> Some old | _ \<Rightarrow> None)"

text \<open>An \<open>int\<close> takes the text of a 64-bit integer only, not \<open>1.0\<close> or \<open>1e3\<close>.\<close>

definition decode_int :: "int decoder" where
  "decode_int v old = (case v of JNum n \<Rightarrow> atoi n | JNull \<Rightarrow> Some old | _ \<Rightarrow> None)"

text \<open>
  A slice is the list of its elements with what its array holds behind them. Decoding an array
  overwrites the elements in place, so a repeated member with \<open>null\<close> elements brings back what
  was there before; an empty array and \<open>null\<close> start afresh.
\<close>

type_synonym 'a slice = "'a list \<times> 'a list"

fun decode_elems :: "'a decoder \<Rightarrow> 'a \<Rightarrow> json list \<Rightarrow> 'a list \<Rightarrow> 'a list option" where
  "decode_elems dec zero [] old = Some []"
| "decode_elems dec zero (v # vs) old =
     (case dec v (case old of [] \<Rightarrow> zero | x # _ \<Rightarrow> x) of
        None \<Rightarrow> None
      | Some x \<Rightarrow> map_option ((#) x) (decode_elems dec zero vs (tl old)))"

definition decode_slice :: "'a decoder \<Rightarrow> 'a \<Rightarrow> 'a slice decoder" where
  "decode_slice dec zero v s =
     (case v of
        JNull \<Rightarrow> Some ([], [])
      | JArr [] \<Rightarrow> Some ([], [])
      | JArr vs \<Rightarrow>
          map_option (\<lambda>xs. (xs, drop (length xs) (fst s @ snd s))) (decode_elems dec zero vs (fst s @ snd s))
      | _ \<Rightarrow> None)"

text \<open>
  \<open>foldName\<close>: the names of members are compared without regard to case if no field has exactly
  that name. Two runes outside ASCII fold to letters; the others are left as they are here,
  which makes no difference for field names in ASCII.
\<close>

definition fold_unit :: "string \<Rightarrow> string" where
  "fold_unit u =
     (if u = [CHR 0xC5, CHR 0xBF] then ''S''
      else if u = [CHR 0xE2, CHR 0x84, CHR 0xAA] then ''K''
      else (case u of [c] \<Rightarrow> [if is_lower c then char_of (byte_of c - 32) else c] | _ \<Rightarrow> u))"

definition fold_name :: "string \<Rightarrow> string" where
  "fold_name s = concat (map fold_unit (utf8_units s))"

definition lookup_field :: "string \<Rightarrow> (string \<times> 'a decoder) list \<Rightarrow> 'a decoder option" where
  "lookup_field key fields =
     (case map_of fields key of
        Some dec \<Rightarrow> Some dec
      | None \<Rightarrow> map_option snd (find (\<lambda>f. fold_name (fst f) = fold_name key) fields))"

text \<open>The members of an object in their order; those without a field are ignored.\<close>

fun decode_fields :: "(string \<times> 'a decoder) list \<Rightarrow> (string \<times> json) list \<Rightarrow> 'a \<Rightarrow> 'a option" where
  "decode_fields fields [] a = Some a"
| "decode_fields fields ((key, v) # ms) a =
     (case lookup_field key fields of
        None \<Rightarrow> decode_fields fields ms a
      | Some dec \<Rightarrow> (case dec v a of None \<Rightarrow> None | Some b \<Rightarrow> decode_fields fields ms b))"

definition decode_struct :: "(string \<times> 'a decoder) list \<Rightarrow> 'a decoder" where
  "decode_struct fields v a =
     (case v of JObj ms \<Rightarrow> decode_fields fields ms a | JNull \<Rightarrow> Some a | _ \<Rightarrow> None)"

text \<open>The decoder of one field of a struct\<close>

definition field :: "('a \<Rightarrow> 'b) \<Rightarrow> ('b \<Rightarrow> 'a \<Rightarrow> 'a) \<Rightarrow> 'b decoder \<Rightarrow> 'a decoder" where
  "field get put dec v a = map_option (\<lambda>x. put x a) (dec v (get a))"

definition decode_strings :: "string slice decoder" where
  "decode_strings = decode_slice decode_string []"

definition json_strings :: "string list \<Rightarrow> json" where
  "json_strings xs = JArr (map JStr xs)"

section \<open>Lemmas\<close>

lemma decode_simps [simp]:
  "decode_string (JStr s) old = Some s" "decode_string JNull old = Some old"
  "decode_bool (JBool b) c = Some b" "decode_bool JNull c = Some c"
  "decode_int (JNum n) i = atoi n" "decode_int JNull i = Some i"
  by (simp_all add: decode_string_def decode_bool_def decode_int_def)

lemma decode_struct_obj [simp]:
  "decode_struct fields (JObj ms) a = decode_fields fields ms a" "decode_struct fields JNull a = Some a"
  by (simp_all add: decode_struct_def)

lemma lookup_exact: "map_of fields key = Some dec \<Longrightarrow> lookup_field key fields = Some dec"
  by (simp add: lookup_field_def)

lemma decode_elems_fresh:
  "(\<And>v. v \<in> set vs \<Longrightarrow> dec v zero = Some (f v)) \<Longrightarrow> decode_elems dec zero vs [] = Some (map f vs)"
  by (induction vs) simp_all

lemma decode_strings_fix [simp]: "decode_strings (fix_json (json_strings xs)) ([], []) = Some (map utf8_fix xs, [])"
proof (cases xs)
  case Nil
  then show ?thesis by (simp add: decode_strings_def decode_slice_def json_strings_def)
next
  case (Cons x ys)
  have "decode_elems decode_string [] (map (\<lambda>x. JStr (utf8_fix x)) xs) [] = Some (map utf8_fix xs)"
    by (induction xs) simp_all
  then show ?thesis by (simp add: decode_strings_def decode_slice_def json_strings_def Cons comp_def)
qed

lemma wf_strings [simp]: "wf_json (json_strings xs)"
  by (simp add: json_strings_def)

lemma nesting_strings: "nesting (json_strings xs) \<le> 1"
  unfolding json_strings_def nesting.simps One_nat_def Suc_le_mono nesting_le by auto

end
