(* ===== verification/Error_Text.thy ===== *)
theory Error_Text
  imports Go_UTF8 Proto
begin

text \<open>
  The texts of the errors that the daemon returns: \<open>fmt\<close>'s verbs \<open>%d\<close>, \<open>%q\<close> and \<open>%v\<close> in the
  messages of \<open>validate.go\<close>, \<open>authz.go\<close>, \<open>handlers.go\<close>, \<open>dispatch.go\<close> and \<open>server.go\<close>. Which runes
  outside ASCII are printable is a table of the Go runtime and the parameter \<open>printable\<close>.
\<close>

section \<open>Quoting\<close>

text \<open>\<open>strconv.appendEscapedRune\<close> for one unit, between two \<open>delim\<close>s\<close>

definition quote_byte :: "char \<Rightarrow> char \<Rightarrow> string" where
  "quote_byte delim c =
     (let b = byte_of c; esc = CHR 0x5C in
      if c = delim \<or> c = esc then [esc, c]
      else if 32 \<le> b \<and> b < 127 then [c]
      else if b = 7 then [esc, CHR ''a'']
      else if b = 8 then [esc, CHR ''b'']
      else if b = 12 then [esc, CHR ''f'']
      else if b = 10 then [esc, CHR ''n'']
      else if b = 13 then [esc, CHR ''r'']
      else if b = 9 then [esc, CHR ''t'']
      else if b = 11 then [esc, CHR ''v'']
      else esc # CHR ''x'' # hex_text 2 b)"

definition quote_unit :: "(string \<Rightarrow> bool) \<Rightarrow> char \<Rightarrow> string \<Rightarrow> string" where
  "quote_unit printable delim u =
     (let n = rune_value u in
      if rune_width u = None then CHR 0x5C # CHR ''x'' # hex_text 2 n
      else (case u of
        [c] \<Rightarrow> quote_byte delim c
      | _ \<Rightarrow> if printable u then u
             else if n < 0x10000 then CHR 0x5C # CHR ''u'' # hex_text 4 n
             else CHR 0x5C # CHR ''U'' # hex_text 8 n))"

text \<open>\<open>%q\<close> of a string and of the rune a string begins with\<close>

definition go_quote :: "(string \<Rightarrow> bool) \<Rightarrow> string \<Rightarrow> string" where
  "go_quote printable s = CHR 0x22 # concat (map (quote_unit printable CHR 0x22) (utf8_units s)) @ [CHR 0x22]"

definition go_quote_rune :: "(string \<Rightarrow> bool) \<Rightarrow> string \<Rightarrow> string" where
  "go_quote_rune printable s =
     CHR 0x27 # concat (map (\<lambda>u. quote_unit printable CHR 0x27 (fix_unit u)) (take 1 (utf8_units s))) @ [CHR 0x27]"

section \<open>Messages\<close>

definition validate_error_text :: "(string \<Rightarrow> bool) \<Rightarrow> validate_error \<Rightarrow> string" where
  "validate_error_text printable e =
     (let q = go_quote printable in
      case e of
        EmptyDomain \<Rightarrow> ''empty domain''
      | DomainTooLong d \<Rightarrow> ''domain '' @ q d @ '' exceeds '' @ itoa (int max_domain_len) @ '' characters''
      | IsIPAddress d \<Rightarrow> q d @ '' is an IP address, use --ip instead''
      | TooFewLabels d \<Rightarrow> ''domain '' @ q d @ '' must have at least two labels''
      | EmptyLabel d \<Rightarrow> ''domain '' @ q d @ '' has an empty label''
      | LabelTooLong d \<Rightarrow> ''domain '' @ q d @ '' has a label longer than '' @ itoa (int max_label_len) @ '' characters''
      | LabelHyphen d \<Rightarrow> ''domain '' @ q d @ '' has a label that starts or ends with '' @ [CHR 0x27, CHR ''-'', CHR 0x27]
      | BadCharacter d r \<Rightarrow> ''domain '' @ q d @ '' contains invalid character '' @ go_quote_rune printable r
      | InvalidIP s \<Rightarrow> ''invalid IP address '' @ q s)"

definition generic_apply_error :: string where
  "generic_apply_error = ''could not apply changes; check the daemon logs (journalctl -u webblockd)''"

definition api_error_text :: "(string \<Rightarrow> bool) \<Rightarrow> api_error \<Rightarrow> string" where
  "api_error_text printable e =
     (let q = go_quote printable in
      case e of
        NoIdentity \<Rightarrow> ''could not determine caller identity''
      | Malformed \<Rightarrow> ''malformed request''
      | RateLimited \<Rightarrow> ''rate limit exceeded, slow down''
      | UnsupportedVersion v \<Rightarrow>
          ''unsupported protocol version '' @ itoa v @ '' (daemon speaks '' @ itoa proto_version @ ''); upgrade the daemon''
      | UnknownAction a \<Rightarrow> ''unknown action '' @ q a
      | NotYourList \<Rightarrow> ''permission denied: you may only modify your own blocklist''
      | UnknownUser t \<Rightarrow> ''unknown user '' @ q t
      | NonNumericUID t \<Rightarrow> ''user '' @ q t @ '' has non-numeric uid''
      | TooManyItems \<Rightarrow> ''too many items in one request (max '' @ itoa (int max_items_per_request) @ '')''
      | Invalid v \<Rightarrow> validate_error_text printable v
      | NothingToDo \<Rightarrow> ''nothing to do: provide --name and/or --ip''
      | ApplyFailed \<Rightarrow> generic_apply_error)"

text \<open>Every error has a text, so a response without one is not taken for an error.\<close>

lemma api_error_text_not_Nil: "api_error_text printable e \<noteq> []"
  by (cases e) (auto simp: api_error_text_def Let_def validate_error_text_def go_quote_def generic_apply_error_def
      split: validate_error.split)

end
