(* ===== verification/Wire.thy ===== *)
theory Wire
  imports Go_JSON_Decode Error_Text
begin

text \<open>
  The messages of \<open>internal/proto/proto.go\<close> and the files of \<open>internal/store/store.go\<close> as bytes:
  the JSON tags of \<open>Request\<close>, \<open>Response\<close>, \<open>ScopeView\<close>, \<open>StatusInfo\<close> and \<open>BlockList\<close>, and the
  encoding and decoding calls of client, server and store. What one side writes the other reads
  back; text that is not valid UTF-8 is repaired on the way.
\<close>

section \<open>Requests\<close>

text \<open>\<open>omitempty\<close>: a member that is left out if its field is empty\<close>

definition omit_empty :: "bool \<Rightarrow> string \<Rightarrow> json \<Rightarrow> (string \<times> json) list" where
  "omit_empty is_empty name v = (if is_empty then [] else [(name, v)])"

definition request_json :: "request \<Rightarrow> json" where
  "request_json r =
     JObj ([(''version'', JNum (itoa (req_version r))), (''action'', JStr (req_action r))]
       @ omit_empty (req_domains r = []) ''domains'' (json_strings (req_domains r))
       @ omit_empty (req_ips r = []) ''ips'' (json_strings (req_ips r))
       @ omit_empty (target_user r = []) ''target_user'' (JStr (target_user r)))"

text \<open>What \<open>send\<close> writes to the socket\<close>

definition encode_request :: "request \<Rightarrow> string" where
  "encode_request r = print_json False 0 (request_json r) @ [CHR 0x0A]"

record request_var =
  var_version :: int
  var_action :: string
  var_domains :: "string slice"
  var_ips :: "string slice"
  var_target :: string

definition zero_request :: request_var where
  "zero_request = \<lparr>var_version = 0, var_action = [], var_domains = ([], []), var_ips = ([], []), var_target = []\<rparr>"

definition request_fields :: "(string \<times> request_var decoder) list" where
  "request_fields =
     [(''version'', field var_version (\<lambda>x. var_version_update (\<lambda>_. x)) decode_int),
      (''action'', field var_action (\<lambda>x. var_action_update (\<lambda>_. x)) decode_string),
      (''domains'', field var_domains (\<lambda>x. var_domains_update (\<lambda>_. x)) decode_strings),
      (''ips'', field var_ips (\<lambda>x. var_ips_update (\<lambda>_. x)) decode_strings),
      (''target_user'', field var_target (\<lambda>x. var_target_update (\<lambda>_. x)) decode_string)]"

text \<open>The server's \<open>Decode\<close>; \<open>None\<close> is a malformed request\<close>

definition decode_request :: "string \<Rightarrow> request option" where
  "decode_request s =
     (case json_decode s of
        None \<Rightarrow> None
      | Some v \<Rightarrow>
          map_option (\<lambda>x. \<lparr>req_version = var_version x, req_action = var_action x, req_domains = fst (var_domains x),
              req_ips = fst (var_ips x), target_user = var_target x\<rparr>)
            (decode_struct request_fields v zero_request))"

section \<open>Responses\<close>

text \<open>\<open>proto.Response\<close> as it goes over the wire, with the text of the error\<close>

record reply =
  rep_ok :: bool
  rep_error :: string
  rep_message :: string
  rep_views :: "scope_view list"
  rep_status :: "status_info option"

definition reply_of :: "(string \<Rightarrow> bool) \<Rightarrow> response \<Rightarrow> reply" where
  "reply_of printable r =
     \<lparr>rep_ok = resp_ok r,
      rep_error = (case resp_error r of None \<Rightarrow> [] | Some e \<Rightarrow> api_error_text printable e),
      rep_message = resp_message r, rep_views = resp_views r, rep_status = resp_status r\<rparr>"

text \<open>The lists of a view are never nil: the store sees to that when it loads.\<close>

definition view_json :: "scope_view \<Rightarrow> json" where
  "view_json v =
     JObj [(''scope'', JStr (view_scope v)), (''read_only'', JBool (read_only v)),
           (''domains'', json_strings (view_domains v)), (''ips'', json_strings (view_ips v))]"

definition status_json :: "status_info \<Rightarrow> json" where
  "status_json st =
     JObj [(''backend'', JStr (status_backend st)), (''protocol_version'', JNum (itoa (protocol_version st)))]"

definition reply_json :: "reply \<Rightarrow> json" where
  "reply_json r =
     JObj ([(''ok'', JBool (rep_ok r))]
       @ omit_empty (rep_error r = []) ''error'' (JStr (rep_error r))
       @ omit_empty (rep_message r = []) ''message'' (JStr (rep_message r))
       @ omit_empty (rep_views r = []) ''views'' (JArr (map view_json (rep_views r)))
       @ (case rep_status r of None \<Rightarrow> [] | Some st \<Rightarrow> [(''status'', status_json st)]))"

text \<open>\<open>writeResponse\<close>, and the client's \<open>--json\<close> output\<close>

definition encode_reply :: "reply \<Rightarrow> string" where
  "encode_reply r = print_json False 0 (reply_json r) @ [CHR 0x0A]"

definition indented_reply :: "reply \<Rightarrow> string" where
  "indented_reply r = print_json True 0 (reply_json r) @ [CHR 0x0A]"

record view_var =
  var_scope :: string
  var_read_only :: bool
  var_view_domains :: "string slice"
  var_view_ips :: "string slice"

definition zero_view :: view_var where
  "zero_view = \<lparr>var_scope = [], var_read_only = False, var_view_domains = ([], []), var_view_ips = ([], [])\<rparr>"

definition view_fields :: "(string \<times> view_var decoder) list" where
  "view_fields =
     [(''scope'', field var_scope (\<lambda>x. var_scope_update (\<lambda>_. x)) decode_string),
      (''read_only'', field var_read_only (\<lambda>x. var_read_only_update (\<lambda>_. x)) decode_bool),
      (''domains'', field var_view_domains (\<lambda>x. var_view_domains_update (\<lambda>_. x)) decode_strings),
      (''ips'', field var_view_ips (\<lambda>x. var_view_ips_update (\<lambda>_. x)) decode_strings)]"

definition status_fields :: "(string \<times> status_info decoder) list" where
  "status_fields =
     [(''backend'', field status_backend (\<lambda>x. status_backend_update (\<lambda>_. x)) decode_string),
      (''protocol_version'', field protocol_version (\<lambda>x. protocol_version_update (\<lambda>_. x)) decode_int)]"

text \<open>A pointer: \<open>null\<close> makes it nil, anything else is decoded into what it points to.\<close>

definition decode_status :: "status_info option decoder" where
  "decode_status v old =
     (if v = JNull then Some None
      else map_option Some (decode_struct status_fields v
        (case old of Some st \<Rightarrow> st | None \<Rightarrow> \<lparr>status_backend = [], protocol_version = 0\<rparr>)))"

record reply_var =
  var_ok :: bool
  var_error :: string
  var_message :: string
  var_views :: "view_var slice"
  var_status :: "status_info option"

definition zero_reply :: reply_var where
  "zero_reply = \<lparr>var_ok = False, var_error = [], var_message = [], var_views = ([], []), var_status = None\<rparr>"

definition reply_fields :: "(string \<times> reply_var decoder) list" where
  "reply_fields =
     [(''ok'', field var_ok (\<lambda>x. var_ok_update (\<lambda>_. x)) decode_bool),
      (''error'', field var_error (\<lambda>x. var_error_update (\<lambda>_. x)) decode_string),
      (''message'', field var_message (\<lambda>x. var_message_update (\<lambda>_. x)) decode_string),
      (''views'', field var_views (\<lambda>x. var_views_update (\<lambda>_. x)) (decode_slice (decode_struct view_fields) zero_view)),
      (''status'', field var_status (\<lambda>x. var_status_update (\<lambda>_. x)) decode_status)]"

definition view_of_var :: "view_var \<Rightarrow> scope_view" where
  "view_of_var x =
     \<lparr>view_scope = var_scope x, read_only = var_read_only x, view_domains = fst (var_view_domains x),
      view_ips = fst (var_view_ips x)\<rparr>"

text \<open>The client's \<open>Decode\<close>\<close>

definition decode_reply :: "string \<Rightarrow> reply option" where
  "decode_reply s =
     (case json_decode s of
        None \<Rightarrow> None
      | Some v \<Rightarrow>
          map_option (\<lambda>x. \<lparr>rep_ok = var_ok x, rep_error = var_error x, rep_message = var_message x,
              rep_views = map view_of_var (fst (var_views x)), rep_status = var_status x\<rparr>)
            (decode_struct reply_fields v zero_reply))"

section \<open>Files of the store\<close>

definition blocklist_json :: "blocklist \<Rightarrow> json" where
  "blocklist_json bl = JObj [(''domains'', json_strings (Domains bl)), (''ips'', json_strings (IPs bl))]"

text \<open>\<open>json.MarshalIndent(bl, "", "  ")\<close>\<close>

definition marshal_blocklist :: "blocklist \<Rightarrow> string" where
  "marshal_blocklist bl = print_json True 0 (blocklist_json bl)"

definition blocklist_fields :: "(string \<times> (string slice \<times> string slice) decoder) list" where
  "blocklist_fields =
     [(''domains'', field fst (\<lambda>x a. (x, snd a)) decode_strings),
      (''ips'', field snd (\<lambda>x a. (fst a, x)) decode_strings)]"

text \<open>\<open>json.Unmarshal(data, &bl)\<close>; a nil list is read as an empty one, as \<open>loadLocked\<close> does next.\<close>

definition unmarshal_blocklist :: "string \<Rightarrow> json_file" where
  "unmarshal_blocklist s =
     (case json_unmarshal s of
        None \<Rightarrow> Garbage
      | Some v \<Rightarrow>
          (case decode_struct blocklist_fields v (([], []), ([], [])) of
             None \<Rightarrow> Garbage
           | Some (ds, is) \<Rightarrow> Doc (Some (fst ds)) (Some (fst is))))"

section \<open>Round trips\<close>

text \<open>What a message is received as\<close>

definition fix_request :: "request \<Rightarrow> request" where
  "fix_request r =
     r\<lparr>req_action := utf8_fix (req_action r), req_domains := map utf8_fix (req_domains r),
       req_ips := map utf8_fix (req_ips r), target_user := utf8_fix (target_user r)\<rparr>"

definition fix_view :: "scope_view \<Rightarrow> scope_view" where
  "fix_view v =
     v\<lparr>view_scope := utf8_fix (view_scope v), view_domains := map utf8_fix (view_domains v),
       view_ips := map utf8_fix (view_ips v)\<rparr>"

definition fix_reply :: "reply \<Rightarrow> reply" where
  "fix_reply r =
     r\<lparr>rep_error := utf8_fix (rep_error r), rep_message := utf8_fix (rep_message r), rep_views := map fix_view (rep_views r),
       rep_status := map_option (\<lambda>st. st\<lparr>status_backend := utf8_fix (status_backend st)\<rparr>) (rep_status r)\<rparr>"

text \<open>The names of members are ASCII.\<close>

lemma names_ascii [simp]:
  "utf8_fix ''version'' = ''version''" "utf8_fix ''action'' = ''action''" "utf8_fix ''domains'' = ''domains''"
  "utf8_fix ''ips'' = ''ips''" "utf8_fix ''target_user'' = ''target_user''" "utf8_fix ''ok'' = ''ok''"
  "utf8_fix ''error'' = ''error''" "utf8_fix ''message'' = ''message''" "utf8_fix ''views'' = ''views''"
  "utf8_fix ''status'' = ''status''" "utf8_fix ''scope'' = ''scope''" "utf8_fix ''read_only'' = ''read_only''"
  "utf8_fix ''backend'' = ''backend''" "utf8_fix ''protocol_version'' = ''protocol_version''"
  by (simp_all add: utf8_fix_ascii is_ascii_def)

lemma decode_printed:
  assumes "wf_json v" "nesting v \<le> max_nesting" "ends_value r"
  shows "json_decode (print_json ind k v @ r) = Some (fix_json v)"
  using parse_first_print [OF assms] by (simp add: json_decode_def)

lemma ends_newline [simp]: "ends_value (CHR 0x0A # r)"
  by (simp add: ends_value_def is_digit_def)

lemma request_json_ok: "wf_json (request_json r)" "nesting (request_json r) \<le> max_nesting"
  by (auto simp: request_json_def omit_empty_def nesting_le max_nesting_def intro: nesting_strings [THEN le_trans])

theorem request_roundtrip:
  assumes "go_int (req_version r)"
  shows "decode_request (encode_request r @ t) = Some (fix_request r)"
proof -
  have "json_decode (encode_request r @ t) = Some (fix_json (request_json r))"
    using decode_printed [OF request_json_ok, of "CHR 0x0A # t" False 0] by (simp add: encode_request_def)
  moreover have "decode_struct request_fields (fix_json (request_json r)) zero_request =
      Some \<lparr>var_version = req_version r, var_action = utf8_fix (req_action r), var_domains = (map utf8_fix (req_domains r), []),
        var_ips = (map utf8_fix (req_ips r), []), var_target = utf8_fix (target_user r)\<rparr>"
    using assms by (simp add: request_json_def omit_empty_def zero_request_def request_fields_def lookup_exact field_def atoi_itoa)
  ultimately show ?thesis by (simp add: decode_request_def fix_request_def)
qed

text \<open>Replies whose numbers fit an \<open>int\<close>\<close>

definition reply_in_range :: "reply \<Rightarrow> bool" where
  "reply_in_range r \<longleftrightarrow> (case rep_status r of None \<Rightarrow> True | Some st \<Rightarrow> go_int (protocol_version st))"

definition fixed_view_var :: "scope_view \<Rightarrow> view_var" where
  "fixed_view_var v =
     \<lparr>var_scope = utf8_fix (view_scope v), var_read_only = read_only v,
      var_view_domains = (map utf8_fix (view_domains v), []), var_view_ips = (map utf8_fix (view_ips v), [])\<rparr>"

lemma decode_view: "decode_struct view_fields (fix_json (view_json v)) zero_view = Some (fixed_view_var v)"
  by (simp add: view_json_def zero_view_def view_fields_def lookup_exact field_def fixed_view_var_def)

lemma decode_views:
  "decode_slice (decode_struct view_fields) zero_view (fix_json (JArr (map view_json vs))) ([], []) =
     Some (map fixed_view_var vs, [])"
proof -
  have "decode_elems (decode_struct view_fields) zero_view (map (\<lambda>v. fix_json (view_json v)) vs) [] = Some (map fixed_view_var vs)"
    by (induction vs) (simp_all add: decode_view)
  then show ?thesis by (cases vs) (simp_all add: decode_slice_def comp_def)
qed

lemma decode_status_fix:
  "go_int (protocol_version st) \<Longrightarrow>
   decode_status (fix_json (status_json st)) None = Some (Some (st\<lparr>status_backend := utf8_fix (status_backend st)\<rparr>))"
  by (cases st) (simp add: decode_status_def status_json_def status_fields_def lookup_exact field_def atoi_itoa)

lemma nesting_view: "nesting (view_json v) \<le> 2"
  using nesting_strings [of "view_domains v"] nesting_strings [of "view_ips v"] by (simp add: view_json_def)

lemma reply_json_ok: "wf_json (reply_json r)" "nesting (reply_json r) \<le> max_nesting"
proof -
  show "wf_json (reply_json r)"
    by (auto simp: reply_json_def omit_empty_def view_json_def status_json_def split: option.split)
  have "nesting (JArr (map view_json (rep_views r))) \<le> 3"
    using nesting_view by (fastforce simp: nesting_le numeral_eq_Suc)
  then show "nesting (reply_json r) \<le> max_nesting"
    by (auto simp: reply_json_def omit_empty_def status_json_def nesting_le max_nesting_def split: option.split
        simp del: nesting.simps(1) intro: le_trans)
qed

theorem reply_roundtrip:
  assumes "reply_in_range r"
  shows "decode_reply (encode_reply r @ t) = Some (fix_reply r)"
proof -
  have "json_decode (encode_reply r @ t) = Some (fix_json (reply_json r))"
    using decode_printed [OF reply_json_ok, of "CHR 0x0A # t" False 0] by (simp add: encode_reply_def)
  moreover have "decode_struct reply_fields (fix_json (reply_json r)) zero_reply =
      Some \<lparr>var_ok = rep_ok r, var_error = utf8_fix (rep_error r), var_message = utf8_fix (rep_message r),
        var_views = (map fixed_view_var (rep_views r), []),
        var_status = map_option (\<lambda>st. st\<lparr>status_backend := utf8_fix (status_backend st)\<rparr>) (rep_status r)\<rparr>"
    using assms decode_views [of "rep_views r"]
    by (cases "rep_status r") (simp_all add: reply_json_def omit_empty_def zero_reply_def reply_fields_def lookup_exact field_def
        reply_in_range_def decode_status_fix)
  moreover have "view_of_var (fixed_view_var v) = fix_view v" for v
    by (simp add: view_of_var_def fixed_view_var_def fix_view_def)
  ultimately show ?thesis by (simp add: decode_reply_def fix_reply_def)
qed

theorem file_roundtrip:
  "unmarshal_blocklist (marshal_blocklist bl) = Doc (Some (map utf8_fix (Domains bl))) (Some (map utf8_fix (IPs bl)))"
proof -
  have "wf_json (blocklist_json bl)" "nesting (blocklist_json bl) \<le> max_nesting"
    using nesting_strings [of "Domains bl"] nesting_strings [of "IPs bl"]
    by (simp_all add: blocklist_json_def max_nesting_def)
  then have "parse_first (marshal_blocklist bl) = Some (fix_json (blocklist_json bl), [])"
    using parse_first_print [of "blocklist_json bl" "[]" True 0] by (simp add: marshal_blocklist_def)
  then show ?thesis
    by (simp add: unmarshal_blocklist_def json_unmarshal_def skip_def blocklist_json_def blocklist_fields_def lookup_exact field_def)
qed

lemma empty_file: "unmarshal_blocklist [] = Garbage"
  by (simp add: unmarshal_blocklist_def json_unmarshal_def parse_first_def after_def skip_def parse_scalar_def numeral_2_eq_2)

text \<open>Accepted entries are ASCII, so that nothing happens to them on the way.\<close>

lemma accepted_domain_text: "validate_domain d = None \<Longrightarrow> utf8_fix d = d"
  using valid_domain_chars [of d] host_char_lower by (intro utf8_fix_ascii) (auto simp: list_all_iff)

end
