(* ===== verification/Client.thy ===== *)
theory Client
  imports Handlers Wire
begin

text \<open>
  \<open>cmd/webblock/main.go\<close>: the command line client. Arguments become options, options a
  request, and the response is printed. The main results: both forms of a flag with a value
  mean the same, the options that are accepted have exactly one action, and the daemon
  understands and accepts the requests the client builds, without changing their entries.
\<close>

section \<open>Arguments\<close>

record options =
  opt_add :: bool
  opt_remove :: bool
  opt_show :: bool
  opt_status :: bool
  json_out :: bool
  opt_name :: string
  opt_ip :: string
  opt_user :: string
  opt_socket :: string

datatype cli_error =
    NeedsValue string
  | UnknownFlag string
  | UnknownArgument string
  | NoAction
  | ManyActions
  | NoArguments
  | BadEntry validate_error
  | NothingGiven

text \<open>\<open>--version\<close> and \<open>--help\<close> print something and end the program in the middle of the loop.\<close>

datatype parsed = PrintVersion | PrintHelp | Failed cli_error | Parsed options

definition start_options :: options where
  "start_options =
     \<lparr>opt_add = False, opt_remove = False, opt_show = False, opt_status = False, json_out = False,
      opt_name = [], opt_ip = [], opt_user = [], opt_socket = socket_path\<rparr>"

text \<open>The inner switches on the flags that take a value\<close>

definition value_flags :: "string list" where
  "value_flags = [''--name'', ''--ip'', ''--user'', ''--socket'']"

definition set_value :: "string \<Rightarrow> string \<Rightarrow> options \<Rightarrow> options" where
  "set_value k v opts =
     (if k = ''--name'' then opts\<lparr>opt_name := v\<rparr>
      else if k = ''--ip'' then opts\<lparr>opt_ip := v\<rparr>
      else if k = ''--user'' then opts\<lparr>opt_user := v\<rparr>
      else if k = ''--socket'' then opts\<lparr>opt_socket := v\<rparr>
      else opts)"

definition split_eq :: "string \<Rightarrow> (string \<times> string) option" where
  "split_eq a =
     (if \<not> has_prefix a ''--'' then None
      else (case index_of a ''='' of Some i \<Rightarrow> Some (take i a, drop (i + 1) a) | None \<Rightarrow> None))"

fun parse_loop :: "string list \<Rightarrow> options \<Rightarrow> parsed" where
  "parse_loop [] opts = Parsed opts"
| "parse_loop (a # args) opts =
     (if a = ''--add'' then parse_loop args (opts\<lparr>opt_add := True\<rparr>)
      else if a = ''--remove'' then parse_loop args (opts\<lparr>opt_remove := True\<rparr>)
      else if a = ''--show'' then parse_loop args (opts\<lparr>opt_show := True\<rparr>)
      else if a = ''--status'' then parse_loop args (opts\<lparr>opt_status := True\<rparr>)
      else if a = ''--json'' then parse_loop args (opts\<lparr>json_out := True\<rparr>)
      else if a = ''--version'' then PrintVersion
      else if a = ''-h'' \<or> a = ''--help'' then PrintHelp
      else if a \<in> set value_flags then
        (case args of
           [] \<Rightarrow> Failed (NeedsValue a)
         | v # rest \<Rightarrow> parse_loop rest (set_value a v opts))
      else
        (case split_eq a of
           Some (k, v) \<Rightarrow>
             if k \<in> set value_flags then parse_loop args (set_value k v opts) else Failed (UnknownFlag k)
         | None \<Rightarrow> Failed (UnknownArgument a)))"

definition validate_actions :: "options \<Rightarrow> cli_error option" where
  "validate_actions opts =
     (let n = length (filter id [opt_add opts, opt_remove opts, opt_show opts, opt_status opts]) in
      if n = 0 then Some NoAction
      else if n > 1 then Some ManyActions
      else if (opt_show opts \<or> opt_status opts) \<and> (opt_name opts \<noteq> [] \<or> opt_ip opts \<noteq> [] \<or> opt_user opts \<noteq> [])
      then Some NoArguments
      else None)"

definition parse_args :: "string list \<Rightarrow> parsed" where
  "parse_args args =
     (case parse_loop args start_options of
        Parsed opts \<Rightarrow> (case validate_actions opts of Some e \<Rightarrow> Failed e | None \<Rightarrow> Parsed opts)
      | r \<Rightarrow> r)"

section \<open>Requests\<close>

definition split_list :: "string \<Rightarrow> string list" where
  "split_list csv =
     (if trim_space csv = [] then []
      else filter (\<lambda>t. t \<noteq> []) (map trim_space (split_on CHR '','' csv)))"

definition clean_domains :: "(string \<Rightarrow> string) \<Rightarrow> string \<Rightarrow> validate_error + string list" where
  "clean_domains u csv = try_map (valid_domain u) (split_list csv)"

definition clean_ips :: "string \<Rightarrow> validate_error + string list" where
  "clean_ips csv = try_map canon_ip (split_list csv)"

definition build_request :: "(string \<Rightarrow> string) \<Rightarrow> options \<Rightarrow> cli_error + request" where
  "build_request u opts =
     (let req = \<lparr>req_version = proto_version, req_action = [], req_domains = [], req_ips = [],
                 target_user = opt_user opts\<rparr> in
      if opt_show opts then Inr (req\<lparr>req_action := action_show\<rparr>)
      else if opt_status opts then Inr (req\<lparr>req_action := action_status\<rparr>)
      else
        let req = (if opt_add opts then req\<lparr>req_action := action_add\<rparr>
                   else if opt_remove opts then req\<lparr>req_action := action_remove\<rparr>
                   else req) in
        (case clean_domains u (opt_name opts) of
           Inl e \<Rightarrow> Inl (BadEntry e)
         | Inr domains \<Rightarrow>
             (case clean_ips (opt_ip opts) of
                Inl e \<Rightarrow> Inl (BadEntry e)
              | Inr ips \<Rightarrow>
                  if length domains = 0 \<and> length ips = 0 then Inl NothingGiven
                  else Inr (req\<lparr>req_domains := domains, req_ips := ips\<rparr>))))"

section \<open>Output\<close>

definition ln :: "string \<Rightarrow> string" where
  "ln s = s @ [CHR 0x0A]"

definition render_view :: "scope_view \<Rightarrow> string" where
  "render_view v =
     (let header = view_scope v @ (if read_only v then '' [read-only]'' else []) in
        ln (''== '' @ header @ '' =='')
      @ (if length (view_domains v) = 0 \<and> length (view_ips v) = 0 then ln ''  (empty)'' else [])
      @ concat (map (\<lambda>d. ln (''  domain  '' @ d)) (view_domains v))
      @ concat (map (\<lambda>ip. ln (''  ip      '' @ ip)) (view_ips v))
      @ ln [])"

definition render_views :: "scope_view list \<Rightarrow> string" where
  "render_views vs = (if length vs = 0 then ln ''no blocklists configured'' else concat (map render_view vs))"

text \<open>The form without \<open>--json\<close>\<close>

definition render :: "string \<Rightarrow> reply \<Rightarrow> string" where
  "render action resp =
     (if action = action_status then
        (case rep_status resp of
           Some st \<Rightarrow>
             ln ''daemon OK'' @ ln (''  backend:          '' @ status_backend st)
             @ ln (''  protocol version: '' @ itoa (protocol_version st))
         | None \<Rightarrow> [])
      else if action = action_show then render_views (rep_views resp)
      else ln (rep_message resp))"

text \<open>
  \<open>send\<close>: the request goes over the socket in bytes, what comes back is decoded. \<open>exchange\<close> is
  the socket: from its path and what is written to it to what can be read from it, \<open>None\<close> when
  it cannot be reached, written or read in time.
\<close>

definition send :: "(string \<Rightarrow> string \<Rightarrow> string option) \<Rightarrow> string \<Rightarrow> request \<Rightarrow> reply option" where
  "send exchange socket req =
     (case exchange socket (encode_request req) of None \<Rightarrow> None | Some bytes \<Rightarrow> decode_reply bytes)"

definition usage :: string where
  "usage = concat (map ln
     [''webblock - block websites and IPs on Linux'',
      [],
      ''Usage:'',
      ''  webblock --add    [--name <d1>,<d2>] [--ip <ip1>,<ip2>] [--user <name|uid>]'',
      ''  webblock --remove [--name <d1>,<d2>] [--ip <ip1>,<ip2>] [--user <name|uid>]'',
      ''  webblock --show   [--json]'',
      ''  webblock --status [--json]'',
      ''  webblock --version'',
      [],
      ''Scope:'',
      ''  Run as root to manage the global blocklist (applies to all users), or pass'',
      ''  --user to target a specific user's list. Run as a normal user to manage only'',
      ''  your own blocklist.'',
      [],
      ''Examples:'',
      ''  webblock --add --name example.com,ads.example.net'',
      ''  webblock --add --ip 93.184.216.34'',
      ''  webblock --add --name tracker.com --ip 10.0.0.5'',
      ''  webblock --remove --name example.com'',
      ''  webblock --show'',
      ''  webblock --show --json''])"

definition client_version :: string where
  "client_version = ''0.2.0''"

definition version_text :: string where
  "version_text = ln (''webblock '' @ client_version @ '' (protocol '' @ itoa proto_version @ '')'')"

definition cli_error_text :: "(string \<Rightarrow> bool) \<Rightarrow> cli_error \<Rightarrow> string" where
  "cli_error_text printable e =
     (case e of
        NeedsValue a \<Rightarrow> a @ '' requires a value''
      | UnknownFlag k \<Rightarrow> ''unknown flag '' @ go_quote printable k
      | UnknownArgument a \<Rightarrow> ''unknown argument '' @ go_quote printable a
      | NoAction \<Rightarrow> ''specify exactly one of --add, --remove, --show, or --status''
      | ManyActions \<Rightarrow> ''--add, --remove, --show, and --status are mutually exclusive''
      | NoArguments \<Rightarrow> ''--show/--status take no --name/--ip/--user arguments''
      | BadEntry v \<Rightarrow> validate_error_text printable v
      | NothingGiven \<Rightarrow> ''provide --name and/or --ip'')"

text \<open>
  \<open>main\<close>: what the run ends with. \<open>ask\<close> is \<open>send\<close> over some socket; \<open>DaemonError\<close> holds the text
  that is printed after \<open>error:\<close>.
\<close>

datatype run_end =
    UsageError cli_error
  | RequestError cli_error
  | Unreachable
  | DaemonError string
  | Printed string
  | Information string

definition exit_code :: "run_end \<Rightarrow> int" where
  "exit_code r = (case r of UsageError e \<Rightarrow> 2 | RequestError e \<Rightarrow> 2 | Unreachable \<Rightarrow> 1
     | DaemonError e \<Rightarrow> 1 | Printed s \<Rightarrow> 0 | Information s \<Rightarrow> 0)"

definition client_main ::
    "(string \<Rightarrow> string) \<Rightarrow> (string \<Rightarrow> request \<Rightarrow> reply option) \<Rightarrow> string list \<Rightarrow> run_end" where
  "client_main u ask args =
     (case parse_args args of
        PrintVersion \<Rightarrow> Information version_text
      | PrintHelp \<Rightarrow> Information usage
      | Failed e \<Rightarrow> UsageError e
      | Parsed opts \<Rightarrow>
          (case build_request u opts of
             Inl e \<Rightarrow> RequestError e
           | Inr req \<Rightarrow>
               (case ask (opt_socket opts) req of
                  None \<Rightarrow> Unreachable
                | Some resp \<Rightarrow>
                    if \<not> rep_ok resp then DaemonError (rep_error resp)
                    else Printed (if json_out opts then indented_reply resp else render (req_action req) resp))))"

text \<open>
  What the run has written to standard output and to standard error. \<open>send_error\<close> is the text of
  an error of \<open>send\<close>, which quotes the operating system or the JSON decoder.
\<close>

definition run_output :: "(string \<Rightarrow> bool) \<Rightarrow> string \<Rightarrow> run_end \<Rightarrow> string \<times> string" where
  "run_output printable send_error r =
     (let error = (\<lambda>text. ln (''error: '' @ text)) in
      case r of
        UsageError e \<Rightarrow> ([], error (cli_error_text printable e) @ ln [] @ usage)
      | RequestError e \<Rightarrow> ([], error (cli_error_text printable e))
      | Unreachable \<Rightarrow> ([], error send_error)
      | DaemonError text \<Rightarrow> ([], error text)
      | Printed text \<Rightarrow> (text, [])
      | Information text \<Rightarrow> (text, []))"

text \<open>Errors go to standard error only, and exactly then the exit code is not 0.\<close>

lemma output_streams:
  "exit_code r = 0 \<longleftrightarrow> snd (run_output printable m r) = []" "exit_code r \<noteq> 0 \<Longrightarrow> fst (run_output printable m r) = []"
  by (cases r; simp add: exit_code_def run_output_def ln_def Let_def)+

section \<open>Parsing\<close>

lemma value_flags_prefix: "k \<in> set value_flags \<Longrightarrow> \<exists>t. k = ''--'' @ t \<and> CHR ''='' \<notin> set k"
  by (auto simp: value_flags_def)

lemma index_of_first: "CHR ''='' \<notin> set k \<Longrightarrow> index_of (k @ ''='' @ v) ''='' = Some (length k)"
  by (induction k) auto

lemma split_eq_flag:
  assumes "k \<in> set value_flags"
  shows "split_eq (k @ ''='' @ v) = Some (k, v)"
proof -
  obtain t where t: "k = ''--'' @ t" "CHR ''='' \<notin> set k" using value_flags_prefix [OF assms] by blast
  have "has_prefix (k @ ''='' @ v) ''--''" by (simp add: t(1))
  then show ?thesis using index_of_first [OF t(2), of v] by (simp add: split_eq_def)
qed

theorem flag_forms:
  assumes "k \<in> set value_flags"
  shows "parse_loop ((k @ ''='' @ v) # args) opts = parse_loop (k # v # args) opts"
proof -
  have ne: "CHR ''='' \<in> set (k @ ''='' @ v)" by simp
  have diff: "k @ ''='' @ v \<noteq> a" if "CHR ''='' \<notin> set a" for a
    using ne that by (metis)
  have no: "k @ ''='' @ v \<notin> set value_flags"
    using diff value_flags_prefix by blast
  have k: "k \<noteq> ''--add''" "k \<noteq> ''--remove''" "k \<noteq> ''--show''" "k \<noteq> ''--status''" "k \<noteq> ''--json''"
    "k \<noteq> ''--version''" "k \<noteq> ''-h''" "k \<noteq> ''--help''"
    using assms by (auto simp: value_flags_def)
  have "parse_loop ((k @ ''='' @ v) # args) opts = parse_loop args (set_value k v opts)"
    using no assms split_eq_flag [OF assms, of v] diff [of "''--add''"] diff [of "''--remove''"] diff [of "''--show''"]
      diff [of "''--status''"] diff [of "''--json''"] diff [of "''--version''"] diff [of "''-h''"] diff [of "''--help''"]
    by simp
  also have "\<dots> = parse_loop (k # v # args) opts" using k assms by simp
  finally show ?thesis .
qed

text \<open>Accepted options have exactly one action, and entries only with a mutating one.\<close>

theorem parsed_options:
  assumes "parse_args args = Parsed opts"
  shows "length (filter id [opt_add opts, opt_remove opts, opt_show opts, opt_status opts]) = 1"
    and "opt_show opts \<or> opt_status opts \<Longrightarrow> opt_name opts = [] \<and> opt_ip opts = [] \<and> opt_user opts = []"
proof -
  have v: "validate_actions opts = None"
    using assms by (auto simp: parse_args_def split: parsed.splits option.splits)
  then show "length (filter id [opt_add opts, opt_remove opts, opt_show opts, opt_status opts]) = 1"
    by (auto simp: validate_actions_def Let_def split: if_splits)
  show "opt_show opts \<or> opt_status opts \<Longrightarrow> opt_name opts = [] \<and> opt_ip opts = [] \<and> opt_user opts = []"
    using v by (auto simp: validate_actions_def Let_def split: if_splits)
qed

section \<open>The daemon understands the client\<close>

lemma canonical_fixed: "canonical_ip a \<Longrightarrow> canon_ip a = Inr a"
proof -
  assume c: "canonical_ip a"
  then obtain x where x: "parse_ip a = Some x" "ip_string x = a"
    by (auto simp: canonical_ip_def addr_text_def split: option.splits)
  have "trim_space a = a"
  proof (rule trim_space_solid)
    fix ch assume "ch \<in> set a"
    then have "addr_char ch" using c addr_text_chars by (auto simp: canonical_ip_def list_all_iff)
    then show "solid ch" by (intro ascii_print_solid) (auto simp: addr_char_def is_digit_def)
  qed
  then show ?thesis using x to4_string [OF parse_ip_wf [OF x(1)]]
    by (auto simp: canon_ip_def normalize_ip_def split: option.splits)
qed

lemma build_request_mutates:
  assumes "build_request u opts = Inr req" "\<not> opt_show opts" "\<not> opt_status opts"
  shows "\<exists>names ips. try_map (valid_domain u) names = Inr (req_domains req) \<and> try_map canon_ip ips = Inr (req_ips req)"
    and "req_domains req \<noteq> [] \<or> req_ips req \<noteq> []"
  using assms
  by (auto simp: build_request_def clean_domains_def clean_ips_def Let_def split: sum.splits if_splits)

text \<open>
  The daemon's validation of what the client cleaned changes nothing, whatever lower-casing
  of non-ASCII text either side uses.
\<close>

theorem daemon_accepts:
  assumes "build_request u opts = Inr req" "\<not> opt_show opts" "\<not> opt_status opts"
    and "length (req_domains req) + length (req_ips req) \<le> max_items_per_request"
  shows "normalize_and_validate u' (req_domains req) (req_ips req) = Inr (req_domains req, req_ips req)"
proof -
  obtain names ips where n: "try_map (valid_domain u) names = Inr (req_domains req)"
    and i: "try_map canon_ip ips = Inr (req_ips req)"
    using build_request_mutates(1) [OF assms(1-3)] by blast
  have "validate_domain d = None" if "d \<in> set (req_domains req)" for d
    using n that by (simp add: try_map_valid_domain)
  then have "try_map (valid_domain u') (req_domains req) = Inr (req_domains req)"
    by (intro try_map_fixed) (metis valid_domain_ok normalize_domain_valid)
  moreover have "try_map canon_ip (req_ips req) = Inr (req_ips req)"
    using try_map_set [OF i] canon_ip_canonical canonical_fixed by (intro try_map_fixed) blast
  ultimately show ?thesis using assms(4) by (simp add: normalize_and_validate_def)
qed

text \<open>The client sends the daemon's version and an action it knows.\<close>

lemma build_request_head:
  assumes "build_request u opts = Inr req" "opt_add opts \<or> opt_remove opts \<or> opt_show opts \<or> opt_status opts"
  shows "req_version req = proto_version" "target_user req = opt_user opts"
    and "req_action req = (if opt_show opts then action_show else if opt_status opts then action_status
      else if opt_add opts then action_add else action_remove)"
  using assms by (auto simp: build_request_def Let_def split: sum.splits if_splits)

text \<open>
  So what the daemon answers to a normal user who names no other user is the result, or that
  applying failed: never that it does not understand or does not allow the request.
\<close>

theorem client_request_served:
  assumes "parse_args args = Parsed opts" "build_request u opts = Inr req" "opt_user opts = []"
    and "\<not> IsRoot caller" "length (req_domains req) + length (req_ips req) \<le> max_items_per_request"
    and "dispatch handler_table sv call caller req eng = (eng', resp)"
  shows "resp_ok resp \<or> resp_error resp = Some ApplyFailed"
proof -
  have one: "length (filter id [opt_add opts, opt_remove opts, opt_show opts, opt_status opts]) = 1"
    by (rule parsed_options(1) [OF assms(1)])
  then have some: "opt_add opts \<or> opt_remove opts \<or> opt_show opts \<or> opt_status opts"
    by (auto split: if_splits)
  note head = build_request_head [OF assms(2) some]
  show ?thesis
  proof (cases "opt_show opts \<or> opt_status opts")
    case True
    then have "dispatch handler_table sv call caller req eng =
        (if opt_show opts then show_handle else status_handle) sv call caller req eng"
      using head dispatch_known(3,4) [of req sv call caller eng] by (cases "opt_show opts") simp_all
    then show ?thesis using assms(6)
      by (auto simp: show_handle_def status_handle_def show_as_root_def show_as_user_def split: if_splits sum.splits)
  next
    case False
    have scope: "ResolveScope (user_names sv) (target_user req) caller = Inr (UserScope (uid_int caller))"
      using assms(3,4) by (simp add: head user_scope_only)
    have ok: "normalize_and_validate (unicode_lower sv) (req_domains req) (req_ips req) = Inr (req_domains req, req_ips req)"
      using daemon_accepts [OF assms(2) _ _ assms(5)] False by blast
    have ne: "req_domains req \<noteq> [] \<or> req_ips req \<noteq> []"
      using build_request_mutates(2) [OF assms(2)] False by blast
    have "mutate_handle (opt_add opts) sv call caller req eng = (eng', resp)"
      using assms(6) head False some dispatch_known(1,2) [of req sv call caller eng] by (cases "opt_add opts") simp_all
    then show ?thesis
      using scope ok ne by (auto simp: mutate_handle_def split: prod.splits option.splits)
  qed
qed

end
