(* ===== verification/Ratelimit.thy ===== *)
theory Ratelimit
  imports Proto
begin

text \<open>
  \<open>cmd/webblockd/ratelimit.go\<close>: the fixed-window limiter per uid. Times and durations are
  nanoseconds; \<open>time.Time.Sub\<close> saturates at the ends of the 64-bit range.
\<close>

record window_count =
  start :: int
  count :: int

record limiter =
  limit :: int
  window :: int
  counts :: "(32 word \<times> window_count) list"

definition new_limiter :: "int \<Rightarrow> int \<Rightarrow> limiter" where
  "new_limiter l w = \<lparr>limit = l, window = w, counts = []\<rparr>"

definition time_sub :: "int \<Rightarrow> int \<Rightarrow> int" where
  "time_sub a b = max (- (2 ^ 63)) (min (2 ^ 63 - 1) (a - b))"

definition allow :: "32 word \<Rightarrow> int \<Rightarrow> limiter \<Rightarrow> limiter \<times> bool" where
  "allow uid now r =
     (case map_of (counts r) uid of
        None \<Rightarrow> (r\<lparr>counts := AList.update uid \<lparr>start = now, count = 1\<rparr> (counts r)\<rparr>, True)
      | Some wc \<Rightarrow>
          if window r < time_sub now (start wc) then
            (r\<lparr>counts := AList.update uid \<lparr>start = now, count = 1\<rparr> (counts r)\<rparr>, True)
          else if limit r \<le> count wc then (r, False)
          else (r\<lparr>counts := AList.update uid (wc\<lparr>count := count wc + 1\<rparr>) (counts r)\<rparr>, True))"

text \<open>A sequence of requests, each with its caller and the time at which it is checked\<close>

fun allow_all :: "(32 word \<times> int) list \<Rightarrow> limiter \<Rightarrow> limiter \<times> bool list" where
  "allow_all [] r = (r, [])"
| "allow_all ((uid, now) # qs) r =
     (case allow uid now r of (r1, b) \<Rightarrow> case allow_all qs r1 of (r2, bs) \<Rightarrow> (r2, b # bs))"

text \<open>How many requests of one uid were let through\<close>

fun passed :: "32 word \<Rightarrow> (32 word \<times> int) list \<Rightarrow> limiter \<Rightarrow> nat" where
  "passed uid [] r = 0"
| "passed uid ((u, now) # qs) r =
     (case allow u now r of (r1, b) \<Rightarrow> (if b \<and> u = uid then 1 else 0) + passed uid qs r1)"

lemma allow_config: "allow u t r = (r', b) \<Longrightarrow> limit r' = limit r \<and> window r' = window r"
  by (auto simp: allow_def split: option.splits if_splits)

text \<open>Requests of other uids make no difference.\<close>

lemma allow_other: "allow u t r = (r', b) \<Longrightarrow> v \<noteq> u \<Longrightarrow> map_of (counts r') v = map_of (counts r) v"
  by (auto simp: allow_def update_conv' split: option.splits if_splits)

lemma allow_cong:
  assumes "map_of (counts r) u = map_of (counts q) u" "limit r = limit q" "window r = window q"
  shows "snd (allow u t r) = snd (allow u t q) \<and>
    map_of (counts (fst (allow u t r))) u = map_of (counts (fst (allow u t q))) u"
  using assms by (auto simp: allow_def update_conv' split: option.splits)

theorem limiter_isolated:
  assumes "map_of (counts r) u = map_of (counts q) u" "limit r = limit q" "window r = window q"
  shows "passed u qs r = passed u (filter (\<lambda>(v, t). v = u) qs) q"
  using assms
proof (induction qs arbitrary: r q)
  case (Cons x qs)
  obtain v t where x: "x = (v, t)" by (cases x)
  obtain r1 b where r1: "allow v t r = (r1, b)" by (cases "allow v t r")
  show ?case
  proof (cases "v = u")
    case True
    obtain q1 c where q1: "allow v t q = (q1, c)" by (cases "allow v t q")
    have "b = c \<and> map_of (counts r1) u = map_of (counts q1) u"
      using allow_cong [OF Cons.prems, of t] r1 q1 True by simp
    moreover have "passed u qs r1 = passed u (filter (\<lambda>(v, t). v = u) qs) q1"
      using Cons.prems calculation allow_config [OF r1] allow_config [OF q1] by (intro Cons.IH) auto
    ultimately show ?thesis using True r1 q1 by (simp add: x)
  next
    case False
    then have "map_of (counts r1) u = map_of (counts r) u" using allow_other [OF r1] by auto
    then have "passed u qs r1 = passed u (filter (\<lambda>(v, t). v = u) qs) q"
      using Cons.prems allow_config [OF r1] by (intro Cons.IH) auto
    then show ?thesis using False r1 by (simp add: x)
  qed
qed simp

section \<open>Bounds\<close>

text \<open>What is left of the current window of a uid, if all remaining requests fall into it\<close>

definition left :: "32 word \<Rightarrow> limiter \<Rightarrow> nat" where
  "left u r = (case map_of (counts r) u of None \<Rightarrow> nat (limit r) | Some wc \<Rightarrow> nat (limit r - count wc))"

definition in_window :: "32 word \<Rightarrow> limiter \<Rightarrow> int \<Rightarrow> bool" where
  "in_window u r t \<longleftrightarrow> (case map_of (counts r) u of None \<Rightarrow> False | Some wc \<Rightarrow> time_sub t (start wc) \<le> window r)"

text \<open>While a window lasts, at most the rest of the limit gets through.\<close>

lemma passed_in_window:
  assumes "\<forall>(v, t) \<in> set qs. v = u \<longrightarrow> in_window u r t"
  shows "passed u qs r \<le> left u r"
  using assms
proof (induction qs arbitrary: r)
  case (Cons x qs)
  obtain v t where x: "x = (v, t)" by (cases x)
  obtain r1 b where r1: "allow v t r = (r1, b)" by (cases "allow v t r")
  note cfg = allow_config [OF r1]
  show ?case
  proof (cases "v = u")
    case False
    then have m: "map_of (counts r1) u = map_of (counts r) u" using allow_other [OF r1] by auto
    then have w: "in_window u r1 t' = in_window u r t'" "left u r1 = left u r" for t'
      using cfg by (simp_all add: in_window_def left_def split: option.split)
    have "\<forall>(v, t) \<in> set qs. v = u \<longrightarrow> in_window u r1 t" using Cons.prems by (simp add: w)
    from Cons.IH [OF this] show ?thesis using False r1 by (simp add: x w)
  next
    case True
    then obtain wc where wc: "map_of (counts r) u = Some wc" "time_sub t (start wc) \<le> window r"
      using Cons.prems by (auto simp: x in_window_def split: option.splits)
    have st: "map_of (counts r1) u = Some (if b then wc\<lparr>count := count wc + 1\<rparr> else wc)" "b \<longleftrightarrow> count wc < limit r"
      using r1 wc True by (auto simp: allow_def update_conv' split: if_splits)
    have "passed u qs r1 \<le> left u r1"
      using Cons.prems cfg wc(1) st(1) by (intro Cons.IH) (auto simp: in_window_def split: if_splits)
    then show ?thesis using True r1 st wc(1) cfg by (auto simp: x left_def)
  qed
qed simp

text \<open>
  In any stretch of time as long as the window, at most twice the limit gets through: the rest
  of the window that was running, and one new window.
\<close>

lemma in_new_window:
  assumes "0 \<le> window r" "map_of (counts r) u = Some \<lparr>start = s, count = n\<rparr>"
    and "\<forall>(v, t) \<in> set qs. t0 \<le> t \<and> t \<le> t0 + window r" "t0 \<le> s"
  shows "\<forall>(v, t) \<in> set qs. v = u \<longrightarrow> in_window u r t"
  using assms by (fastforce simp: in_window_def time_sub_def)

lemma passed_two_windows:
  assumes "\<forall>(v, t) \<in> set qs. t0 \<le> t \<and> t \<le> t0 + window r" "0 \<le> window r" "1 \<le> limit r"
  shows "passed u qs r \<le> (if map_of (counts r) u = None then 0 else left u r) + nat (limit r)"
  using assms
proof (induction qs arbitrary: r)
  case (Cons x qs)
  obtain v t where x: "x = (v, t)" by (cases x)
  obtain r1 b where r1: "allow v t r = (r1, b)" by (cases "allow v t r")
  note cfg = allow_config [OF r1]
  have ih: "passed u qs r1 \<le> (if map_of (counts r1) u = None then 0 else left u r1) + nat (limit r)"
    using Cons.IH [of r1] Cons.prems cfg by simp
  show ?case
  proof (cases "v = u")
    case False
    then have "map_of (counts r1) u = map_of (counts r) u" using allow_other [OF r1] by auto
    moreover from this have "left u r1 = left u r" using cfg by (simp add: left_def split: option.split)
    ultimately show ?thesis using ih False r1 by (cases "map_of (counts r) u") (auto simp: x)
  next
    case u: True
    show ?thesis
    proof (cases "in_window u r t")
      case True
      then obtain wc where wc: "map_of (counts r) u = Some wc" "time_sub t (start wc) \<le> window r"
        by (auto simp: in_window_def split: option.splits)
      have st: "map_of (counts r1) u = Some (if b then wc\<lparr>count := count wc + 1\<rparr> else wc)" "b \<longleftrightarrow> count wc < limit r"
        using r1 wc u by (auto simp: allow_def update_conv' split: if_splits)
      then show ?thesis using ih u r1 wc(1) cfg by (auto simp: x left_def)
    next
      case False
      then have new: "map_of (counts r1) u = Some \<lparr>start = t, count = 1\<rparr>" "b"
        using r1 u by (auto simp: allow_def update_conv' in_window_def split: option.splits)
      have "\<forall>(v, t) \<in> set qs. v = u \<longrightarrow> in_window u r1 t"
        using Cons.prems cfg by (intro in_new_window [OF _ new(1)]) (auto simp: x)
      then have "passed u qs r1 \<le> left u r1" by (rule passed_in_window)
      then show ?thesis using new r1 u cfg Cons.prems(3) by (simp add: x left_def)
    qed
  qed
qed simp

theorem limiter_bound:
  assumes "\<forall>(v, t) \<in> set qs. t0 \<le> t \<and> t \<le> t0 + window r" "0 \<le> window r" "1 \<le> limit r"
    and "\<forall>wc. map_of (counts r) u = Some wc \<longrightarrow> 0 \<le> count wc"
  shows "passed u qs r \<le> 2 * nat (limit r)"
proof -
  have "left u r \<le> nat (limit r)" using assms(4) by (auto simp: left_def split: option.splits)
  then show ?thesis using passed_two_windows [OF assms(1-3), of u] by (auto split: if_splits)
qed

end
