(* ===== verification/Server.thy ===== *)
theory Server
  imports Handlers Ratelimit
begin

text \<open>
  \<open>cmd/webblockd/server.go\<close>, \<open>config.go\<close> and the start of \<open>main.go\<close>: one connection goes
  through identification, decoding, the rate limiter and the dispatcher, in this order. The
  results here put the components together: a caller never changes the lists of others, at
  most twice the limit of its requests are dispatched in any window, the daemon keeps the
  engine's invariant, and an address that a request adds with success is blocked.
\<close>

section \<open>Configuration\<close>

record config =
  cfg_socket_path :: string
  cfg_store_dir :: string
  refresh_every :: int
  dns_cache_ttl :: int
  resolve_timeout :: int
  resolve_concurrency :: int
  conn_deadline :: int
  socket_mode :: int
  rate_limit :: int
  rate_window :: int

text \<open>The socket mode is octal 666.\<close>

definition default_config :: config where
  "default_config =
     \<lparr>cfg_socket_path = socket_path, cfg_store_dir = ''/var/lib/webblock'', refresh_every = 5 * minute,
      dns_cache_ttl = 15 * minute, resolve_timeout = 5 * second, resolve_concurrency = 12,
      conn_deadline = 30 * second, socket_mode = 6 * 64 + 6 * 8 + 6, rate_limit = 20,
      rate_window = 10 * second\<rparr>"

section \<open>Who is calling\<close>

text \<open>
  \<open>getPeerCred\<close>: the three calls that can fail, and what \<open>SO_PEERCRED\<close> reports. On systems other
  than Linux nobody can be identified.
\<close>

datatype cred_error = NoRawConn | ControlFailed | SockoptFailed | UnsupportedSystem

record cred_io =
  raw_conn_fails :: bool
  control_fails :: bool
  sockopt_ucred :: "(32 word \<times> 32 word \<times> 32 word) option"

definition get_peer_cred :: "cred_io \<Rightarrow> cred_error + peer_cred" where
  "get_peer_cred io =
     (if raw_conn_fails io then Inl NoRawConn
      else if control_fails io then Inl ControlFailed
      else (case sockopt_ucred io of
              None \<Rightarrow> Inl SockoptFailed
            | Some (uid, gid, pid) \<Rightarrow> Inr \<lparr>cred_uid = uid, cred_gid = gid, cred_pid = pid\<rparr>))"

definition get_peer_cred_other :: "cred_io \<Rightarrow> cred_error + peer_cred" where
  "get_peer_cred_other io = Inl UnsupportedSystem"

definition caller_of :: "cred_error + peer_cred \<Rightarrow> peer_cred option" where
  "caller_of r = (case r of Inl e \<Rightarrow> None | Inr cred \<Rightarrow> Some cred)"

text \<open>The identity is the kernel's word, and nothing else.\<close>

lemma caller_from_kernel:
  "caller_of (get_peer_cred io) = Some cred \<longleftrightarrow> \<not> raw_conn_fails io \<and> \<not> control_fails io \<and>
     sockopt_ucred io = Some (cred_uid cred, cred_gid cred, cred_pid cred)"
  by (cases cred) (auto simp: caller_of_def get_peer_cred_def split: option.split)

section \<open>One connection\<close>

text \<open>
  What a connection brings: the peer credentials (\<open>caller_of\<close>) and the decoded request, if they
  could be had, the time at which the limiter looks at the clock, and the rest of the outside.
\<close>

record conn =
  conn_cred :: "peer_cred option"
  conn_request :: "request option"
  conn_time :: int
  conn_call :: call

record 'b server =
  srv_limiter :: limiter
  srv_engine :: "'b engine"

definition new_server :: "config \<Rightarrow> 'b engine \<Rightarrow> 'b server" where
  "new_server c eng = \<lparr>srv_limiter = new_limiter (rate_limit c) (rate_window c), srv_engine = eng\<rparr>"

definition serve :: "(string \<times> 'b handler) list \<Rightarrow> 'b service \<Rightarrow> conn \<Rightarrow> 'b server \<Rightarrow> 'b server \<times> response" where
  "serve table sv c s =
     (case conn_cred c of
        None \<Rightarrow> (s, error_response NoIdentity)
      | Some cred \<Rightarrow>
          (case conn_request c of
             None \<Rightarrow> (s, error_response Malformed)
           | Some req \<Rightarrow>
               (case allow (cred_uid cred) (conn_time c) (srv_limiter s) of
                  (l, False) \<Rightarrow> (s\<lparr>srv_limiter := l\<rparr>, error_response RateLimited)
                | (l, True) \<Rightarrow>
                    (case dispatch table sv (conn_call c) cred req (srv_engine s) of
                       (eng, resp) \<Rightarrow> (s\<lparr>srv_limiter := l, srv_engine := eng\<rparr>, resp)))))"

fun serve_all ::
    "(string \<times> 'b handler) list \<Rightarrow> 'b service \<Rightarrow> conn list \<Rightarrow> 'b server \<Rightarrow> 'b server \<times> response list" where
  "serve_all table sv [] s = (s, [])"
| "serve_all table sv (c # cs) s =
     (case serve table sv c s of
        (s1, resp) \<Rightarrow> case serve_all table sv cs s1 of (s2, rs) \<Rightarrow> (s2, resp # rs))"

text \<open>\<open>main\<close> before it serves: reconcile all lists into the firewall, or give up\<close>

definition start_daemon :: "'b engine_cfg \<Rightarrow> config \<Rightarrow> world \<Rightarrow> disk \<Rightarrow> 'b \<Rightarrow> 'b server option" where
  "start_daemon cfg c w d b =
     (case rebuild cfg w ResolveAll \<lparr>disk_of = new_store d, be_state = b, cache = [], log = []\<rparr> of
        (eng, Some e) \<Rightarrow> None
      | (eng, None) \<Rightarrow> Some (new_server c eng))"

text \<open>
  The whole of \<open>main\<close> up to the point where it serves. \<open>detected\<close> is the outcome of \<open>Detect\<close>,
  \<open>backends\<close> the two implementations of \<open>Backend\<close>; \<open>mkdir_ok\<close> says whether the store's
  directory could be made.
\<close>

record 'b backend_ops =
  op_name :: string
  op_apply :: "'b \<Rightarrow> fw_state \<Rightarrow> 'b \<times> backend_error option"
  op_teardown :: "'b \<Rightarrow> 'b \<times> backend_error option"

definition nft_ops :: "'k tool \<Rightarrow> 'k backend_state backend_ops" where
  "nft_ops tool = \<lparr>op_name = nft_name, op_apply = nft_apply tool, op_teardown = nft_teardown tool\<rparr>"

definition ipt_ops :: "'k tool \<Rightarrow> ('k \<Rightarrow> string option) \<Rightarrow> 'k backend_state backend_ops" where
  "ipt_ops tool list_out = \<lparr>op_name = ipt_name, op_apply = ipt_apply tool, op_teardown = ipt_teardown tool list_out\<rparr>"

datatype 'b daemon_end =
    NoBackend
  | TeardownFailed backend_error 'b
  | TornDown string 'b
  | NoStore
  | ReconcileFailed
  | Serving "'b server"

definition daemon_cfg :: "'b backend_ops \<Rightarrow> (string list \<Rightarrow> string list) \<Rightarrow> config \<Rightarrow> 'b engine_cfg" where
  "daemon_cfg ops ord c =
     new_engine \<lparr>be_apply = op_apply ops, map_order = ord, concurrency = resolve_concurrency c, ttl = dns_cache_ttl c\<rparr>"

definition daemon_main ::
    "backend_kind option \<Rightarrow> (backend_kind \<Rightarrow> 'b backend_ops) \<Rightarrow> bool \<Rightarrow> bool \<Rightarrow> (string list \<Rightarrow> string list) \<Rightarrow>
     config \<Rightarrow> world \<Rightarrow> disk \<Rightarrow> 'b \<Rightarrow> 'b daemon_end" where
  "daemon_main detected backends teardown mkdir_ok ord c w d b =
     (case detected of
        None \<Rightarrow> NoBackend
      | Some kind \<Rightarrow>
          if teardown then
            (case op_teardown (backends kind) b of
               (b', Some e) \<Rightarrow> TeardownFailed e b'
             | (b', None) \<Rightarrow> TornDown (op_name (backends kind)) b')
          else if \<not> mkdir_ok then NoStore
          else (case start_daemon (daemon_cfg (backends kind) ord c) c w d b of
                  None \<Rightarrow> ReconcileFailed
                | Some s \<Rightarrow> Serving s))"

lemma daemon_cfg_sel [simp]:
  "be_apply (daemon_cfg ops ord c) = op_apply ops" "map_order (daemon_cfg ops ord c) = ord"
  by (simp_all add: daemon_cfg_def new_engine_def)

text \<open>Both backends keep the contract the engine needs, over any tools that behave as documented.\<close>

lemma daemon_backends:
  assumes "nft_kernel nft rules" "ipt_kernel ipt view" "iteration_order ord"
  shows "engine_parts (daemon_cfg (nft_ops nft) ord c) (\<lambda>b. nft_verdict (rules (snd b))) (nft_inv rules)"
    and "engine_parts (daemon_cfg (ipt_ops ipt list_out) ord c) (\<lambda>b. ipt_verdict (view (snd b))) (ipt_inv view)"
  using nft_kernel.nft_parts [OF assms(1)] ipt_kernel.ipt_parts [OF assms(2)] assms(3)
  by (simp_all add: nft_ops_def ipt_ops_def)

lemma daemon_serves:
  assumes "daemon_main detected backends teardown mkdir_ok ord c w d b = Serving s"
  shows "\<not> teardown" "\<exists>kind. detected = Some kind \<and> start_daemon (daemon_cfg (backends kind) ord c) c w d b = Some s"
  using assms by (auto simp: daemon_main_def split: option.splits if_splits prod.splits)

section \<open>Callers and lists\<close>

lemma serve_cases:
  assumes "serve table sv c s = (s', resp)"
  obtains
    (turned_away) e where "srv_engine s' = srv_engine s" "resp = error_response e" "e \<noteq> ApplyFailed"
  | (dispatched) cred req l where "conn_cred c = Some cred" "conn_request c = Some req"
      "allow (cred_uid cred) (conn_time c) (srv_limiter s) = (l, True)"
      "dispatch table sv (conn_call c) cred req (srv_engine s) = (srv_engine s', resp)"
proof (cases "conn_cred c")
  case None
  then show ?thesis using assms turned_away [of NoIdentity] by (simp add: serve_def)
next
  case cred: (Some cred)
  show ?thesis
  proof (cases "conn_request c")
    case None
    then show ?thesis using assms cred turned_away [of Malformed] by (simp add: serve_def)
  next
    case req: (Some req)
    obtain l b where a: "allow (cred_uid cred) (conn_time c) (srv_limiter s) = (l, b)"
      by (cases "allow (cred_uid cred) (conn_time c) (srv_limiter s)")
    show ?thesis
    proof (cases b)
      case False
      then show ?thesis using assms cred req a turned_away [of RateLimited] by (auto simp: serve_def)
    next
      case True
      then show ?thesis using assms cred req a
        by (intro dispatched [of cred req l]) (auto simp: serve_def split: prod.splits)
    qed
  qed
qed

text \<open>A connection of a caller other than root, and not of the owner of the list \<open>t\<close>\<close>

definition stranger :: "scope \<Rightarrow> conn \<Rightarrow> bool" where
  "stranger t c \<longleftrightarrow>
     (case conn_cred c of None \<Rightarrow> True
      | Some cred \<Rightarrow> \<not> IsRoot cred \<and> \<not> same_scope (UserScope (uid_int cred)) t)"

lemma serve_stranger:
  assumes "serve handler_table sv c s = (s', resp)" "stranger t c"
  shows "content (disk_of (srv_engine s')) t = content (disk_of (srv_engine s)) t"
  using assms(1)
proof (cases rule: serve_cases)
  case (dispatched cred req l)
  then show ?thesis
    using assms(2) daemon.dispatcher.own_list_only [OF dispatched(4)] by (simp add: stranger_def)
qed simp

theorem strangers_cannot_change:
  assumes "serve_all handler_table sv cs s = (s', rs)" "\<forall>c \<in> set cs. stranger t c"
  shows "content (disk_of (srv_engine s')) t = content (disk_of (srv_engine s)) t"
  using assms
proof (induction cs arbitrary: s rs)
  case (Cons c cs)
  obtain s1 r1 where 1: "serve handler_table sv c s = (s1, r1)" by (cases "serve handler_table sv c s")
  obtain rs1 where 2: "serve_all handler_table sv cs s1 = (s', rs1)"
    using Cons.prems(1) 1 by (auto split: prod.splits)
  show ?case using Cons.IH [OF 2] Cons.prems(2) serve_stranger [OF 1] by simp
qed simp

text \<open>What a normal user is shown depends on its own and the global list only.\<close>

lemma load_iff: "load_locked io d s = Inr bl \<longleftrightarrow> content d s = Some bl \<and> \<not> read_fault io s"
  using load_content [of io d s bl] content_load [of d s bl io] by (auto simp: load_locked_def)

lemma load_cong:
  assumes "content d s = content d' s"
  shows "(\<exists>e e'. load_locked io d s = Inl e \<and> load_locked io d' s = Inl e') \<or> load_locked io d s = load_locked io d' s"
proof (cases "load_locked io d s"; cases "load_locked io d' s")
  fix e bl assume l: "load_locked io d s = Inl e" "load_locked io d' s = Inr bl"
  then have "load_locked io d s = Inr bl" using assms load_iff [of io d s bl] load_iff [of io d' s bl] by simp
  then show ?thesis using l by simp
next
  fix bl e assume l: "load_locked io d s = Inr bl" "load_locked io d' s = Inl e"
  then have "load_locked io d' s = Inr bl" using assms load_iff [of io d s bl] load_iff [of io d' s bl] by simp
  then show ?thesis using l by simp
next
  fix bl bl' assume l: "load_locked io d s = Inr bl" "load_locked io d' s = Inr bl'"
  then have "content d s = Some bl" "content d' s = Some bl'" by (auto simp: load_content)
  then show ?thesis using assms l by simp
qed auto

theorem show_own_view:
  assumes "content d (UserScope u) = content d' (UserScope u)" "content d GlobalScope = content d' GlobalScope"
  shows "show_as_user io d u = show_as_user io d' u"
  using load_cong [OF assms(1), of io] load_cong [OF assms(2), of io]
  by (auto simp: show_as_user_def split: sum.split)

theorem show_root_views:
  assumes "wf_disk d" "show_as_root db io d = resp" "resp_ok resp"
  shows "\<exists>us. strict_sorted us \<and>
    resp_views resp = \<lparr>view_scope = ''global (all users)'', read_only = False,
        view_domains = Domains (global_list d), view_ips = IPs (global_list d)\<rparr> #
      map (\<lambda>u. \<lparr>view_scope = scope_label_with_name db u, read_only = False,
        view_domains = Domains (user_list d u), view_ips = IPs (user_list d u)\<rparr>) us \<and>
    (\<forall>u. go_int u \<and> u \<notin> set us \<longrightarrow> user_list d u = empty_blocklist)"
proof -
  obtain g us vs where l: "load_locked io d GlobalScope = Inr g" "list_user_uids io d = Inr us"
    "user_views db io d us = Inr vs"
    and v: "resp_views resp = \<lparr>view_scope = ''global (all users)'', read_only = False,
        view_domains = Domains g, view_ips = IPs g\<rparr> # vs"
    using assms(2,3) by (auto simp: show_as_root_def split: sum.splits)
  have "vs = map (\<lambda>u. \<lparr>view_scope = scope_label_with_name db u, read_only = False,
        view_domains = Domains (user_list d u), view_ips = IPs (user_list d u)\<rparr>) us"
    using l(3) by (induction us arbitrary: vs) (auto simp: user_list_def dest!: load_content split: sum.splits)
  moreover have "g = global_list d" using load_content [OF l(1)] by (simp add: global_list_def)
  ultimately show ?thesis
    using v list_user_uids_spec(1,3) [OF assms(1) l(2)] by (auto simp: user_list_def)
qed

text \<open>After a mutating request that succeeded the list has, or has no more, the entries it named.\<close>

lemma mutate_handle_lists:
  assumes "mutate_handle add sv call caller req eng = (eng', resp)" "resp_ok resp" "wf_disk (disk_of eng)"
    and "ResolveScope (user_names sv) (target_user req) caller = Inr s"
    and "normalize_and_validate (unicode_lower sv) (req_domains req) (req_ips req) = Inr (domains, ips)"
  shows "\<exists>bl. content (disk_of eng') s = Some bl \<and>
    (if add then set domains \<subseteq> set (Domains bl) \<and> set ips \<subseteq> set (IPs bl)
     else set domains \<inter> set (Domains bl) = {} \<and> set ips \<inter> set (IPs bl) = {})"
  using assms(1)
proof (cases rule: mutate_handle_cases)
  case (refused e)
  then show ?thesis using assms(2) by simp
next
  case (changed sc ds as n m r)
  have same: "sc = s" "ds = domains" "as = ips" using changed(1,2) assms(4,5) by simp_all
  have "r = None" using changed(4) assms(2) by (cases r) auto
  then obtain bl bl' where bl: "content (disk_of eng) s = Some bl"
    "(if add then add_fn domains ips else remove_fn domains ips) bl = Inr (bl', n, m)"
    and new: "content (disk_of eng') s = Some (tidy bl')"
    using change_entries_cases [OF changed(3)] same by auto
  have wf: "wf_blocklist bl" using fs_store.get_inv [OF assms(3), of s] bl(1) by auto
  have "[] \<notin> set domains"
    using normalize_and_validate_ok(3) [OF assms(5)] valid_domain_not_Nil by blast
  moreover have "[] \<notin> set ips"
    using normalize_and_validate_ok(5) [OF assms(5)] addr_text_chars by (auto simp: canonical_ip_def)
  ultimately show ?thesis
    using new bl(2) add_fn_spec(1,2) [of domains ips bl bl' n m] remove_fn_spec(1,2) [of domains ips bl bl' n m] wf
    by (cases add) (auto simp: tidy_def)
qed

section \<open>Rate limiting\<close>

text \<open>The requests of a uid that reach the dispatcher\<close>

fun dispatched_of :: "32 word \<Rightarrow> conn list \<Rightarrow> limiter \<Rightarrow> nat" where
  "dispatched_of u [] l = 0"
| "dispatched_of u (c # cs) l =
     (case (conn_cred c, conn_request c) of
        (Some cred, Some req) \<Rightarrow>
          (case allow (cred_uid cred) (conn_time c) l of
             (l', b) \<Rightarrow> (if b \<and> cred_uid cred = u then 1 else 0) + dispatched_of u cs l')
      | _ \<Rightarrow> dispatched_of u cs l)"

definition limited_requests :: "conn list \<Rightarrow> (32 word \<times> int) list" where
  "limited_requests cs =
     List.map_filter (\<lambda>c. case (conn_cred c, conn_request c) of
        (Some cred, Some req) \<Rightarrow> Some (cred_uid cred, conn_time c) | _ \<Rightarrow> None) cs"

lemma dispatched_passed: "dispatched_of u cs l = passed u (limited_requests cs) l"
  by (induction cs arbitrary: l) (auto simp: limited_requests_def List.map_filter_simps split: option.splits prod.splits)

text \<open>\<open>dispatched_of\<close> follows the limiter of the server.\<close>

lemma serve_limiter:
  "serve table sv c s = (s', resp) \<Longrightarrow>
   dispatched_of u (c # cs) (srv_limiter s) =
     (if \<exists>cred req l. conn_cred c = Some cred \<and> conn_request c = Some req \<and> cred_uid cred = u \<and>
        allow u (conn_time c) (srv_limiter s) = (l, True) then 1 else 0)
     + dispatched_of u cs (srv_limiter s')"
  by (auto simp: serve_def split: option.splits prod.splits bool.splits)

lemma limited_times:
  "\<forall>c \<in> set cs. t0 \<le> conn_time c \<and> conn_time c \<le> t1 \<Longrightarrow> \<forall>(v, t) \<in> set (limited_requests cs). t0 \<le> t \<and> t \<le> t1"
  by (auto simp: limited_requests_def List.map_filter_def split: option.splits)

text \<open>The limiter of a running server: the configured limits, and counts that are positive\<close>

definition limiter_ok :: "config \<Rightarrow> limiter \<Rightarrow> bool" where
  "limiter_ok cfg l \<longleftrightarrow> limit l = rate_limit cfg \<and> window l = rate_window cfg \<and>
     (\<forall>u wc. map_of (counts l) u = Some wc \<longrightarrow> 1 \<le> count wc)"

lemma limiter_ok_new: "limiter_ok cfg (srv_limiter (new_server cfg eng))"
  by (simp add: limiter_ok_def new_server_def new_limiter_def)

lemma allow_ok: "allow u t l = (l', b) \<Longrightarrow> limiter_ok cfg l \<Longrightarrow> limiter_ok cfg l'"
  by (fastforce simp: allow_def limiter_ok_def update_conv' split: option.splits if_splits)

lemma serve_limiter_ok: "serve table sv c s = (s', resp) \<Longrightarrow> limiter_ok cfg (srv_limiter s) \<Longrightarrow> limiter_ok cfg (srv_limiter s')"
  by (auto simp: serve_def split: option.splits prod.splits bool.splits dest: allow_ok)

theorem dispatch_rate:
  assumes "\<forall>c \<in> set cs. t0 \<le> conn_time c \<and> conn_time c \<le> t0 + rate_window cfg" "0 \<le> rate_window cfg" "1 \<le> rate_limit cfg"
    and "limiter_ok cfg (srv_limiter s)"
  shows "dispatched_of u cs (srv_limiter s) \<le> 2 * nat (rate_limit cfg)"
proof -
  let ?l = "srv_limiter s"
  have w: "window ?l = rate_window cfg" "limit ?l = rate_limit cfg" using assms(4) by (simp_all add: limiter_ok_def)
  have "passed u (limited_requests cs) ?l \<le> 2 * nat (limit ?l)"
  proof (rule limiter_bound)
    show "\<forall>(v, t) \<in> set (limited_requests cs). t0 \<le> t \<and> t \<le> t0 + window ?l"
      unfolding w by (rule limited_times [OF assms(1)])
    show "\<forall>wc. map_of (counts ?l) u = Some wc \<longrightarrow> 0 \<le> count wc"
      using assms(4) by (fastforce simp: limiter_ok_def)
  qed (use assms w in simp_all)
  then show ?thesis by (simp add: dispatched_passed w)
qed

section \<open>The daemon over any backend\<close>

text \<open>
  Requests whose scope the kernel knows. For a normal user this always holds; root may name
  any 64-bit number.
\<close>

definition request_in_range :: "'b service \<Rightarrow> peer_cred \<Rightarrow> request \<Rightarrow> bool" where
  "request_in_range sv caller req \<longleftrightarrow>
     (case ResolveScope (user_names sv) (target_user req) caller of Inl e \<Rightarrow> True | Inr s \<Rightarrow> scope_ok s)"

lemma user_in_range: "\<not> IsRoot caller \<Longrightarrow> request_in_range sv caller req"
  using kernel_uid_caller [of caller]
  by (auto simp: request_in_range_def user_scope_only scope_ok_def UserScope_def)

definition call_ok :: "call \<Rightarrow> bool" where
  "call_ok c \<longleftrightarrow> world_ok (call_world c) \<and> temp_digits (call_io c)"

definition conn_ok :: "'b service \<Rightarrow> conn \<Rightarrow> bool" where
  "conn_ok sv c \<longleftrightarrow> call_ok (conn_call c) \<and>
     (case (conn_cred c, conn_request c) of (Some cred, Some req) \<Rightarrow> request_in_range sv cred req | _ \<Rightarrow> True)"

context engine_parts
begin

lemma mutate_handle_inv:
  assumes "mutate_handle add sv call caller req eng = (eng', resp)" "eng_cfg sv = cfg" "engine_inv inv eng"
    and "call_ok call" "request_in_range sv caller req"
  shows "engine_inv inv eng'"
    and "resp_ok resp \<Longrightarrow> verdict (be_state eng') p \<longleftrightarrow> desired (disk_of eng') (cache eng') p"
proof -
  have "engine_inv inv eng' \<and> (resp_ok resp \<longrightarrow> verdict (be_state eng') p \<longleftrightarrow> desired (disk_of eng') (cache eng') p)"
    using assms(1)
  proof (cases rule: mutate_handle_cases)
    case (refused e)
    then show ?thesis using assms(3) by simp
  next
    case (changed s domains ips n m r)
    have s: "scope_ok s" using assms(5) changed(1) by (simp add: request_in_range_def)
    show ?thesis
      using change_ok [OF assms(3) _ s _ changed(3) [unfolded assms(2)]] assms(4) changed(4)
      by (cases r) (auto simp: call_ok_def)
  qed
  then show "engine_inv inv eng'"
    "resp_ok resp \<Longrightarrow> verdict (be_state eng') p \<longleftrightarrow> desired (disk_of eng') (cache eng') p" by blast+
qed

lemma dispatch_inv:
  assumes "dispatch handler_table sv call caller req eng = (eng', resp)" "eng_cfg sv = cfg" "engine_inv inv eng"
    and "call_ok call" "request_in_range sv caller req"
  shows "engine_inv inv eng'"
  using assms(1)
proof (cases rule: daemon.dispatch_cases)
  case (handled h)
  then show ?thesis using assms(3) mutate_handle_inv(1) [OF _ assms(2-5)]
    by (auto simp: handler_table_def show_handle_def status_handle_def)
qed (use assms(3) in simp)

lemma serve_inv:
  assumes "serve handler_table sv c s = (s', resp)" "eng_cfg sv = cfg" "engine_inv inv (srv_engine s)" "conn_ok sv c"
  shows "engine_inv inv (srv_engine s')"
  using assms(1)
proof (cases rule: serve_cases)
  case (dispatched cred req l)
  then show ?thesis using dispatch_inv [OF dispatched(4) assms(2,3)] assms(4) by (simp add: conn_ok_def)
qed (use assms(3) in simp)

lemma serve_all_inv:
  assumes "serve_all handler_table sv cs s = (s', rs)" "eng_cfg sv = cfg" "engine_inv inv (srv_engine s)"
    and "\<forall>c \<in> set cs. conn_ok sv c"
  shows "engine_inv inv (srv_engine s')"
  using assms
proof (induction cs arbitrary: s rs)
  case (Cons c cs)
  obtain s1 r1 where 1: "serve handler_table sv c s = (s1, r1)" by (cases "serve handler_table sv c s")
  obtain rs1 where 2: "serve_all handler_table sv cs s1 = (s', rs1)"
    using Cons.prems(1) 1 by (auto split: prod.splits)
  have "engine_inv inv (srv_engine s1)" using serve_inv [OF 1 assms(2)] Cons.prems(3,4) by simp
  then show ?case using Cons.IH [OF 2 assms(2)] Cons.prems(4) by simp
qed simp

text \<open>The first reconcile makes the kernel block what is on disk, or the daemon does not serve.\<close>

lemma start_ok:
  assumes "start_daemon cfg c w d b = Some s" "wf_disk (new_store d)" "disk_uids_ok (new_store d)" "inv b" "world_ok w"
  shows "engine_inv inv (srv_engine s)" "disk_of (srv_engine s) = new_store d"
    and "verdict (be_state (srv_engine s)) p \<longleftrightarrow> desired (new_store d) (cache (srv_engine s)) p"
proof -
  let ?e = "\<lparr>disk_of = new_store d, be_state = b, cache = [], log = []\<rparr>"
  obtain eng where r: "rebuild cfg w ResolveAll ?e = (eng, None)" and s: "srv_engine s = eng"
    using assms(1) by (auto simp: start_daemon_def new_server_def split: prod.splits option.splits)
  have i: "engine_inv inv ?e" using assms by (simp add: engine_inv_def wf_cache_def)
  show "engine_inv inv (srv_engine s)" "disk_of (srv_engine s) = new_store d"
    "verdict (be_state (srv_engine s)) p \<longleftrightarrow> desired (new_store d) (cache (srv_engine s)) p"
    using rebuild_ok [OF i assms(5) r] rebuild_disk [OF r] by (simp_all add: s)
qed

text \<open>An address that was added with success is blocked for those the list is about.\<close>

lemma add_blocks:
  assumes "mutate_handle True sv call caller req eng = (eng', resp)" "resp_ok resp" "eng_cfg sv = cfg"
    and "engine_inv inv eng" "call_ok call" "request_in_range sv caller req"
    and "ResolveScope (user_names sv) (target_user req) caller = Inr s" "Global s \<or> skuid p = UID s"
    and "ip \<in> set (req_ips req)" "canon_ip ip = Inr (daddr p)" "addr_text (is_v6 p) (daddr p)"
  shows "verdict (be_state eng') p"
  using assms(1)
proof (cases rule: mutate_handle_cases)
  case (refused e)
  then show ?thesis using assms(2) by simp
next
  case (changed s' domains ips n m r)
  have s: "s' = s" "scope_ok s" using changed(1) assms(6,7) by (auto simp: request_in_range_def)
  have r: "r = None" using changed(4) assms(2) by (cases r) auto
  have eq: "map canon_ip (req_ips req) = map Inr ips" by (rule normalize_and_validate_ok(4) [OF changed(2)])
  have "canon_ip ip \<in> set (map canon_ip (req_ips req))" using assms(9) by simp
  then have "canon_ip ip \<in> set (map Inr ips)" by (simp only: eq)
  then have a: "daddr p \<in> set ips" by (auto simp: assms(10))
  obtain bl bl' where bl: "add_fn domains ips bl = Inr (bl', n, m)" and
    content: "\<forall>t. content (disk_of eng') t = (if same_scope s t then Some (tidy bl') else content (disk_of eng) t)"
    using change_entries_cases [OF changed(3)] r s(1) by auto
  have "daddr p \<noteq> []" using addr_text_chars [OF assms(11)] by simp
  then have "daddr p \<in> set (IPs (tidy bl'))" using a add_fn_spec(2) [OF bl] by (simp add: tidy_def)
  moreover obtain x where "parse_ip (daddr p) = Some x" "ip_string x = daddr p" "to4 x = None \<longleftrightarrow> is_v6 p"
    using assms(11) by (auto simp: addr_text_def split: option.splits)
  ultimately have "\<exists>ip \<in> set (IPs (tidy bl')). \<exists>x. parse_ip ip = Some x \<and> (to4 x = None \<longleftrightarrow> is_v6 p) \<and> ip_string x = daddr p"
    by (intro bexI [of _ "daddr p"] exI [of _ x]) simp_all
  then have listed: "listed c (tidy bl') (is_v6 p) (daddr p)" for c
    by (simp add: listed_def)
  have "desired (disk_of eng') (cache eng') p"
  proof (cases "Global s")
    case True
    then have "content (disk_of eng') GlobalScope = Some (tidy bl')" using content by simp
    then show ?thesis using listed by (simp add: desired_def global_list_def)
  next
    case False
    then have u: "skuid p = UID s" "kernel_uid (UID s)" using assms(8) s(2) by (auto simp: scope_ok_def)
    have "content (disk_of eng') (UserScope (UID s)) = Some (tidy bl')" using content False by simp
    then show ?thesis using listed u scope_ok_go [OF s(2)] by (simp add: desired_def user_list_def)
  qed
  then show ?thesis using mutate_handle_inv(2) [OF assms(1,3-6,2)] by simp
qed

end

end
