(* ===== verification/Noninterference.thy ===== *)
theory Noninterference
  imports Server
begin

text \<open>
  What users can learn of each other. Two runs of the server are compared, one with and one
  without the connections of the other normal users: the user's list, the global list and the
  user's standing with the rate limiter are the same at the end, and so is the answer to a
  \<open>show\<close>. This is the information-flow side of \<open>strangers_cannot_change\<close>.
\<close>

section \<open>Mutations depend on their own list only\<close>

lemma content_path: "same_scope s t \<Longrightarrow> content d s = content d t"
  by (metis content_def path_eq_iff)

lemma load_outcome:
  assumes "wf_disk d"
  shows "load_locked io d s = (if read_fault io s then Inl (ReadError s) else Inr (the (content d s)))"
proof -
  obtain bl where "content d s = Some bl" using assms by (auto simp: wf_disk_def)
  then show ?thesis using content_load [of d s bl io] by (auto simp: load_locked_def)
qed

lemma save_outcome:
  assumes "wf_disk d" "save_locked io d s bl = (ds, r)"
  shows "r = map_option (\<lambda>stage. SaveError stage s) (save_fault io s)"
proof -
  obtain es where "users d = Some es" using assms(1) by (auto simp: wf_disk_def)
  then have p: "has_place d (fst (path s))"
    by (simp add: has_place_def place_dir_def path_def)
  have "content d s \<noteq> None" using assms(1) by (auto simp: wf_disk_def)
  then have f: "disk_get d (path s) \<noteq> Some Dir" by (auto simp: content_def)
  show ?thesis using assms(2) p f
    by (cases "save_fault io s") (auto simp: save_locked_def Let_def split: save_stage.splits)
qed

lemma mutate_determined:
  assumes "wf_disk d" "wf_disk d'" "content d s = content d' s"
    and "mutate io d s fn = (e, q)" "mutate io d' s fn = (e', q')"
  shows "q = q' \<and> content e s = content e' s"
proof -
  have same: "load_locked io d s = load_locked io d' s"
    by (simp add: load_outcome [OF assms(1)] load_outcome [OF assms(2)] assms(3))
  have "snd (save_locked io d s bl) = snd (save_locked io d' s bl)" for bl
    using save_outcome [OF assms(1), of io s bl] save_outcome [OF assms(2), of io s bl]
    by (cases "save_locked io d s bl"; cases "save_locked io d' s bl") simp
  then have "snd (mutate io d s fn) = snd (mutate io d' s fn)"
    unfolding mutate_def same by (simp add: split_beta split: sum.split option.split)
  then have "q = q'" using assms(4,5) by simp
  moreover have "content e s = content e' s"
  proof (cases q)
    case (Inl x)
    then show ?thesis
      using fs_store.mutate_fail [of io d s fn e x s] fs_store.mutate_fail [of io d' s fn e' x s] assms(3-5)
        \<open>q = q'\<close> by simp
  next
    case (Inr x)
    then show ?thesis
      using fs_store.mutate_get [of io d s fn e x] fs_store.mutate_get [of io d' s fn e' x] assms(3-5) \<open>q = q'\<close>
      by fastforce
  qed
  ultimately show ?thesis by blast
qed

lemma change_mutates:
  assumes "change_entries cfg io w s fn x = (x', n, m, r)"
  obtains q where "mutate io (disk_of x) s fn = (disk_of x', q)"
    "(n, m) = (case q of Inl e \<Rightarrow> (0, 0) | Inr k \<Rightarrow> k)"
proof -
  obtain d q where mu: "mutate io (disk_of x) s fn = (d, q)" by (cases "mutate io (disk_of x) s fn")
  show ?thesis
  proof (cases q)
    case (Inl e)
    have "x' = x\<lparr>disk_of := d\<rparr>" "n = 0" "m = 0" using assms mu Inl by (simp_all add: change_entries_def)
    then show ?thesis using mu Inl by (intro that [of q]) simp_all
  next
    case (Inr k)
    obtain y z where rb: "rebuild cfg w ResolveMissing (x\<lparr>disk_of := d\<rparr>) = (y, z)"
      by (cases "rebuild cfg w ResolveMissing (x\<lparr>disk_of := d\<rparr>)")
    obtain k1 k2 where k: "k = (k1, k2)" by (cases k)
    have "x' = y" "k1 = n" "k2 = m" using assms mu Inr rb k by (simp_all add: change_entries_def)
    then show ?thesis using mu Inr k rebuild_disk [OF rb] by (intro that [of q]) simp_all
  qed
qed

lemma change_determined:
  assumes "wf_disk (disk_of a)" "wf_disk (disk_of b)"
    and "change_entries cfg io w s fn a = (a', n, m, r)" "change_entries cfg io w s fn b = (b', n', m', r')"
  shows "content (disk_of a) t = content (disk_of b) t \<Longrightarrow> content (disk_of a') t = content (disk_of b') t"
    and "content (disk_of a) s = content (disk_of b) s \<Longrightarrow> n = n' \<and> m = m'"
proof -
  obtain q where q: "mutate io (disk_of a) s fn = (disk_of a', q)" "(n, m) = (case q of Inl e \<Rightarrow> (0, 0) | Inr k \<Rightarrow> k)"
    by (rule change_mutates [OF assms(3)])
  obtain q' where q': "mutate io (disk_of b) s fn = (disk_of b', q')" "(n', m') = (case q' of Inl e \<Rightarrow> (0, 0) | Inr k \<Rightarrow> k)"
    by (rule change_mutates [OF assms(4)])
  note same = mutate_determined [OF assms(1,2) _ q(1) q'(1)]
  show "n = n' \<and> m = m'" if "content (disk_of a) s = content (disk_of b) s"
  proof -
    have "(n, m) = (n', m')" unfolding q(2) q'(2) using same [OF that] by simp
    then show ?thesis by simp
  qed
  show "content (disk_of a') t = content (disk_of b') t" if "content (disk_of a) t = content (disk_of b) t"
  proof (cases "same_scope s t")
    case True
    have "content (disk_of a) s = content (disk_of b) s" unfolding content_path [OF True] by (rule that)
    from same [OF this] show ?thesis unfolding content_path [OF True, symmetric] by blast
  next
    case False
    then show ?thesis using fs_store.mutate_frame [OF q(1)] fs_store.mutate_frame [OF q'(1)] that by simp
  qed
qed

lemma change_keeps_wf:
  assumes "change_entries cfg io w s fn x = (x', n, m, r)" "wf_disk (disk_of x)" "go_int (UID s)" "temp_digits io"
  shows "wf_disk (disk_of x')"
proof -
  obtain q where "mutate io (disk_of x) s fn = (disk_of x', q)"
    by (rule change_mutates [OF assms(1)])
  from fs_store.mutate_inv [OF this assms(2-4)] show ?thesis .
qed

section \<open>What a user can see\<close>

text \<open>Two engines that agree on the lists a normal user is subject to\<close>

definition same_lists :: "32 word \<Rightarrow> 'b engine \<Rightarrow> 'b engine \<Rightarrow> bool" where
  "same_lists u a b \<longleftrightarrow> wf_disk (disk_of a) \<and> wf_disk (disk_of b) \<and>
     content (disk_of a) GlobalScope = content (disk_of b) GlobalScope \<and>
     content (disk_of a) (UserScope (uint u)) = content (disk_of b) (UserScope (uint u))"

text \<open>Two servers that also agree on the standing of the user and of root with the limiter\<close>

definition same_view :: "32 word \<Rightarrow> 'b server \<Rightarrow> 'b server \<Rightarrow> bool" where
  "same_view u s t \<longleftrightarrow> same_lists u (srv_engine s) (srv_engine t) \<and>
     limit (srv_limiter s) = limit (srv_limiter t) \<and> window (srv_limiter s) = window (srv_limiter t) \<and>
     (\<forall>v \<in> {0, u}. map_of (counts (srv_limiter s)) v = map_of (counts (srv_limiter t)) v)"

text \<open>Answers are the same unless a change could not be made or applied.\<close>

definition agree :: "response \<Rightarrow> response \<Rightarrow> bool" where
  "agree r r' \<longleftrightarrow> r = r' \<or> resp_error r = Some ApplyFailed \<or> resp_error r' = Some ApplyFailed"


lemma agree_refl [simp]: "agree r r"
  by (simp add: agree_def)

lemma same_lists_content:
  "same_lists u a b \<Longrightarrow> s = GlobalScope \<or> s = UserScope (uint u) \<Longrightarrow> content (disk_of a) s = content (disk_of b) s"
  by (auto simp: same_lists_def)

text \<open>What a mutating handler will do is settled by the request, before the lists are looked at.\<close>

lemma mutate_handle_plan:
  obtains
    (refuses) e where "\<And>eng. mutate_handle add sv call caller req eng = (eng, error_response e)"
  | (changes) s fn answer where "ResolveScope (user_names sv) (target_user req) caller = Inr s"
      "\<And>eng. mutate_handle add sv call caller req eng =
         (case change_entries (eng_cfg sv) (call_io call) (call_world call) s fn eng of
            (eng', n, m, Some e) \<Rightarrow> (eng', error_response ApplyFailed)
          | (eng', n, m, None) \<Rightarrow> (eng', answer n m))"
proof (cases "ResolveScope (user_names sv) (target_user req) caller")
  case (Inl e)
  then show ?thesis by (intro refuses [of e]) (simp add: mutate_handle_def)
next
  case s: (Inr s)
  show ?thesis
  proof (cases "normalize_and_validate (unicode_lower sv) (req_domains req) (req_ips req)")
    case (Inl e)
    then show ?thesis using s by (intro refuses [of e]) (simp add: mutate_handle_def)
  next
    case (Inr di)
    obtain domains ips where di: "di = (domains, ips)" by (cases di)
    show ?thesis
    proof (cases "domains = [] \<and> ips = []")
      case True
      then show ?thesis using s Inr di by (intro refuses [of NothingToDo]) (simp add: mutate_handle_def)
    next
      case False
      then show ?thesis using s Inr di
        by (intro changes [of s "\<lambda>n m. ok_response\<lparr>resp_message := mutate_message add s n m (length domains) (length ips)\<rparr>"
              "if add then add_fn domains ips else remove_fn domains ips"])
          (auto simp: mutate_handle_def add_entries_def remove_entries_def)
    qed
  qed
qed

lemma mutate_step:
  assumes "same_lists u a b" "temp_digits (call_io call)"
    and "mutate_handle add sv call caller req a = (a', r)" "mutate_handle add sv call caller req b = (b', r')"
  shows "same_lists u a' b' \<and> (\<not> IsRoot caller \<longrightarrow> cred_uid caller = u \<longrightarrow> agree r r')"
proof (cases rule: mutate_handle_plan [of add sv call caller req])
  case (refuses e)
  then show ?thesis using assms by simp
next
  case (changes s fn answer)
  obtain n m x where a: "change_entries (eng_cfg sv) (call_io call) (call_world call) s fn a = (a', n, m, x)"
    and r: "r = (case x of Some e \<Rightarrow> error_response ApplyFailed | None \<Rightarrow> answer n m)"
    using assms(3) by (auto simp: changes(2) split: prod.splits option.splits)
  obtain n' m' x' where b: "change_entries (eng_cfg sv) (call_io call) (call_world call) s fn b = (b', n', m', x')"
    and r': "r' = (case x' of Some e \<Rightarrow> error_response ApplyFailed | None \<Rightarrow> answer n' m')"
    using assms(4) by (auto simp: changes(2) split: prod.splits option.splits)
  have wf: "wf_disk (disk_of a)" "wf_disk (disk_of b)" using assms(1) by (simp_all add: same_lists_def)
  note same = change_determined [OF wf a b]
  have "wf_disk (disk_of a')" "wf_disk (disk_of b')"
    using change_keeps_wf [OF a wf(1)] change_keeps_wf [OF b wf(2)] resolve_scope_range [OF changes(1)] assms(2) by simp_all
  then have "same_lists u a' b'" using assms(1) same(1) by (simp add: same_lists_def)
  moreover have "agree r r'" if "\<not> IsRoot caller" "cred_uid caller = u"
  proof -
    have "s = UserScope (uint u)" using changes(1) that by (auto simp: user_scope_only uid_int_def split: if_splits)
    then have "n = n' \<and> m = m'" using same(2) same_lists_content [OF assms(1)] by simp
    then show ?thesis by (auto simp: r r' agree_def split: option.splits)
  qed
  ultimately show ?thesis by blast
qed

lemma dispatch_step:
  assumes "same_lists u a b" "temp_digits (call_io call)"
    and "dispatch handler_table sv call caller req a = (a', r)" "dispatch handler_table sv call caller req b = (b', r')"
  shows "same_lists u a' b' \<and> (\<not> IsRoot caller \<longrightarrow> cred_uid caller = u \<longrightarrow> agree r r')"
proof (cases "req_version req > proto_version")
  case True
  then show ?thesis using assms by (simp add: dispatch_def)
next
  case v: False
  show ?thesis
  proof (cases "map_of handler_table (req_action req) :: 'a handler option")
    case None
    then show ?thesis using assms v by (simp add: dispatch_def)
  next
    case (Some h)
    have h: "h sv call caller req a = (a', r)" "h sv call caller req b = (b', r')"
      using assms(3,4) v Some by (simp_all add: dispatch_def)
    have "(req_action req, h) \<in> set handler_table" using Some by (rule map_of_SomeD)
    then consider (mutating) add where "h = mutate_handle add" | (showing) "h = show_handle" | (status) "h = status_handle"
      by (auto simp: handler_table_def)
    then show ?thesis
    proof cases
      case mutating
      then show ?thesis using mutate_step [OF assms(1,2)] h by blast
    next
      case showing
      have "show_as_user io (disk_of a) (uint u) = show_as_user io (disk_of b) (uint u)" for io
        using assms(1) by (intro show_own_view) (simp_all add: same_lists_def)
      then show ?thesis using h assms(1) by (auto simp: showing show_handle_def uid_int_def)
    next
      case status
      then show ?thesis using h assms(1) by (auto simp: status_handle_def)
    qed
  qed
qed

section \<open>Runs with and without the others\<close>

text \<open>A connection of somebody else: neither root nor the user\<close>

definition of_others :: "32 word \<Rightarrow> conn \<Rightarrow> bool" where
  "of_others u c \<longleftrightarrow> (case conn_cred c of None \<Rightarrow> False | Some cred \<Rightarrow> cred_uid cred \<noteq> 0 \<and> cred_uid cred \<noteq> u)"

definition of_user :: "32 word \<Rightarrow> conn \<Rightarrow> bool" where
  "of_user u c \<longleftrightarrow> (case conn_cred c of None \<Rightarrow> False | Some cred \<Rightarrow> cred_uid cred = u)"

text \<open>The answers the connections of a user get\<close>

definition answers_to :: "32 word \<Rightarrow> conn list \<Rightarrow> response list \<Rightarrow> response list" where
  "answers_to u cs rs = map snd (filter (\<lambda>(c, r). of_user u c) (zip cs rs))"

lemma answers_to_simps [simp]:
  "answers_to u [] rs = []"
  "answers_to u (c # cs) (r # rs) = (if of_user u c then r # answers_to u cs rs else answers_to u cs rs)"
  by (simp_all add: answers_to_def)

text \<open>A connection of another normal user changes nothing of what the user can see.\<close>

lemma hidden_step:
  assumes "same_view u s t" "of_others u c" "temp_digits (call_io (conn_call c))"
    and "serve handler_table sv c s = (s', r)"
  shows "same_view u s' t"
proof -
  obtain cred where cred: "conn_cred c = Some cred" "cred_uid cred \<noteq> 0" "cred_uid cred \<noteq> u"
    using assms(2) by (auto simp: of_others_def split: option.splits)
  have "stranger GlobalScope c" "stranger (UserScope (uint u)) c"
    using cred by (simp_all add: stranger_def IsRoot_def uid_int_def word_uint_eq_iff)
  then have lists: "content (disk_of (srv_engine s')) v = content (disk_of (srv_engine s)) v"
    if "v = GlobalScope \<or> v = UserScope (uint u)" for v
    using serve_stranger [OF assms(4)] that by blast
  have "wf_disk (disk_of (srv_engine s'))"
    using assms(4)
  proof (cases rule: serve_cases)
    case (dispatched cr req l)
    have "same_lists u (srv_engine s) (srv_engine s)" using assms(1) by (simp add: same_view_def same_lists_def)
    from dispatch_step [OF this assms(3) dispatched(4) dispatched(4)] show ?thesis by (simp add: same_lists_def)
  qed (use assms(1) in \<open>simp add: same_view_def same_lists_def\<close>)
  moreover obtain l b where "allow (cred_uid cred) (conn_time c) (srv_limiter s) = (l, b)"
    by (cases "allow (cred_uid cred) (conn_time c) (srv_limiter s)")
  then have "limit (srv_limiter s') = limit (srv_limiter s)" "window (srv_limiter s') = window (srv_limiter s)"
    "\<forall>v \<in> {0, u}. map_of (counts (srv_limiter s')) v = map_of (counts (srv_limiter s)) v"
    using assms(4) cred allow_config allow_other [of _ _ _ l b]
    by (auto simp: serve_def split: option.splits prod.splits bool.splits)
  ultimately show ?thesis using assms(1) lists by (simp add: same_view_def same_lists_def)
qed

text \<open>A connection of the user or of root does the same on both servers.\<close>

lemma visible_step:
  assumes "same_view u s t" "\<not> of_others u c" "temp_digits (call_io (conn_call c))" "u \<noteq> 0"
    and "serve handler_table sv c s = (s', r)" "serve handler_table sv c t = (t', r')"
  shows "same_view u s' t' \<and> (of_user u c \<longrightarrow> agree r r')"
proof (cases "conn_cred c")
  case None
  then show ?thesis using assms by (simp add: serve_def)
next
  case cred: (Some cred)
  show ?thesis
  proof (cases "conn_request c")
    case None
    then show ?thesis using assms cred by (simp add: serve_def)
  next
    case req: (Some req)
    let ?v = "cred_uid cred" and ?now = "conn_time c"
    have v: "?v \<in> {0, u}" using assms(2) cred by (auto simp: of_others_def)
    obtain l b where l: "allow ?v ?now (srv_limiter s) = (l, b)" by (cases "allow ?v ?now (srv_limiter s)")
    obtain k b' where k: "allow ?v ?now (srv_limiter t) = (k, b')" by (cases "allow ?v ?now (srv_limiter t)")
    have same: "map_of (counts (srv_limiter s)) w = map_of (counts (srv_limiter t)) w" if "w \<in> {0, u}" for w
      using assms(1) that unfolding same_view_def by blast
    have cfg: "limit (srv_limiter s) = limit (srv_limiter t)" "window (srv_limiter s) = window (srv_limiter t)"
      using assms(1) by (simp_all add: same_view_def)
    have bb: "b = b'" and mv: "map_of (counts l) ?v = map_of (counts k) ?v"
      using allow_cong [OF same [OF v] cfg, of ?now] l k by simp_all
    have "map_of (counts l) w = map_of (counts k) w" if "w \<in> {0, u}" for w
      using mv same [OF that] allow_other [OF l] allow_other [OF k] by (cases "w = ?v") simp_all
    moreover have "limit l = limit k" "window l = window k"
      using cfg allow_config [OF l] allow_config [OF k] by simp_all
    ultimately have lim: "same_view u (s\<lparr>srv_limiter := l, srv_engine := x\<rparr>) (t\<lparr>srv_limiter := k, srv_engine := y\<rparr>)"
      if "same_lists u x y" for x y using that by (simp add: same_view_def)
    have lists: "same_lists u (srv_engine s) (srv_engine t)" using assms(1) by (simp add: same_view_def)
    show ?thesis
    proof (cases b)
      case False
      then show ?thesis using assms(5,6) cred req l k bb lim [OF lists] by (auto simp: serve_def)
    next
      case True
      obtain x rx where x: "dispatch handler_table sv (conn_call c) cred req (srv_engine s) = (x, rx)"
        by (cases "dispatch handler_table sv (conn_call c) cred req (srv_engine s)")
      obtain y ry where y: "dispatch handler_table sv (conn_call c) cred req (srv_engine t) = (y, ry)"
        by (cases "dispatch handler_table sv (conn_call c) cred req (srv_engine t)")
      show ?thesis
        using dispatch_step [OF lists assms(3) x y] lim assms(4-6) cred req l k x y True bb
        by (auto simp: serve_def of_user_def IsRoot_def)
    qed
  qed
qed

theorem purge_others:
  assumes "same_view u s t" "\<forall>c \<in> set cs. temp_digits (call_io (conn_call c))" "u \<noteq> 0"
    and "serve_all handler_table sv cs s = (s', rs)"
    and "serve_all handler_table sv (filter (\<lambda>c. \<not> of_others u c) cs) t = (t', qs)"
  shows "same_view u s' t' \<and> list_all2 agree (answers_to u cs rs) (answers_to u (filter (\<lambda>c. \<not> of_others u c) cs) qs)"
  using assms
proof (induction cs arbitrary: s t rs qs)
  case (Cons c cs)
  obtain s1 r1 where s1: "serve handler_table sv c s = (s1, r1)" by (cases "serve handler_table sv c s")
  obtain rs1 where s2: "serve_all handler_table sv cs s1 = (s', rs1)" and rs: "rs = r1 # rs1"
    using Cons.prems(4) s1 by (auto split: prod.splits)
  show ?case
  proof (cases "of_others u c")
    case True
    then have "\<not> of_user u c" by (auto simp: of_others_def of_user_def split: option.splits)
    then show ?thesis
      using Cons.IH [OF hidden_step [OF Cons.prems(1) True _ s1] _ Cons.prems(3) s2] Cons.prems(2,5) True rs by simp
  next
    case False
    obtain t1 q1 where t1: "serve handler_table sv c t = (t1, q1)" by (cases "serve handler_table sv c t")
    obtain qs1 where t2: "serve_all handler_table sv (filter (\<lambda>c. \<not> of_others u c) cs) t1 = (t', qs1)"
      and qs: "qs = q1 # qs1"
      using Cons.prems(5) False t1 by (auto split: prod.splits)
    have step: "same_view u s1 t1" "of_user u c \<Longrightarrow> agree r1 q1"
      using visible_step [OF Cons.prems(1) False _ Cons.prems(3) s1 t1] Cons.prems(2) by simp_all
    show ?thesis using Cons.IH [OF step(1) _ Cons.prems(3) s2 t2] Cons.prems(2) False step(2) rs qs by simp
  qed
qed simp

end
