(* ===== verification/Session.thy ===== *)
theory Session
  imports Client Noninterference
begin

text \<open>
  One run of the client against the daemon: the bytes of the request go through the daemon's
  \<open>serve\<close>, the bytes of its answer through the client's decoder. The bytes make no difference
  (\<open>ask_daemon\<close>), and a client that ends with exit code 0 after \<open>--add\<close> or
  \<open>--remove\<close> leaves a daemon that has done what it was asked for (\<open>session_done\<close>).
\<close>

section \<open>The daemon in bytes\<close>

text \<open>\<open>serve\<close> with its \<open>Decode\<close> and its \<open>writeResponse\<close>\<close>

definition serve_bytes ::
    "(string \<times> 'b handler) list \<Rightarrow> 'b service \<Rightarrow> (string \<Rightarrow> bool) \<Rightarrow> conn \<Rightarrow> string \<Rightarrow> 'b server \<Rightarrow> 'b server \<times> string" where
  "serve_bytes table sv printable c bytes s =
     (case serve table sv (c\<lparr>conn_request := decode_request bytes\<rparr>) s of
        (s', resp) \<Rightarrow> (s', encode_reply (reply_of printable resp)))"

text \<open>A socket with the daemon behind it\<close>

definition daemon_socket ::
    "'b service \<Rightarrow> (string \<Rightarrow> bool) \<Rightarrow> conn \<Rightarrow> 'b server \<Rightarrow> string \<Rightarrow> string \<Rightarrow> string option" where
  "daemon_socket sv printable c s socket bytes = Some (snd (serve_bytes handler_table sv printable c bytes s))"

section \<open>Both ends\<close>

lemma show_status: "resp_status (show_as_root db io d) = None" "resp_status (show_as_user io d u) = None"
  by (simp_all add: show_as_root_def show_as_user_def error_response_def ok_response_def split: sum.split)

lemma serve_status:
  assumes "serve handler_table sv c s = (s', resp)" "resp_status resp = Some st"
  shows "protocol_version st = proto_version"
  using assms(1)
proof (cases rule: serve_cases)
  case (turned_away e)
  then show ?thesis using assms(2) by (simp add: error_response_def)
next
  case (dispatched cred req l)
  from dispatched(4) show ?thesis
  proof (cases rule: daemon.dispatch_cases)
    case (refused e)
    then show ?thesis using assms(2) by (simp add: error_response_def)
  next
    case (handled h)
    then consider add where "h = mutate_handle add" | "h = show_handle" | "h = status_handle"
      by (auto simp: handler_table_def)
    then show ?thesis
    proof cases
      case (1 add)
      from handled(4) [unfolded 1] show ?thesis using assms(2)
        by (cases rule: mutate_handle_cases) (auto simp: error_response_def ok_response_def split: option.splits)
    next
      case 2
      then show ?thesis using handled(4) assms(2) by (auto simp: show_handle_def show_status split: if_splits)
    next
      case 3
      then show ?thesis using handled(4) assms(2) by (auto simp: status_handle_def)
    qed
  qed
qed

theorem ask_daemon:
  assumes "go_int (req_version req)"
    and "serve handler_table sv (c\<lparr>conn_request := Some (fix_request req)\<rparr>) s = (s', resp)"
  shows "send (daemon_socket sv printable c s) socket req = Some (fix_reply (reply_of printable resp))"
    and "fst (serve_bytes handler_table sv printable c (encode_request req) s) = s'"
proof -
  have d: "decode_request (encode_request req) = Some (fix_request req)"
    using request_roundtrip [OF assms(1), of "[]"] by simp
  have "reply_in_range (reply_of printable resp)"
    using serve_status [OF assms(2)]
    by (auto simp: reply_in_range_def reply_of_def proto_version_def go_int_def split: option.split)
  then show "send (daemon_socket sv printable c s) socket req = Some (fix_reply (reply_of printable resp))"
    using reply_roundtrip [of _ "[]"] d assms(2) by (simp add: send_def daemon_socket_def serve_bytes_def)
  show "fst (serve_bytes handler_table sv printable c (encode_request req) s) = s'"
    using d assms(2) by (simp add: serve_bytes_def)
qed

lemma fixed_reply_ok: "rep_ok (fix_reply (reply_of printable resp)) = resp_ok resp"
  by (simp add: fix_reply_def reply_of_def)

section \<open>What exit code 0 means\<close>

lemma exit_zero:
  assumes "exit_code (client_main u ask args) = 0" "parse_args args = Parsed opts"
  obtains req resp where "build_request u opts = Inr req" "ask (opt_socket opts) req = Some resp" "rep_ok resp"
  using assms by (auto simp: client_main_def exit_code_def split: sum.splits option.splits if_splits)

lemma addr_text_ascii: "addr_text v a \<Longrightarrow> list_all is_ascii a"
  using addr_text_chars [of v a] by (auto simp: list_all_iff addr_char_def is_digit_def is_ascii_def)

lemma build_request_version: "build_request u opts = Inr req \<Longrightarrow> req_version req = proto_version \<and> target_user req = opt_user opts"
  by (auto simp: build_request_def Let_def split: sum.splits if_splits)

lemma build_request_mutating:
  assumes "build_request u opts = Inr req" "\<not> opt_show opts" "\<not> opt_status opts" "opt_add opts \<or> opt_remove opts"
  shows "req_action req = (if opt_add opts then action_add else action_remove)"
    and "map canon_ip (split_list (opt_ip opts)) = map Inr (req_ips req)"
    and "try_map (valid_domain u) (split_list (opt_name opts)) = Inr (req_domains req)"
  using assms
  by (auto simp: build_request_def clean_ips_def clean_domains_def Let_def try_map_Inr_iff split: sum.splits if_splits)

text \<open>The entries of a request that the client built are ASCII, so they arrive as they are.\<close>

lemma entries_arrive:
  assumes "build_request u opts = Inr req" "\<not> opt_show opts" "\<not> opt_status opts" "opt_add opts \<or> opt_remove opts"
  shows "req_domains (fix_request req) = req_domains req" "req_ips (fix_request req) = req_ips req"
proof -
  note b = build_request_mutating [OF assms]
  have "utf8_fix d = d" if "d \<in> set (req_domains req)" for d
    using b(3) that accepted_domain_text by (simp add: try_map_valid_domain)
  then show "req_domains (fix_request req) = req_domains req" by (simp add: fix_request_def map_idI)
  have "try_map canon_ip (split_list (opt_ip opts)) = Inr (req_ips req)" using b(2) by (simp add: try_map_Inr_iff)
  then have "canonical_ip a" if "a \<in> set (req_ips req)" for a
    using try_map_set [OF _ that] canon_ip_canonical by blast
  then have "utf8_fix a = a" if "a \<in> set (req_ips req)" for a
    using that addr_text_ascii utf8_fix_ascii unfolding canonical_ip_def by blast
  then show "req_ips (fix_request req) = req_ips req" by (simp add: fix_request_def map_idI)
qed

text \<open>
  What lies behind exit code 0 of a mutating run: the daemon's handler ran on the client's
  entries and answered OK.
\<close>

lemma exit_zero_handled:
  assumes "parse_args args = Parsed opts" "opt_add opts \<or> opt_remove opts" "conn_cred c = Some cred"
    and "exit_code (client_main u (send (daemon_socket sv printable c s)) args) = 0"
  obtains req q s' resp where "build_request u opts = Inr req"
    "fst (serve_bytes handler_table sv printable c (encode_request req) s) = s'"
    "mutate_handle (opt_add opts) sv (conn_call c) cred q (srv_engine s) = (srv_engine s', resp)" "resp_ok resp"
    "target_user q = utf8_fix (opt_user opts)" "req_domains q = req_domains req" "req_ips q = req_ips req"
    "map canon_ip (split_list (opt_ip opts)) = map Inr (req_ips req)"
    "normalize_and_validate (unicode_lower sv) (req_domains q) (req_ips q) = Inr (req_domains req, req_ips req)"
proof -
  obtain req reply where req: "build_request u opts = Inr req"
    and reply: "send (daemon_socket sv printable c s) (opt_socket opts) req = Some reply" "rep_ok reply"
    by (rule exit_zero [OF assms(4,1)])
  have "length (filter id [opt_add opts, opt_remove opts, opt_show opts, opt_status opts]) = 1"
    by (rule parsed_options(1) [OF assms(1)])
  then have only: "\<not> opt_show opts" "\<not> opt_status opts" using assms(2) by (auto split: if_splits)
  note b = build_request_mutating [OF req only assms(2)]
  note arrive = entries_arrive [OF req only assms(2)]
  have version: "req_version req = proto_version" "target_user req = opt_user opts"
    using build_request_version [OF req] by simp_all
  obtain s' resp where serve: "serve handler_table sv (c\<lparr>conn_request := Some (fix_request req)\<rparr>) s = (s', resp)"
    by (cases "serve handler_table sv (c\<lparr>conn_request := Some (fix_request req)\<rparr>) s")
  have "go_int (req_version req)" by (simp add: version proto_version_def go_int_def)
  note wire = ask_daemon [OF this serve]
  have ok: "resp_ok resp" using reply wire(1) fixed_reply_ok by (metis option.inject)
  let ?q = "fix_request req"
  have head: "req_version ?q \<le> proto_version" "target_user ?q = utf8_fix (opt_user opts)"
    "req_action ?q = (if opt_add opts then action_add else action_remove)"
    using version b(1) by (simp_all add: fix_request_def action_add_def action_remove_def utf8_fix_ascii is_ascii_def)
  have handled: "mutate_handle (opt_add opts) sv (conn_call c) cred ?q (srv_engine s) = (srv_engine s', resp)"
    using serve
  proof (cases rule: serve_cases)
    case (turned_away e)
    then show ?thesis using ok by simp
  next
    case (dispatched cr q l)
    then have "dispatch handler_table sv (conn_call c) cred ?q (srv_engine s) = (srv_engine s', resp)"
      using assms(3) by simp
    then show ?thesis
      using head(3) dispatch_known(1,2) [OF head(1), of sv "conn_call c" cred "srv_engine s"] by (cases "opt_add opts") simp_all
  qed
  have "length (req_domains req) + length (req_ips req) \<le> max_items_per_request"
    using handled
  proof (cases rule: mutate_handle_cases)
    case (refused e)
    then show ?thesis using ok by simp
  next
    case (changed sc ds as n m r)
    then show ?thesis using arrive by (simp add: normalize_and_validate_def split: if_splits)
  qed
  from daemon_accepts [OF req only this]
  have "normalize_and_validate (unicode_lower sv) (req_domains ?q) (req_ips ?q) = Inr (req_domains req, req_ips req)"
    by (simp add: arrive)
  then show ?thesis using that [OF req wire(2) handled ok head(2) arrive b(2)] by blast
qed

theorem session_done:
  assumes "engine_parts cfg verdict be_inv" "eng_cfg sv = cfg" "engine_inv be_inv (srv_engine s)"
    and "call_ok (conn_call c)" "conn_cred c = Some cred"
    and "parse_args args = Parsed opts" "opt_add opts \<or> opt_remove opts"
    and "exit_code (client_main u (send (daemon_socket sv printable c s)) args) = 0"
    and "ResolveScope (user_names sv) (utf8_fix (opt_user opts)) cred = Inr scope" "scope_ok scope"
  shows "\<exists>req s' bl. build_request u opts = Inr req \<and>
    s' = fst (serve_bytes handler_table sv printable c (encode_request req) s) \<and>
    content (disk_of (srv_engine s')) scope = Some bl \<and>
    (if opt_add opts then set (req_domains req) \<subseteq> set (Domains bl) \<and> set (req_ips req) \<subseteq> set (IPs bl)
     else set (req_domains req) \<inter> set (Domains bl) = {} \<and> set (req_ips req) \<inter> set (IPs bl) = {}) \<and>
    (\<forall>p. verdict (be_state (srv_engine s')) p \<longleftrightarrow> desired (disk_of (srv_engine s')) (cache (srv_engine s')) p) \<and>
    (\<forall>p t. opt_add opts \<and> (Global scope \<or> skuid p = UID scope) \<and> t \<in> set (split_list (opt_ip opts)) \<and>
       canon_ip t = Inr (daddr p) \<and> addr_text (is_v6 p) (daddr p) \<longrightarrow> verdict (be_state (srv_engine s')) p)"
proof -
  obtain req q s' resp where req: "build_request u opts = Inr req"
    and s': "fst (serve_bytes handler_table sv printable c (encode_request req) s) = s'"
    and handled: "mutate_handle (opt_add opts) sv (conn_call c) cred q (srv_engine s) = (srv_engine s', resp)" "resp_ok resp"
    and q: "target_user q = utf8_fix (opt_user opts)" "req_domains q = req_domains req" "req_ips q = req_ips req"
    and ips: "map canon_ip (split_list (opt_ip opts)) = map Inr (req_ips req)"
    and valid: "normalize_and_validate (unicode_lower sv) (req_domains q) (req_ips q) = Inr (req_domains req, req_ips req)"
    by (rule exit_zero_handled [OF assms(6,7,5,8)])
  have scope: "ResolveScope (user_names sv) (target_user q) cred = Inr scope" using assms(9) q(1) by simp
  have range: "request_in_range sv cred q" using scope assms(10) by (simp add: request_in_range_def)
  have "wf_disk (disk_of (srv_engine s))" using assms(3) by (simp add: engine_inv_def)
  then obtain bl where bl: "content (disk_of (srv_engine s')) scope = Some bl"
    "if opt_add opts then set (req_domains req) \<subseteq> set (Domains bl) \<and> set (req_ips req) \<subseteq> set (IPs bl)
     else set (req_domains req) \<inter> set (Domains bl) = {} \<and> set (req_ips req) \<inter> set (IPs bl) = {}"
    using mutate_handle_lists [OF handled _ scope valid] by blast
  have enforced: "\<forall>p. verdict (be_state (srv_engine s')) p \<longleftrightarrow> desired (disk_of (srv_engine s')) (cache (srv_engine s')) p"
    using engine_parts.mutate_handle_inv(2) [OF assms(1) handled(1) assms(2-4) range handled(2)] by blast
  have "verdict (be_state (srv_engine s')) p"
    if p: "opt_add opts" "Global scope \<or> skuid p = UID scope" "t \<in> set (split_list (opt_ip opts))"
      "canon_ip t = Inr (daddr p)" "addr_text (is_v6 p) (daddr p)" for p t
  proof -
    have "canon_ip t \<in> set (map canon_ip (split_list (opt_ip opts)))" using p(3) by simp
    then have "Inr (daddr p) \<in> set (map Inr (req_ips req) :: (validate_error + string) list)" by (simp only: ips p(4))
    then have listed: "daddr p \<in> set (req_ips q)" by (auto simp: q(3))
    have "canonical_ip (daddr p)" using p(5) by (cases "is_v6 p") (auto simp: canonical_ip_def)
    then have canon: "canon_ip (daddr p) = Inr (daddr p)" by (rule canonical_fixed)
    show ?thesis
      using engine_parts.add_blocks [OF assms(1) _ handled(2) assms(2-4) range scope p(2) listed canon p(5)] handled(1) p(1)
      by simp
  qed
  then show ?thesis using req s' bl enforced by (intro exI [of _ req] exI [of _ s'] exI [of _ bl]) blast
qed

end
