(* ===== verification/Daemon.thy ===== *)
theory Daemon
  imports Session
begin

text \<open>
  The life of the daemon: \<open>Server.Run\<close> with its accept loop, the ticks of the refresh loop
  between the connections, the end of the process by shutdown or crash, and the next start. The
  main result is \<open>crash_and_restart\<close>: whenever the process dies, also in the middle of a save,
  a daemon that serves afterwards blocks exactly what the lists on disk ask for, and of these at
  most the one that was being saved has changed, to its new contents.
\<close>

section \<open>Running\<close>

text \<open>
  What happens to a running daemon, one event after the other. Connections run in goroutines of
  their own and share engine and limiter under mutexes; \<open>Concurrent\<close> has their interleavings.
\<close>

datatype event =
    Connection conn
  | RefreshTick world
  | AcceptError
  | Cancelled

datatype run_result =
    RemoveFailed
  | ListenFailed
  | ChmodFailed
  | AcceptFailed
  | ShutDown

text \<open>The system calls before the accept loop; an absent socket file is no failure to remove it\<close>

record listen_io =
  remove_fails :: bool
  listen_fails :: bool
  chmod_fails :: bool

definition refresh_tick :: "'b service \<Rightarrow> world \<Rightarrow> 'b server \<Rightarrow> 'b server" where
  "refresh_tick sv w s = s\<lparr>srv_engine := fst (rebuild (eng_cfg sv) w ResolveExpired (srv_engine s))\<rparr>"

text \<open>The loop; \<open>None\<close> as the result means that the daemon is still running.\<close>

fun run_events ::
    "(string \<times> 'b handler) list \<Rightarrow> 'b service \<Rightarrow> event list \<Rightarrow> 'b server \<Rightarrow> 'b server \<times> response list \<times> run_result option" where
  "run_events table sv [] s = (s, [], None)"
| "run_events table sv (Connection c # es) s =
     (case serve table sv c s of
        (s1, resp) \<Rightarrow> case run_events table sv es s1 of (s2, rs, stop) \<Rightarrow> (s2, resp # rs, stop))"
| "run_events table sv (RefreshTick w # es) s = run_events table sv es (refresh_tick sv w s)"
| "run_events table sv (AcceptError # es) s = (s, [], Some AcceptFailed)"
| "run_events table sv (Cancelled # es) s = (s, [], Some ShutDown)"

definition run_server ::
    "(string \<times> 'b handler) list \<Rightarrow> 'b service \<Rightarrow> listen_io \<Rightarrow> event list \<Rightarrow> 'b server \<Rightarrow>
     'b server \<times> response list \<times> run_result option" where
  "run_server table sv io es s =
     (if remove_fails io then (s, [], Some RemoveFailed)
      else if listen_fails io then (s, [], Some ListenFailed)
      else if chmod_fails io then (s, [], Some ChmodFailed)
      else run_events table sv es s)"

section \<open>The invariant over a life\<close>

fun event_ok :: "'b service \<Rightarrow> event \<Rightarrow> bool" where
  "event_ok sv (Connection c) = conn_ok sv c"
| "event_ok sv (RefreshTick w) = world_ok w"
| "event_ok sv e = True"

context engine_parts
begin

lemma run_events_inv:
  assumes "run_events handler_table sv es s = (s', rs, stop)" "eng_cfg sv = cfg" "engine_inv inv (srv_engine s)"
    and "\<forall>e \<in> set es. event_ok sv e"
  shows "engine_inv inv (srv_engine s')"
  using assms
proof (induction es arbitrary: s rs)
  case (Cons e es)
  have rest: "\<forall>e \<in> set es. event_ok sv e" using Cons.prems(4) by simp
  show ?case
  proof (cases e)
    case (Connection c)
    obtain s1 r1 where 1: "serve handler_table sv c s = (s1, r1)" by (cases "serve handler_table sv c s")
    obtain rs1 where 2: "run_events handler_table sv es s1 = (s', rs1, stop)"
      using Cons.prems(1) 1 Connection by (auto split: prod.splits)
    have "engine_inv inv (srv_engine s1)"
      using serve_inv [OF 1 Cons.prems(2,3)] Cons.prems(4) Connection by simp
    then show ?thesis using Cons.IH [OF 2 Cons.prems(2)] rest by simp
  next
    case (RefreshTick w)
    obtain x r where x: "rebuild cfg w ResolveExpired (srv_engine s) = (x, r)"
      by (cases "rebuild cfg w ResolveExpired (srv_engine s)")
    have "world_ok w" using Cons.prems(4) RefreshTick by simp
    then have "engine_inv inv (srv_engine (refresh_tick sv w s))"
      using rebuild_ok(1) [OF Cons.prems(3) _ x] x Cons.prems(2) by (simp add: refresh_tick_def)
    moreover have "run_events handler_table sv es (refresh_tick sv w s) = (s', rs, stop)"
      using Cons.prems(1) RefreshTick by simp
    ultimately show ?thesis using Cons.IH Cons.prems(2) rest by blast
  qed (use Cons.prems in auto)
qed simp

lemma run_server_inv:
  assumes "run_server handler_table sv io es s = (s', rs, stop)" "eng_cfg sv = cfg" "engine_inv inv (srv_engine s)"
    and "\<forall>e \<in> set es. event_ok sv e"
  shows "engine_inv inv (srv_engine s')"
  using assms run_events_inv [of sv es s s' rs stop] by (auto simp: run_server_def split: if_splits)

section \<open>Crash and restart\<close>

lemma crashed_disk_ok:
  assumes "save_locked io d s bl = (ds, r)" "x \<in> set (d # ds)" "wf_disk d" "disk_uids_ok d" "scope_ok s" "temp_digits io"
  shows "wf_disk x \<and> disk_uids_ok x"
proof
  show "wf_disk x"
    using save_keeps_wf [OF assms(1,3) scope_ok_go [OF assms(5)] _ assms(2)] assms(6) by (simp add: temp_digits_def)
  show "disk_uids_ok x" unfolding disk_uids_ok_def
  proof (intro allI impI, elim conjE)
    fix u assume u: "go_int u" "\<not> kernel_uid u"
    then have "\<not> same_scope s (UserScope u)" using assms(5) by (auto simp: scope_ok_def)
    then have "content x (UserScope u) = content d (UserScope u)" using save_atomic [OF assms(1,2)] by blast
    then show "user_list x u = empty_blocklist" using assms(4) u by (simp add: disk_uids_ok_def user_list_def)
  qed
qed

theorem crash_and_restart:
  assumes "engine_inv inv (srv_engine s)"
    and "save_locked io (disk_of (srv_engine s)) scope bl = (ds, r)" "scope_ok scope" "temp_digits io"
    and "x \<in> set (disk_of (srv_engine s) # ds)"
    and "start_daemon cfg c w x b = Some s2" "inv b" "world_ok w"
  shows "content (disk_of (srv_engine s2)) t = content (disk_of (srv_engine s)) t \<or>
      same_scope scope t \<and> content (disk_of (srv_engine s2)) t = Some (tidy bl)"
    and "verdict (be_state (srv_engine s2)) p \<longleftrightarrow> desired (disk_of (srv_engine s2)) (cache (srv_engine s2)) p"
proof -
  have ok: "wf_disk x" "disk_uids_ok x"
    using crashed_disk_ok [OF assms(2,5) _ _ assms(3,4)] assms(1) by (auto simp: engine_inv_def)
  then obtain es where "users x = Some es" by (auto simp: wf_disk_def)
  then have n: "new_store x = x" by (simp add: new_store_def)
  note start = start_ok [OF assms(6) _ _ assms(7,8), unfolded n, OF ok]
  show "content (disk_of (srv_engine s2)) t = content (disk_of (srv_engine s)) t \<or>
      same_scope scope t \<and> content (disk_of (srv_engine s2)) t = Some (tidy bl)"
    using save_atomic [OF assms(2,5)] start(2) by auto
  show "verdict (be_state (srv_engine s2)) p \<longleftrightarrow> desired (disk_of (srv_engine s2)) (cache (srv_engine s2)) p"
    using start(2,3) by simp
qed

end

end
