(* ===== verification/Concurrent.thy ===== *)
theory Concurrent
  imports Engine_Contract
begin

text \<open>
  The engine under concurrent use. \<open>server.go\<close> serves every connection on a goroutine of its
  own and \<open>RefreshLoop\<close> runs on another; they share the store, whose operations are atomic
  under the store's mutex, and the cache and the backend, which are guarded by \<open>e.mu\<close>. A
  process is one call of \<open>AddEntries\<close>, \<open>RemoveEntries\<close> or \<open>Rebuild\<close>; one step of it is one
  operation of the store, one acquisition of \<open>e.mu\<close>, one round of lookups, or the work between
  the last load and the release of \<open>e.mu\<close>. A schedule is a list of process numbers, so every
  interleaving is a schedule. In particular a mutation can fall between the loads of another
  process. The main results: at most one process is in a critical section, no schedule
  deadlocks or runs forever, and a call that is not interrupted does what the
  sequential functions of the engine do.
\<close>

section \<open>Processes\<close>

type_synonym job = "store_io \<times> world \<times> operation"

text \<open>The critical section a process is in; the second one knows the failed lookups.\<close>

datatype pass = First | Second "(string \<times> string) list"

text \<open>
  Where a process is: before its mutation, waiting for \<open>e.mu\<close>, loading with \<open>e.mu\<close> held, looking
  up names without it, waiting for it again, and done: refused by the store, or with the
  result of the rebuild.
\<close>

datatype phase =
    Ready
  | WantFirst
  | ReadGlobal pass
  | ReadUids pass blocklist
  | ReadUsers pass blocklist "int list" "(int \<times> blocklist) list"
  | LookUp "string list"
  | WantSecond "(string \<times> resolved) list" "(string \<times> string) list"
  | Refused store_error
  | Finished "engine_error option"

record process =
  job_of :: job
  phase :: phase

record 'b sys =
  eng_of :: "'b engine"
  mu :: "nat option"
  procs :: "process list"

fun mode_of :: "operation \<Rightarrow> resolve_mode" where
  "mode_of (RefreshReq mode) = mode"
| "mode_of q = ResolveMissing"

fun pass_io :: "world \<Rightarrow> pass \<Rightarrow> store_io" where
  "pass_io w First = io_first w"
| "pass_io w (Second fs) = io_second w"

text \<open>The mutation, when there is one\<close>

definition submit_change ::
    "store_io \<Rightarrow> scope \<Rightarrow> (blocklist \<Rightarrow> store_error + blocklist \<times> nat \<times> nat) \<Rightarrow> 'b engine \<Rightarrow> phase \<times> 'b engine" where
  "submit_change io s fn eng =
     (case mutate io (disk_of eng) s fn of
        (d, Inl e) \<Rightarrow> (Refused e, eng\<lparr>disk_of := d\<rparr>)
      | (d, Inr nm) \<Rightarrow> (WantFirst, eng\<lparr>disk_of := d\<rparr>))"

fun submit :: "job \<Rightarrow> 'b engine \<Rightarrow> phase \<times> 'b engine" where
  "submit (io, w, AddReq s ds is) eng = submit_change io s (add_fn ds is) eng"
| "submit (io, w, RemoveReq s ds is) eng = submit_change io s (remove_fn ds is) eng"
| "submit (io, w, RefreshReq mode) eng = (WantFirst, eng)"

text \<open>What follows the last load: apply, or go and look up what is missing\<close>

fun conclude ::
    "'b engine_cfg \<Rightarrow> job \<Rightarrow> pass \<Rightarrow> blocklist \<Rightarrow> (int \<times> blocklist) list \<Rightarrow> 'b engine \<Rightarrow> phase \<times> 'b engine" where
  "conclude cfg (io, w, q) First global ulists eng =
     (let todo = domains_to_resolve (map_order cfg) (now_first w) (mode_of q) (cache eng) (wanted_domains global ulists) in
      if length todo = 0 then (case build_and_apply cfg global ulists eng of (eng', r) \<Rightarrow> (Finished r, eng'))
      else (LookUp todo, eng))"
| "conclude cfg (io, w, q) (Second failed) global ulists eng =
     (let eng2 = eng\<lparr>log := log eng @ failure_log (wanted_domains global ulists) (cache eng) failed\<rparr> in
      case build_and_apply cfg global ulists eng2 of (eng', r) \<Rightarrow> (Finished r, eng'))"

text \<open>One step of process \<open>i\<close>: its new phase, the engine, and who holds \<open>e.mu\<close>; \<open>None\<close> if it cannot move\<close>

fun turn ::
    "'b engine_cfg \<Rightarrow> nat \<Rightarrow> job \<Rightarrow> phase \<Rightarrow> 'b engine \<Rightarrow> nat option \<Rightarrow> (phase \<times> 'b engine \<times> nat option) option" where
  "turn cfg i q Ready eng m = (case submit q eng of (ph, eng') \<Rightarrow> Some (ph, eng', m))"
| "turn cfg i q WantFirst eng m = (if m = None then Some (ReadGlobal First, eng, Some i) else None)"
| "turn cfg i (io, w, q) (ReadGlobal p) eng m =
     (case load_locked (pass_io w p) (disk_of eng) GlobalScope of
        Inl e \<Rightarrow> Some (Finished (Some (StoreFailed e)), eng, None)
      | Inr global \<Rightarrow> Some (ReadUids p global, eng, m))"
| "turn cfg i (io, w, q) (ReadUids p global) eng m =
     (case list_user_uids (pass_io w p) (disk_of eng) of
        Inl e \<Rightarrow> Some (Finished (Some (StoreFailed e)), eng, None)
      | Inr uids \<Rightarrow> Some (ReadUsers p global uids [], eng, m))"
| "turn cfg i (io, w, q) (ReadUsers p global (uid # uids) ulists) eng m =
     (case load_locked (pass_io w p) (disk_of eng) (UserScope uid) of
        Inl e \<Rightarrow> Some (Finished (Some (StoreFailed e)), eng, None)
      | Inr bl \<Rightarrow> Some (ReadUsers p global uids (AList.update uid bl ulists), eng, m))"
| "turn cfg i q (ReadUsers p global [] ulists) eng m =
     (case conclude cfg q p global ulists eng of (ph, eng') \<Rightarrow> Some (ph, eng', None))"
| "turn cfg i (io, w, q) (LookUp todo) eng m =
     (case resolve_many (answers w) todo of (found, failed) \<Rightarrow> Some (WantSecond found failed, eng, m))"
| "turn cfg i (io, w, q) (WantSecond found failed) eng m =
     (if m = None then
        Some (ReadGlobal (Second failed), eng\<lparr>cache := store_results (now_second w + ttl cfg) found (cache eng)\<rparr>, Some i)
      else None)"
| "turn cfg i q (Refused e) eng m = None"
| "turn cfg i q (Finished r) eng m = None"

definition move :: "'b engine_cfg \<Rightarrow> nat \<Rightarrow> 'b sys \<Rightarrow> 'b sys option" where
  "move cfg i s =
     (if i < length (procs s) then
        (case turn cfg i (job_of (procs s ! i)) (phase (procs s ! i)) (eng_of s) (mu s) of
           None \<Rightarrow> None
         | Some (ph, eng, m) \<Rightarrow>
             Some \<lparr>eng_of = eng, mu = m, procs = (procs s)[i := (procs s ! i)\<lparr>phase := ph\<rparr>]\<rparr>)
      else None)"

text \<open>A process that is scheduled and cannot move waits.\<close>

fun run_schedule :: "'b engine_cfg \<Rightarrow> nat list \<Rightarrow> 'b sys \<Rightarrow> 'b sys" where
  "run_schedule cfg [] s = s"
| "run_schedule cfg (i # is) s = run_schedule cfg is (case move cfg i s of None \<Rightarrow> s | Some s' \<Rightarrow> s')"

definition start_sys :: "job list \<Rightarrow> 'b engine \<Rightarrow> 'b sys" where
  "start_sys jobs eng = \<lparr>eng_of = eng, mu = None, procs = map (\<lambda>q. \<lparr>job_of = q, phase = Ready\<rparr>) jobs\<rparr>"

fun done_phase :: "phase \<Rightarrow> bool" where
  "done_phase (Refused e) = True"
| "done_phase (Finished r) = True"
| "done_phase ph = False"

fun failed_phase :: "phase \<Rightarrow> bool" where
  "failed_phase (Finished (Some e)) = True"
| "failed_phase ph = False"

fun in_section :: "phase \<Rightarrow> bool" where
  "in_section (ReadGlobal p) = True"
| "in_section (ReadUids p g) = True"
| "in_section (ReadUsers p g us acc) = True"
| "in_section ph = False"

text \<open>Waiting for \<open>e.mu\<close>, now or after looking up: the process will load everything again.\<close>

fun waiting :: "phase \<Rightarrow> bool" where
  "waiting WantFirst = True"
| "waiting (LookUp todo) = True"
| "waiting (WantSecond found failed) = True"
| "waiting ph = False"

text \<open>Some process is at a place of the given kind.\<close>

definition some_at :: "(phase \<Rightarrow> bool) \<Rightarrow> 'b sys \<Rightarrow> bool" where
  "some_at P s \<longleftrightarrow> list_ex (\<lambda>p. P (phase p)) (procs s)"

text \<open>Every process is through, and some rebuild ended with an error.\<close>

definition all_done :: "'b sys \<Rightarrow> bool" where
  "all_done s \<longleftrightarrow> \<not> some_at (\<lambda>ph. \<not> done_phase ph) s"

definition some_failed :: "'b sys \<Rightarrow> bool" where
  "some_failed s \<longleftrightarrow> some_at failed_phase s"

lemma some_at_nth: "some_at P s \<longleftrightarrow> (\<exists>j < length (procs s). P (phase (procs s ! j)))"
  by (simp add: some_at_def list_ex_length)

section \<open>Steps and schedules\<close>

lemma move_SomeE:
  assumes "move cfg i s = Some s'"
  obtains p ph eng m where "i < length (procs s)" "p = procs s ! i"
    "turn cfg i (job_of p) (phase p) (eng_of s) (mu s) = Some (ph, eng, m)"
    "s' = \<lparr>eng_of = eng, mu = m, procs = (procs s)[i := p\<lparr>phase := ph\<rparr>]\<rparr>"
  using assms by (auto simp: move_def split: if_splits option.splits)

lemma run_schedule_inv:
  assumes "\<And>s i s'. P s \<Longrightarrow> move cfg i s = Some s' \<Longrightarrow> P s'" "P s"
  shows "P (run_schedule cfg is s)"
  using assms(2) by (induction "is" arbitrary: s) (auto intro: assms(1) split: option.split)

lemma run_schedule_append: "run_schedule cfg (is @ js) s = run_schedule cfg js (run_schedule cfg is s)"
  by (induction cfg "is" s rule: run_schedule.induct) simp_all

text \<open>What a step does to the lock\<close>

lemma submit_change_cases:
  assumes "submit_change io s fn eng = (ph, eng')"
  obtains d r where "mutate io (disk_of eng) s fn = (d, Inr r)" "ph = WantFirst" "eng' = eng\<lparr>disk_of := d\<rparr>"
  | d e where "mutate io (disk_of eng) s fn = (d, Inl e)" "ph = Refused e" "eng' = eng\<lparr>disk_of := d\<rparr>"
  using assms by (auto simp: submit_change_def split: prod.splits sum.splits)

lemma submit_phase: "submit q eng = (ph, eng') \<Longrightarrow> \<not> in_section ph"
  by (cases "(q, eng)" rule: submit.cases) (auto elim: submit_change_cases)

lemma conclude_phase: "conclude cfg q p g us eng = (ph, eng') \<Longrightarrow> \<not> in_section ph"
  by (cases "(cfg, q, p, g, us, eng)" rule: conclude.cases) (auto simp: Let_def split: prod.splits if_splits)

lemma turn_lock:
  assumes "turn cfg i q ph eng m = Some (ph', eng', m')"
  shows "(if in_section ph then in_section ph' \<and> m' = m \<or> \<not> in_section ph' \<and> m' = None
     else in_section ph' \<and> m = None \<and> m' = Some i \<or> \<not> in_section ph' \<and> m' = m)"
  using assms
  by (cases "(cfg, i, q, ph, eng, m)" rule: turn.cases)
    (auto split: prod.splits sum.splits if_splits dest: submit_phase conclude_phase)

text \<open>Submitting changes the lists, and then the process loads again, or it changes nothing.\<close>

lemma submit_change_result:
  assumes "submit_change io s fn eng = (ph, eng')"
  shows "ph = WantFirst \<or> (\<exists>e. ph = Refused e) \<and> content (disk_of eng') = content (disk_of eng) \<and>
    cache eng' = cache eng \<and> be_state eng' = be_state eng"
  using assms by (rule submit_change_cases) (auto dest: fs_store.mutate_fail)

lemma submit_result:
  "submit q eng = (ph, eng') \<Longrightarrow>
   ph = WantFirst \<or> (\<exists>e. ph = Refused e) \<and> content (disk_of eng') = content (disk_of eng) \<and>
     cache eng' = cache eng \<and> be_state eng' = be_state eng"
  by (cases "(q, eng)" rule: submit.cases) (auto dest: submit_change_result)

text \<open>Nobody else touches the disk.\<close>

lemma applied_disk: "build_and_apply cfg g us eng = (eng', r) \<Longrightarrow> disk_of eng' = disk_of eng"
  using build_and_apply_disk [of cfg g us eng] by simp

lemma conclude_disk: "conclude cfg q p g us eng = (ph, eng') \<Longrightarrow> disk_of eng' = disk_of eng"
  by (cases "(cfg, q, p, g, us, eng)" rule: conclude.cases)
    (auto simp: Let_def split: prod.splits if_splits dest: applied_disk)

lemma turn_disk:
  assumes "turn cfg i q ph eng m = Some (ph', eng', m')" "ph \<noteq> Ready"
  shows "disk_of eng' = disk_of eng"
  using assms
  by (cases "(cfg, i, q, ph, eng, m)" rule: turn.cases)
    (auto split: prod.splits sum.splits if_splits dest: conclude_disk)

text \<open>Mutual exclusion: the process in a critical section is the one that holds \<open>e.mu\<close>.\<close>

definition exclusive :: "'b sys \<Rightarrow> bool" where
  "exclusive s \<longleftrightarrow> (\<forall>i. i < length (procs s) \<and> in_section (phase (procs s ! i)) \<longleftrightarrow> mu s = Some i)"

lemma move_exclusive:
  assumes "exclusive s" "move cfg i s = Some s'"
  shows "exclusive s'"
  using assms(2)
proof (cases rule: move_SomeE)
  case (1 p ph eng m)
  have ex: "j < length (procs s) \<and> in_section (phase (procs s ! j)) \<longleftrightarrow> mu s = Some j" for j
    using assms(1) by (simp add: exclusive_def)
  have "j < length (procs s') \<and> in_section (phase (procs s' ! j)) \<longleftrightarrow> mu s' = Some j" for j
    using turn_lock [OF 1(3)] ex [of i] ex [of j] 1(1,2)
    by (cases "j = i") (auto simp: 1(4) split: if_splits)
  then show ?thesis by (simp add: exclusive_def)
qed

lemma start_exclusive: "exclusive (start_sys jobs eng)"
  by (simp add: exclusive_def start_sys_def)

lemma schedule_exclusive: "exclusive s \<Longrightarrow> exclusive (run_schedule cfg is s)"
  using run_schedule_inv [where P = exclusive] move_exclusive by blast

section \<open>Progress\<close>

lemma turn_None:
  "turn cfg i q ph eng m = None \<longleftrightarrow> done_phase ph \<or> m \<noteq> None \<and> waiting ph \<and> (\<forall>todo. ph \<noteq> LookUp todo)"
  by (cases "(cfg, i, q, ph, eng, m)" rule: turn.cases) (auto split: prod.split sum.split)

text \<open>As long as a process is not through, some process can move: there is no deadlock.\<close>

theorem no_deadlock:
  assumes "exclusive s" "\<not> all_done s"
  shows "\<exists>i s'. move cfg i s = Some s'"
proof -
  have moves: "\<exists>s'. move cfg i s = Some s'"
    if "i < length (procs s)" "turn cfg i (job_of (procs s ! i)) (phase (procs s ! i)) (eng_of s) (mu s) \<noteq> None" for i
    using that by (auto simp: move_def)
  show ?thesis
  proof (cases "mu s")
    case None
    obtain i where i: "i < length (procs s)" "\<not> done_phase (phase (procs s ! i))"
      using assms(2) by (auto simp: all_done_def some_at_nth)
    show ?thesis using moves [OF i(1)] i(2) None by (auto simp: turn_None)
  next
    case (Some k)
    then have k: "k < length (procs s)" "in_section (phase (procs s ! k))"
      using assms(1) by (auto simp: exclusive_def)
    then have "\<not> done_phase (phase (procs s ! k))" "\<not> waiting (phase (procs s ! k))"
      by (cases "phase (procs s ! k)"; simp)+
    then show ?thesis using moves [OF k(1)] by (auto simp: turn_None)
  qed
qed

text \<open>How far a process still has to go\<close>

fun rank :: "phase \<Rightarrow> nat" where
  "rank Ready = 10"
| "rank WantFirst = 9"
| "rank (ReadGlobal First) = 8"
| "rank (ReadUids First g) = 7"
| "rank (ReadUsers First g us acc) = 6"
| "rank (LookUp todo) = 5"
| "rank (WantSecond found failed) = 4"
| "rank (ReadGlobal (Second failed)) = 3"
| "rank (ReadUids (Second failed) g) = 2"
| "rank (ReadUsers (Second failed) g us acc) = 1"
| "rank (Refused e) = 0"
| "rank (Finished r) = 0"

fun unread :: "phase \<Rightarrow> nat" where
  "unread (ReadUsers p g us acc) = length us"
| "unread ph = 0"

definition closer :: "(phase \<times> phase) set" where
  "closer = measures [rank, unread]"

lemma submit_rank: "submit q eng = (ph, eng') \<Longrightarrow> rank ph < 10"
  using submit_result by fastforce

lemma conclude_rank: "conclude cfg q p g us eng = (ph, eng') \<Longrightarrow> rank ph < rank (ReadUsers p g [] us)"
  by (cases "(cfg, q, p, g, us, eng)" rule: conclude.cases) (auto simp: Let_def split: prod.splits if_splits)

lemma turn_closer:
  assumes "turn cfg i q ph eng m = Some (ph', eng', m')"
  shows "(ph', ph) \<in> closer"
  unfolding closer_def using assms
  by (cases "(cfg, i, q, ph, eng, m)" rule: turn.cases; (cases "case ph of ReadGlobal p \<Rightarrow> p | ReadUids p g \<Rightarrow> p | ReadUsers p g us acc \<Rightarrow> p | _ \<Rightarrow> First")?)
    (auto split: prod.splits sum.splits if_splits dest: submit_rank conclude_rank)

text \<open>No schedule makes progress forever, so every fair schedule ends with all processes through.\<close>

theorem schedules_end: "wfp (\<lambda>s' s. \<exists>i. move cfg i s = Some s')"
proof -
  let ?phases = "\<lambda>s. map phase (procs s)"
  have "wf (listrel1 closer)" by (simp add: wf_listrel1_iff closer_def)
  then have w: "wf (inv_image (listrel1 closer) ?phases)" by (rule wf_inv_image)
  have "(s', s) \<in> inv_image (listrel1 closer) ?phases" if "move cfg i s = Some s'" for s s' i
    using that
  proof (cases rule: move_SomeE)
    case (1 p ph eng m)
    have "?phases s' = (?phases s)[i := ph]" by (simp add: 1(4) map_update)
    then show ?thesis using listrel1_update [of ph "?phases s" i closer] turn_closer [OF 1(3)] 1(1,2) by simp
  qed
  then show ?thesis unfolding wfp_def by (intro wf_subset [OF w]) blast
qed

section \<open>Which lists change\<close>

fun is_about :: "job \<Rightarrow> scope \<Rightarrow> bool" where
  "is_about (io, w, AddReq s ds is) t \<longleftrightarrow> same_scope s t"
| "is_about (io, w, RemoveReq s ds is) t \<longleftrightarrow> same_scope s t"
| "is_about (io, w, RefreshReq mode) t \<longleftrightarrow> False"

lemma submit_frame:
  assumes "submit q eng = (ph, eng')" "\<not> is_about q t"
  shows "content (disk_of eng') t = content (disk_of eng) t"
  using assms
  by (cases "(q, eng)" rule: submit.cases) (auto elim!: submit_change_cases dest: fs_store.mutate_frame)

text \<open>However requests interleave, a list that none of them is about stays as it is.\<close>

theorem schedule_frame:
  assumes "\<forall>p \<in> set (procs s). \<not> is_about (job_of p) t"
  shows "content (disk_of (eng_of (run_schedule cfg is s))) t = content (disk_of (eng_of s)) t"
proof -
  let ?P = "\<lambda>x. (\<forall>p \<in> set (procs x). \<not> is_about (job_of p) t) \<and>
    content (disk_of (eng_of x)) t = content (disk_of (eng_of s)) t"
  have "?P s'" if "?P x" "move cfg i x = Some s'" for x i s'
    using that(2)
  proof (cases rule: move_SomeE)
    case (1 p ph eng m)
    have no: "\<not> is_about (job_of p) t" using that(1) 1(1,2) by simp
    have "content (disk_of eng) t = content (disk_of (eng_of x)) t"
    proof (cases "phase p = Ready")
      case True
      then show ?thesis using submit_frame [OF _ no] 1(3) by (auto split: prod.splits)
    next
      case False
      then show ?thesis using turn_disk [OF 1(3)] by simp
    qed
    then show ?thesis using that(1) no by (auto simp: 1(4) dest!: set_update_subset_insert [THEN subsetD])
  qed
  from run_schedule_inv [where P = ?P, OF this] have "?P (run_schedule cfg is s)" using assms by simp
  then show ?thesis by simp
qed

section \<open>A process on its own\<close>

text \<open>Process \<open>i\<close> in the given place, with the engine and the lock as given\<close>

definition placed :: "'b sys \<Rightarrow> nat \<Rightarrow> phase \<Rightarrow> 'b engine \<Rightarrow> nat option \<Rightarrow> 'b sys" where
  "placed s i ph eng m = \<lparr>eng_of = eng, mu = m, procs = (procs s)[i := (procs s ! i)\<lparr>phase := ph\<rparr>]\<rparr>"

text \<open>Scheduling \<open>i\<close> some number of times leads from one state to the other.\<close>

definition alone :: "'b engine_cfg \<Rightarrow> nat \<Rightarrow> 'b sys \<Rightarrow> 'b sys \<Rightarrow> bool" where
  "alone cfg i s s' \<longleftrightarrow> (\<exists>n. run_schedule cfg (replicate n i) s = s')"

lemma alone_refl: "alone cfg i s s"
  unfolding alone_def by (intro exI [of _ 0]) simp

lemma alone_trans: "alone cfg i s s1 \<Longrightarrow> alone cfg i s1 s2 \<Longrightarrow> alone cfg i s s2"
  unfolding alone_def by (metis replicate_add run_schedule_append)

lemma alone_turn:
  assumes "i < length (procs s)" "turn cfg i (job_of (procs s ! i)) ph eng m = Some (ph', eng', m')"
  shows "alone cfg i (placed s i ph eng m) (placed s i ph' eng' m')"
proof -
  have "move cfg i (placed s i ph eng m) = Some (placed s i ph' eng' m')"
    using assms by (simp add: move_def placed_def)
  then show ?thesis unfolding alone_def by (intro exI [of _ 1]) simp
qed

lemma alone_users:
  assumes "i < length (procs s)" "job_of (procs s ! i) = (io, w, q)"
  shows "alone cfg i (placed s i (ReadUsers p g us acc) eng m)
    (case load_users (pass_io w p) (disk_of eng) us acc of
       Inl e \<Rightarrow> placed s i (Finished (Some (StoreFailed e))) eng None
     | Inr ulists \<Rightarrow> placed s i (ReadUsers p g [] ulists) eng m)"
proof (induction us arbitrary: acc)
  case (Cons u us)
  show ?case
  proof (cases "load_locked (pass_io w p) (disk_of eng) (UserScope u)")
    case (Inl e)
    then show ?thesis using alone_turn [OF assms(1), of cfg "ReadUsers p g (u # us) acc" eng m] by (simp add: assms(2))
  next
    case (Inr bl)
    have "alone cfg i (placed s i (ReadUsers p g (u # us) acc) eng m)
        (placed s i (ReadUsers p g us (AList.update u bl acc)) eng m)"
      by (rule alone_turn [OF assms(1)]) (simp add: assms(2) Inr)
    from alone_trans [OF this Cons.IH] show ?thesis by (simp add: Inr)
  qed
qed (simp add: alone_refl)

lemma alone_load:
  assumes "i < length (procs s)" "job_of (procs s ! i) = (io, w, q)"
  shows "alone cfg i (placed s i (ReadGlobal p) eng m)
    (case load_all (pass_io w p) (disk_of eng) of
       Inl e \<Rightarrow> placed s i (Finished (Some (StoreFailed e))) eng None
     | Inr (g, ulists) \<Rightarrow> placed s i (ReadUsers p g [] ulists) eng m)"
proof (cases "load_locked (pass_io w p) (disk_of eng) GlobalScope")
  case (Inl e)
  then show ?thesis using alone_turn [OF assms(1), of cfg "ReadGlobal p" eng m]
    by (simp add: assms(2) load_all_def)
next
  case g: (Inr g)
  have 1: "alone cfg i (placed s i (ReadGlobal p) eng m) (placed s i (ReadUids p g) eng m)"
    by (rule alone_turn [OF assms(1)]) (simp add: assms(2) g)
  show ?thesis
  proof (cases "list_user_uids (pass_io w p) (disk_of eng)")
    case (Inl e)
    have "alone cfg i (placed s i (ReadUids p g) eng m) (placed s i (Finished (Some (StoreFailed e))) eng None)"
      by (rule alone_turn [OF assms(1)]) (simp add: assms(2) Inl)
    from alone_trans [OF 1 this] show ?thesis by (simp add: load_all_def g Inl)
  next
    case (Inr us)
    have "alone cfg i (placed s i (ReadUids p g) eng m) (placed s i (ReadUsers p g us []) eng m)"
      by (rule alone_turn [OF assms(1)]) (simp add: assms(2) Inr)
    from alone_trans [OF alone_trans [OF 1 this] alone_users [OF assms]] show ?thesis
      by (auto simp: load_all_def g Inr split: sum.splits)
  qed
qed

text \<open>How a call ends, and with what\<close>

fun result_of :: "phase \<Rightarrow> engine_error option" where
  "result_of (Refused e) = Some (StoreFailed e)"
| "result_of (Finished r) = r"
| "result_of ph = None"

definition ends_as :: "'b engine_cfg \<Rightarrow> nat \<Rightarrow> 'b sys \<Rightarrow> 'b sys \<Rightarrow> 'b engine \<times> engine_error option \<Rightarrow> bool" where
  "ends_as cfg i s s0 out \<longleftrightarrow>
     (\<exists>ph. alone cfg i s (placed s0 i ph (fst out) None) \<and> done_phase ph \<and> result_of ph = snd out)"

lemma ends_asI: "alone cfg i s (placed s0 i ph eng None) \<Longrightarrow> done_phase ph \<Longrightarrow> result_of ph = r \<Longrightarrow> ends_as cfg i s s0 (eng, r)"
  by (auto simp: ends_as_def)

lemma ends_as_trans: "alone cfg i s s1 \<Longrightarrow> ends_as cfg i s1 s0 out \<Longrightarrow> ends_as cfg i s s0 out"
  unfolding ends_as_def using alone_trans by blast

lemma alone_finish:
  assumes "i < length (procs s)" "job_of (procs s ! i) = (io, w, q)"
  shows "ends_as cfg i (placed s i (WantSecond found failed) eng None) s
    (rebuild_finish cfg (io_second w) (now_second w) (found, failed) eng)"
proof -
  let ?e = "eng\<lparr>cache := store_results (now_second w + ttl cfg) found (cache eng)\<rparr>"
  have "alone cfg i (placed s i (WantSecond found failed) eng None) (placed s i (ReadGlobal (Second failed)) ?e (Some i))"
    by (rule alone_turn [OF assms(1)]) (simp add: assms(2))
  note load = alone_trans [OF this alone_load [OF assms]]
  show ?thesis
  proof (cases "load_all (io_second w) (disk_of ?e)")
    case (Inl e)
    then have "alone cfg i (placed s i (WantSecond found failed) eng None) (placed s i (Finished (Some (StoreFailed e))) ?e None)"
      using load by simp
    from ends_asI [OF this] show ?thesis using Inl by (simp add: rebuild_finish_def Let_def)
  next
    case (Inr gu)
    then obtain g us where l: "load_all (io_second w) (disk_of ?e) = Inr (g, us)" by (cases gu) auto
    obtain eng' r where c: "build_and_apply cfg g us
        (?e\<lparr>log := log ?e @ failure_log (wanted_domains g us) (cache ?e) failed\<rparr>) = (eng', r)"
      by (cases "build_and_apply cfg g us (?e\<lparr>log := log ?e @ failure_log (wanted_domains g us) (cache ?e) failed\<rparr>)") auto
    have "alone cfg i (placed s i (ReadUsers (Second failed) g [] us) ?e (Some i)) (placed s i (Finished r) eng' None)"
      by (rule alone_turn [OF assms(1)]) (use c in \<open>simp add: assms(2) Let_def\<close>)
    moreover have "rebuild_finish cfg (io_second w) (now_second w) (found, failed) eng = (eng', r)"
      using l c by (simp add: rebuild_finish_def Let_def)
    ultimately show ?thesis using ends_asI [OF alone_trans [OF load]] l by simp
  qed
qed

lemma alone_rebuild:
  assumes "i < length (procs s)" "job_of (procs s ! i) = (io, w, q)"
  shows "ends_as cfg i (placed s i WantFirst eng None) s (rebuild cfg w (mode_of q) eng)"
proof -
  have "alone cfg i (placed s i WantFirst eng None) (placed s i (ReadGlobal First) eng (Some i))"
    by (rule alone_turn [OF assms(1)]) simp
  note load = alone_trans [OF this alone_load [OF assms]]
  show ?thesis
  proof (cases "load_all (io_first w) (disk_of eng)")
    case (Inl e)
    then have "alone cfg i (placed s i WantFirst eng None) (placed s i (Finished (Some (StoreFailed e))) eng None)"
      using load by simp
    from ends_asI [OF this] show ?thesis using Inl by (simp add: rebuild_def rebuild_begin_def)
  next
    case (Inr gu)
    then obtain g us where l: "load_all (io_first w) (disk_of eng) = Inr (g, us)" by (cases gu) auto
    let ?todo = "domains_to_resolve (map_order cfg) (now_first w) (mode_of q) (cache eng) (wanted_domains g us)"
    have read: "alone cfg i (placed s i WantFirst eng None) (placed s i (ReadUsers First g [] us) eng (Some i))"
      using load l by simp
    obtain found failed where f: "resolve_many (answers w) ?todo = (found, failed)"
      by (cases "resolve_many (answers w) ?todo") auto
    obtain eng' r where c: "build_and_apply cfg g us eng = (eng', r)" by (cases "build_and_apply cfg g us eng") auto
    show ?thesis
    proof (cases "?todo = []")
      case True
      have "alone cfg i (placed s i (ReadUsers First g [] us) eng (Some i)) (placed s i (Finished r) eng' None)"
        by (rule alone_turn [OF assms(1)]) (use c True in \<open>simp add: assms(2) Let_def\<close>)
      moreover have "rebuild cfg w (mode_of q) eng = (eng', r)"
        using l c True by (simp add: rebuild_def rebuild_begin_def Let_def)
      ultimately show ?thesis using ends_asI [OF alone_trans [OF read]] by simp
    next
      case False
      have 1: "alone cfg i (placed s i (ReadUsers First g [] us) eng (Some i)) (placed s i (LookUp ?todo) eng None)"
        by (rule alone_turn [OF assms(1)]) (use False in \<open>simp add: assms(2) Let_def\<close>)
      have 2: "alone cfg i (placed s i (LookUp ?todo) eng None) (placed s i (WantSecond found failed) eng None)"
        by (rule alone_turn [OF assms(1)]) (use f in \<open>simp add: assms(2)\<close>)
      have "rebuild cfg w (mode_of q) eng = rebuild_finish cfg (io_second w) (now_second w) (found, failed) eng"
        using l f False by (simp add: rebuild_def rebuild_begin_def Let_def)
      then show ?thesis
        using ends_as_trans [OF alone_trans [OF read alone_trans [OF 1 2]] alone_finish [OF assms]] by simp
    qed
  qed
qed

lemma alone_change:
  assumes "i < length (procs s)" "job_of (procs s ! i) = (io, w, q)" "mode_of q = ResolveMissing"
    and "submit (job_of (procs s ! i)) eng = submit_change io t fn eng"
    and "change_entries cfg io w t fn eng = (eng', n, m, r)"
  shows "ends_as cfg i (placed s i Ready eng None) s (eng', r)"
proof -
  obtain d x where mu: "mutate io (disk_of eng) t fn = (d, x)" by (cases "mutate io (disk_of eng) t fn")
  show ?thesis
  proof (cases x)
    case (Inl e)
    have "alone cfg i (placed s i Ready eng None) (placed s i (Refused e) (eng\<lparr>disk_of := d\<rparr>) None)"
      by (rule alone_turn [OF assms(1)]) (simp add: assms(4) submit_change_def mu Inl)
    from ends_asI [OF this] show ?thesis using assms(5) by (simp add: change_entries_def mu Inl)
  next
    case (Inr nm)
    have "alone cfg i (placed s i Ready eng None) (placed s i WantFirst (eng\<lparr>disk_of := d\<rparr>) None)"
      by (rule alone_turn [OF assms(1)]) (simp add: assms(4) submit_change_def mu Inr)
    moreover have "rebuild cfg w ResolveMissing (eng\<lparr>disk_of := d\<rparr>) = (eng', r)"
      using assms(5) by (auto simp: change_entries_def mu Inr split: prod.splits)
    ultimately show ?thesis using ends_as_trans alone_rebuild [OF assms(1,2)] assms(3) by metis
  qed
qed

text \<open>A call that is not interrupted does what the sequential engine does.\<close>

theorem alone_is_sequential:
  assumes "i < length (procs s)" "phase (procs s ! i) = Ready" "mu s = None"
  shows "ends_as cfg i s s (run_request cfg (job_of (procs s ! i)) (eng_of s))"
proof -
  obtain io w q where j: "job_of (procs s ! i) = (io, w, q)" by (cases "job_of (procs s ! i)") auto
  have s: "placed s i Ready (eng_of s) None = s"
  proof -
    have "(procs s ! i)\<lparr>phase := Ready\<rparr> = procs s ! i" using assms(2) by (cases "procs s ! i") simp
    then show ?thesis using assms(3) by (cases s) (simp add: placed_def)
  qed
  have "ends_as cfg i (placed s i Ready (eng_of s) None) s (run_request cfg (io, w, q) (eng_of s))"
  proof (cases q)
    case (AddReq t ds xs)
    obtain eng' n m r where c: "change_entries cfg io w t (add_fn ds xs) (eng_of s) = (eng', n, m, r)"
      by (cases "change_entries cfg io w t (add_fn ds xs) (eng_of s)") auto
    show ?thesis using alone_change [OF assms(1) j _ _ c] by (simp add: AddReq j c add_entries_def)
  next
    case (RemoveReq t ds xs)
    obtain eng' n m r where c: "change_entries cfg io w t (remove_fn ds xs) (eng_of s) = (eng', n, m, r)"
      by (cases "change_entries cfg io w t (remove_fn ds xs) (eng_of s)") auto
    show ?thesis using alone_change [OF assms(1) j _ _ c] by (simp add: RemoveReq j c remove_entries_def)
  next
    case (RefreshReq mode)
    have "alone cfg i (placed s i Ready (eng_of s) None) (placed s i WantFirst (eng_of s) None)"
      by (rule alone_turn [OF assms(1)]) (simp add: j RefreshReq)
    from ends_as_trans [OF this alone_rebuild [OF assms(1) j]] show ?thesis by (simp add: RefreshReq)
  qed
  then show ?thesis by (simp add: s j)
qed

end
