(* ===== verification/Concurrent_Lists.thy ===== *)
theory Concurrent_Lists
  imports Concurrent
begin

text \<open>
  No concurrent change is lost. Mutations do not take \<open>e.mu\<close>, so a process can apply lists
  that have changed since it read them; the process that changed them is then still waiting
  for \<open>e.mu\<close> and loads everything again. This is the invariant \<open>nothing_lost\<close>; it is kept by
  every step of every process, over any backend that keeps its contract.
\<close>

section \<open>What a process has read\<close>

text \<open>The list a process in a critical section has for a scope, if it has read it already\<close>

fun seen :: "phase \<Rightarrow> scope \<Rightarrow> blocklist option" where
  "seen (ReadUids p g) t = (if Global t then Some g else None)"
| "seen (ReadUsers p g us acc) t =
     (if Global t then Some g
      else if UID t \<in> set us then None
      else Some (case map_of acc (UID t) of Some bl \<Rightarrow> bl | None \<Rightarrow> empty_blocklist))"
| "seen ph t = None"

definition proper_scope :: "scope \<Rightarrow> bool" where
  "proper_scope t \<longleftrightarrow> t = GlobalScope \<or> (\<exists>u. go_int u \<and> t = UserScope u)"

text \<open>A list that has changed since the process read it\<close>

definition stale :: "disk \<Rightarrow> phase \<Rightarrow> bool" where
  "stale d ph \<longleftrightarrow> (\<exists>t. proper_scope t \<and> seen ph t \<noteq> None \<and> seen ph t \<noteq> content d t)"

fun phase_ok :: "phase \<Rightarrow> bool" where
  "phase_ok (ReadUsers p g us acc) \<longleftrightarrow> distinct (map fst acc) \<and> (\<forall>u \<in> set us. go_int u) \<and>
     (\<forall>(u, bl) \<in> set acc. go_int u \<and> (bl = empty_blocklist \<or> kernel_uid u))"
| "phase_ok (WantSecond found failed) \<longleftrightarrow> (\<forall>x \<in> set found. wf_resolved (snd x))"
| "phase_ok ph \<longleftrightarrow> True"

lemma stale_phases [simp]:
  "stale d (ReadUids p g) \<longleftrightarrow> content d GlobalScope \<noteq> Some g"
  "stale d (ReadUsers p g us acc) \<longleftrightarrow> content d GlobalScope \<noteq> Some g \<or>
     (\<exists>u. go_int u \<and> u \<notin> set us \<and>
        content d (UserScope u) \<noteq> Some (case map_of acc u of Some bl \<Rightarrow> bl | None \<Rightarrow> empty_blocklist))"
  by (auto simp: stale_def proper_scope_def)

lemma stale_section: "stale d ph \<Longrightarrow> in_section ph"
  by (cases ph) (auto simp: stale_def)

lemma fresh_phases [simp]:
  "\<not> stale d (ReadGlobal p)" "\<not> in_section ph \<Longrightarrow> \<not> stale d ph"
  by (simp add: stale_def) (use stale_section in blast)

lemma stale_same: "content d = content d' \<Longrightarrow> stale d ph \<longleftrightarrow> stale d' ph"
  by (simp add: stale_def)

text \<open>Reading never makes a list stale.\<close>

lemma turn_stale:
  assumes "turn cfg i q ph eng m = Some (ph', eng', m')" "wf_disk (disk_of eng)" "stale (disk_of eng) ph'"
  shows "stale (disk_of eng) ph"
proof (cases "(cfg, i, q, ph, eng, m)" rule: turn.cases)
  case (3 cfg0 i0 io w q0 p eng0 m0)
  then show ?thesis using assms by (auto split: sum.splits dest: load_content)
next
  case (4 cfg0 i0 io w q0 p g eng0 m0)
  then show ?thesis using assms(1,3) list_user_uids_spec(3) [OF assms(2)]
    by (auto split: sum.splits)
next
  case (5 cfg0 i0 io w q0 p g u us acc eng0 m0)
  obtain bl where "load_locked (pass_io w p) (disk_of eng) (UserScope u) = Inr bl"
      "ph' = ReadUsers p g us (AList.update u bl acc)"
    using 5 assms(1,3) by (auto split: sum.splits)
  then show ?thesis using 5 assms(3) load_content
    by (fastforce simp: update_conv' split: if_splits)
qed (use assms stale_section in \<open>auto split: prod.splits sum.splits if_splits dest!: submit_phase conclude_phase\<close>)

section \<open>No change is lost\<close>

text \<open>
  The invariant behind the result: only the holder of the lock can have read something that
  changed since, and then some other process waits and will read it; and unless a rebuild
  failed or some process is yet to apply, the kernel enforces what is on disk.
\<close>

definition nothing_lost :: "('b \<Rightarrow> packet \<Rightarrow> bool) \<Rightarrow> 'b sys \<Rightarrow> bool" where
  "nothing_lost verdict s \<longleftrightarrow>
     (some_at (stale (disk_of (eng_of s))) s \<longrightarrow> some_at waiting s) \<and>
     (some_failed s \<or> some_at waiting s \<or> some_at in_section s \<or>
       (\<forall>x. verdict (be_state (eng_of s)) x \<longleftrightarrow> desired (disk_of (eng_of s)) (cache (eng_of s)) x))"

definition sys_ok :: "('b \<Rightarrow> bool) \<Rightarrow> 'b sys \<Rightarrow> bool" where
  "sys_ok be_inv s \<longleftrightarrow> exclusive s \<and> engine_inv be_inv (eng_of s) \<and>
     (\<forall>j < length (procs s). request_ok (job_of (procs s ! j)) \<and> phase_ok (phase (procs s ! j)))"

lemma desired_same: "content d = content d' \<Longrightarrow> desired d c x \<longleftrightarrow> desired d' c x"
  by (simp add: desired_def global_list_def user_list_def)

context engine_parts
begin

lemma submit_change_ok:
  assumes "submit_change io s fn eng = (ph, eng')" "engine_inv inv eng" "scope_ok s" "temp_digits io"
  shows "engine_inv inv eng' \<and> phase_ok ph"
  using assms(1)
proof (cases rule: submit_change_cases)
  case (1 d r)
  then show ?thesis using mutate_disk_inv [OF 1(1)] assms(2-4) by (simp add: engine_inv_def)
next
  case (2 d e)
  then show ?thesis using mutate_disk_inv [OF 2(1)] assms(2-4) by (simp add: engine_inv_def)
qed

lemma submit_ok:
  assumes "submit q eng = (ph, eng')" "engine_inv inv eng" "request_ok q"
  shows "engine_inv inv eng' \<and> phase_ok ph"
  using assms by (cases "(q, eng)" rule: submit.cases) (auto dest!: submit_change_ok)

text \<open>The lists applied may come from different moments, yet the backend's invariant is kept.\<close>

lemma conclude_ok:
  assumes "conclude cfg q p g us eng = (ph, eng')" "engine_inv inv eng" "phase_ok (ReadUsers p g [] us)"
  shows "engine_inv inv eng' \<and> phase_ok ph"
proof -
  have any: "engine_inv inv e'" if "build_and_apply cfg g us e = (e', r)" "engine_inv inv e" for e e' r
    by (rule build_and_apply_any(1) [OF that(2) _ _ that(1)]) (use assms(3) in auto)
  have log: "engine_inv inv (eng\<lparr>log := l\<rparr>)" for l using assms(2) by (simp add: engine_inv_def)
  show ?thesis using assms(1,2) any log
    by (cases "(cfg, q, p, g, us, eng)" rule: conclude.cases)
      (auto simp: Let_def split: prod.splits if_splits)
qed

lemma request_world: "request_ok (io, w, q) \<Longrightarrow> world_ok w"
  by (cases q) simp_all

lemma phase_ok_read:
  assumes "phase_ok (ReadUsers p g (u # us) acc)" "bl = empty_blocklist \<or> kernel_uid u"
  shows "phase_ok (ReadUsers p g us (AList.update u bl acc))"
proof -
  have "go_int v \<and> (b = empty_blocklist \<or> kernel_uid v)" if "(v, b) \<in> set (AList.update u bl acc)" for v b
    using set_update_cases [OF that] assms by auto
  then show ?thesis using assms(1) by (auto simp: distinct_update)
qed

lemma read_user_ok:
  assumes "load_locked io (disk_of eng) (UserScope u) = Inr bl" "engine_inv inv eng" "go_int u"
  shows "bl = empty_blocklist \<or> kernel_uid u"
  using load_content [OF assms(1)] assms(2,3) by (auto simp: engine_inv_def disk_uids_ok_def user_list_def)

lemma turn_ok:
  assumes "turn cfg i q ph eng m = Some (ph', eng', m')" "engine_inv inv eng" "request_ok q" "phase_ok ph"
  shows "engine_inv inv eng' \<and> phase_ok ph'"
proof (cases "(cfg, i, q, ph, eng, m)" rule: turn.cases)
  case (4 cfg0 i0 io w q0 p g eng0 m0)
  then show ?thesis using assms list_user_uids_spec(2) [of "disk_of eng"]
    by (auto simp: engine_inv_def split: sum.splits)
next
  case (5 cfg0 i0 io w q0 p g u us acc eng0 m0)
  show ?thesis
  proof (cases "load_locked (pass_io w p) (disk_of eng) (UserScope u)")
    case (Inl e)
    then show ?thesis using 5 assms by auto
  next
    case (Inr bl)
    have "bl = empty_blocklist \<or> kernel_uid u"
      by (rule read_user_ok [OF Inr assms(2)]) (use 5 assms(4) in simp)
    then have "phase_ok (ReadUsers p g us (AList.update u bl acc))"
      using phase_ok_read 5 assms(4) by blast
    then show ?thesis using 5 assms(1,2) Inr by auto
  qed
next
  case (6 cfg0 i0 q0 p g acc eng0 m0)
  then obtain e where "conclude cfg q p g acc eng = (ph', eng')" using assms(1) by (auto split: prod.splits)
  then show ?thesis using conclude_ok [of q p g acc eng ph' eng'] assms(2,4) 6 by simp
next
  case (7 cfg0 i0 io w q0 todo eng0 m0)
  then show ?thesis using assms resolve_many_results [of "answers w" todo] request_world
    by (fastforce simp: world_ok_def split: prod.splits)
next
  case (8 cfg0 i0 io w q0 found failed eng0 m0)
  then show ?thesis using assms wf_store_results by (auto simp: engine_inv_def split: if_splits)
qed (use assms in \<open>auto split: prod.splits sum.splits if_splits dest!: submit_ok\<close>)

text \<open>A process that applies with success, and has read nothing that changed since, leaves the kernel right.\<close>

lemma conclude_enforces:
  assumes "conclude cfg q p g us eng = (Finished None, eng')" "engine_inv inv eng"
    and "phase_ok (ReadUsers p g [] us)" "\<not> stale (disk_of eng) (ReadUsers p g [] us)"
  shows "verdict (be_state eng') x \<longleftrightarrow> desired (disk_of eng') (cache eng') x"
proof -
  obtain e where e: "build_and_apply cfg g us e = (eng', None)" "engine_inv inv e" "disk_of e = disk_of eng"
    using assms(1,2)
    by (cases "(cfg, q, p, g, us, eng)" rule: conclude.cases)
      (auto simp: Let_def engine_inv_def split: prod.splits if_splits)
  have d: "distinct (map fst us)" "\<forall>(u, bl) \<in> set us. bl = empty_blocklist \<or> kernel_uid u" using assms(3) by auto
  note any = build_and_apply_any [OF e(2) d e(1)]
  have g: "global_list (disk_of eng) = g" using assms(4) by (simp add: global_list_def)
  have u: "user_list (disk_of eng) v = (case map_of us v of Some bl \<Rightarrow> bl | None \<Rightarrow> empty_blocklist)" if "go_int v" for v
    using assms(4) that by (simp add: user_list_def)
  have k: "go_int v" if "map_of us v = Some bl" for v bl using assms(3) map_of_SomeD [OF that] by auto
  have "(\<exists>bl. map_of us (skuid x) = Some bl \<and> listed c bl (is_v6 x) (daddr x)) \<longleftrightarrow>
      go_int (skuid x) \<and> listed c (user_list (disk_of eng) (skuid x)) (is_v6 x) (daddr x)" for c
    using u [of "skuid x"] k [of "skuid x"] by (cases "map_of us (skuid x)") auto
  then show ?thesis
    using any(3) [OF refl] by (simp add: build_state_blocked [OF order d(1)] desired_def g any(2) e(3))
qed

lemma move_ok:
  assumes "sys_ok inv s" "move cfg i s = Some s'"
  shows "sys_ok inv s'"
  using assms(2)
proof (cases rule: move_SomeE)
  case (1 p ph eng m)
  have p: "request_ok (job_of p)" "phase_ok (phase p)" "engine_inv inv (eng_of s)"
    using assms(1) 1(1,2) by (auto simp: sys_ok_def)
  have "engine_inv inv eng \<and> phase_ok ph" by (rule turn_ok [OF 1(3) p(3,1,2)])
  then show ?thesis
    using assms(1) move_exclusive [OF _ assms(2)] 1(1,2,4) p(1) by (auto simp: sys_ok_def nth_list_update)
qed

text \<open>Where the others are does not change.\<close>

lemma some_at_moved:
  assumes "s' = \<lparr>eng_of = eng, mu = m, procs = (procs s)[i := p\<lparr>phase := ph\<rparr>]\<rparr>" "i < length (procs s)" "p = procs s ! i"
  shows "P ph \<Longrightarrow> some_at P s'" "some_at P s \<Longrightarrow> \<not> P (phase p) \<Longrightarrow> some_at P s'"
    "some_at P s' \<Longrightarrow> P ph \<or> some_at P s"
proof -
  show "some_at P s'" if "P ph" using that assms by (auto simp: some_at_nth intro: exI [of _ i])
  show "some_at P s'" if s: "some_at P s" and no: "\<not> P (phase p)"
  proof -
    obtain j where "j < length (procs s)" "P (phase (procs s ! j))" using s by (auto simp: some_at_nth)
    moreover from this have "j \<noteq> i" using no assms(3) by auto
    ultimately show ?thesis using assms(1) by (auto simp: some_at_nth intro!: exI [of _ j])
  qed
  show "P ph \<or> some_at P s" if "some_at P s'"
    using that assms by (auto simp: some_at_nth nth_list_update split: if_splits)
qed

lemma move_stale:
  assumes "sys_ok inv s" "nothing_lost verdict s" "move cfg i s = Some s'"
    and "some_at (stale (disk_of (eng_of s'))) s'"
  shows "some_at waiting s'"
  using assms(3)
proof (cases rule: move_SomeE)
  case (1 p ph eng m)
  note moved = some_at_moved [OF 1(4,1,2)]
  have disk: "disk_of (eng_of s') = disk_of eng" by (simp add: 1(4))
  have wf: "wf_disk (disk_of (eng_of s))" using assms(1) by (simp add: sys_ok_def engine_inv_def)
  show ?thesis
  proof (cases "phase p = Ready")
    case True
    then have sub: "submit (job_of p) (eng_of s) = (ph, eng)" using 1(3) by (auto split: prod.splits)
    show ?thesis
    proof (cases "ph = WantFirst")
      case False
      then have c: "content (disk_of eng) = content (disk_of (eng_of s))" and ph: "\<not> in_section ph"
        using submit_result [OF sub] submit_phase [OF sub] by auto
      have "some_at (stale (disk_of eng)) s" using moved(3) [of "stale (disk_of eng)"] assms(4) ph unfolding disk by auto
      then have "some_at (stale (disk_of (eng_of s))) s" using stale_same [OF c] by (simp add: some_at_nth)
      then have "some_at waiting s" using assms(2) by (simp add: nothing_lost_def)
      then show ?thesis using moved(2) True by simp
    qed (use moved(1) in simp)
  next
    case ready: False
    have d: "disk_of eng = disk_of (eng_of s)" by (rule turn_disk [OF 1(3) ready])
    have "some_at (stale (disk_of eng)) s"
      using moved(3) [of "stale (disk_of eng)"] assms(4) turn_stale [OF 1(3) wf] 1(1,2)
      unfolding disk d by (auto simp: some_at_nth)
    then have st: "some_at (stale (disk_of (eng_of s))) s" using d by simp
    then have w: "some_at waiting s" using assms(2) by (simp add: nothing_lost_def)
    obtain k where k: "k < length (procs s)" "in_section (phase (procs s ! k))"
      using st stale_section by (auto simp: some_at_nth)
    then have "mu s = Some k" using assms(1) by (auto simp: sys_ok_def exclusive_def)
    then have "waiting (phase p) \<Longrightarrow> waiting ph"
      using 1(3) by (cases "phase p"; cases "job_of p") (auto split: prod.splits)
    then show ?thesis using w moved(1,2) by blast
  qed
qed

text \<open>How a process can end: refused, failed, or after applying.\<close>

lemma turn_end:
  assumes "turn cfg i q ph eng m = Some (ph', eng', m')" "\<not> waiting ph'" "\<not> in_section ph'"
  obtains (refused) e where "ph = Ready" "ph' = Refused e" "submit q eng = (ph', eng')"
  | (failed) "failed_phase ph'"
  | (applied) p g us where "ph = ReadUsers p g [] us" "conclude cfg q p g us eng = (Finished None, eng')"
proof (cases "(cfg, i, q, ph, eng, m)" rule: turn.cases)
  case (1 cfg0 i0 q0 eng0 m0)
  then have sub: "submit q eng = (ph', eng')" using assms(1) by (auto split: prod.splits)
  then obtain e where "ph' = Refused e" using submit_result [OF sub] assms(2) by auto
  then show ?thesis using refused sub 1 by blast
next
  case (6 cfg0 i0 q0 p g us eng0 m0)
  then have c: "conclude cfg q p g us eng = (ph', eng')" using assms(1) by (auto split: prod.splits)
  then obtain r where "ph' = Finished r"
    using assms(2) by (cases "(cfg, q, p, g, us, eng)" rule: conclude.cases)
      (auto simp: Let_def split: prod.splits if_splits)
  then show ?thesis using failed applied c 6 by (cases r) auto
qed (use assms failed in \<open>auto split: prod.splits sum.splits if_splits\<close>)

lemma move_settled:
  assumes "sys_ok inv s" "nothing_lost verdict s" "move cfg i s = Some s'"
    and "\<not> some_failed s'" "\<not> some_at waiting s'" "\<not> some_at in_section s'"
  shows "verdict (be_state (eng_of s')) x \<longleftrightarrow> desired (disk_of (eng_of s')) (cache (eng_of s')) x"
  using assms(3)
proof (cases rule: move_SomeE)
  case (1 p ph eng m)
  note moved = some_at_moved [OF 1(4,1,2)]
  have ph: "\<not> waiting ph" "\<not> in_section ph" "\<not> failed_phase ph"
    using moved(1) assms(4-6) by (auto simp: some_failed_def)
  from 1(3) ph(1,2) show ?thesis
  proof (cases rule: turn_end)
    case (refused e)
    have same: "content (disk_of eng) = content (disk_of (eng_of s))" "cache eng = cache (eng_of s)"
      "be_state eng = be_state (eng_of s)"
      using submit_result [OF refused(3)] refused(2) by auto
    have "\<not> some_failed s" "\<not> some_at waiting s" "\<not> some_at in_section s"
      using moved(2) assms(4-6) refused(1) by (auto simp: some_failed_def)
    then show ?thesis
      using assms(2) desired_same [OF same(1)] by (simp add: nothing_lost_def 1(4) same)
  next
    case failed
    then show ?thesis using ph(3) by simp
  next
    case (applied q g us)
    have "\<not> some_at waiting s" using moved(2) assms(5) applied(1) by auto
    then have "\<not> some_at (stale (disk_of (eng_of s))) s" using assms(2) by (auto simp: nothing_lost_def)
    then have "\<not> stale (disk_of (eng_of s)) (phase p)" using 1(1,2) by (auto simp: some_at_nth)
    moreover have "engine_inv inv (eng_of s)" "phase_ok (phase p)" using assms(1) 1(1,2) by (auto simp: sys_ok_def)
    ultimately show ?thesis using conclude_enforces [OF applied(2)] applied(1) by (simp add: 1(4))
  qed
qed

lemma move_nothing_lost:
  "sys_ok inv s \<Longrightarrow> nothing_lost verdict s \<Longrightarrow> move cfg i s = Some s' \<Longrightarrow> nothing_lost verdict s'"
  unfolding nothing_lost_def [of verdict s'] using move_stale move_settled by blast

lemma schedule_ok:
  assumes "sys_ok inv s" "nothing_lost verdict s"
  shows "sys_ok inv (run_schedule cfg is s) \<and> nothing_lost verdict (run_schedule cfg is s)"
  by (rule run_schedule_inv [where P = "\<lambda>s. sys_ok inv s \<and> nothing_lost verdict s"])
    (use assms move_ok move_nothing_lost in blast)+

lemma start_sys_ok:
  assumes "engine_inv inv eng" "\<forall>q \<in> set jobs. request_ok q"
  shows "sys_ok inv (start_sys jobs eng)"
  using assms start_exclusive [of jobs eng] by (auto simp: sys_ok_def start_sys_def)

text \<open>Whatever the schedule: when all are through and none failed, the kernel is right.\<close>

theorem concurrent_enforces:
  assumes "engine_inv inv eng" "\<forall>q \<in> set jobs. request_ok q"
    and "\<forall>x. verdict (be_state eng) x \<longleftrightarrow> desired (disk_of eng) (cache eng) x"
    and "run_schedule cfg is (start_sys jobs eng) = s" "all_done s" "\<not> some_failed s"
  shows "verdict (be_state (eng_of s)) x \<longleftrightarrow> desired (disk_of (eng_of s)) (cache (eng_of s)) x"
proof -
  have "nothing_lost verdict (start_sys jobs eng)"
    using assms(3) by (auto simp: nothing_lost_def some_at_nth start_sys_def)
  then have "nothing_lost verdict s"
    using schedule_ok [OF start_sys_ok [OF assms(1,2)]] assms(4) by blast
  moreover have "waiting ph \<Longrightarrow> \<not> done_phase ph" "in_section ph \<Longrightarrow> \<not> done_phase ph" for ph
    by (cases ph; simp)+
  then have "\<not> some_at waiting s" "\<not> some_at in_section s"
    using assms(5) by (auto simp: all_done_def some_at_nth)
  ultimately show ?thesis using assms(6) by (auto simp: nothing_lost_def)
qed

end

end
