(* ===== verification/Concurrent_Server.thy ===== *)
theory Concurrent_Server
  imports Concurrent_Lists Server
begin

text \<open>
  The whole daemon under concurrent use: \<open>Server.Run\<close> starts a goroutine for every connection,
  and \<open>RefreshLoop\<close> is one more. Here they are the things that are scheduled. A step of a
  connection is one passage through the rate limiter (under the limiter's mutex), the dispatch
  of its request, one load for \<open>show\<close>, or one step of the engine call it has made, which is a
  process of \<open>Concurrent\<close>. A process of the engine moves only when the goroutine that called
  it is scheduled. The invariants of the engine's processes are lifted to the daemon, and the
  results of \<open>Server\<close> on one connection after the other are proved for every interleaving.
\<close>

section \<open>Goroutines\<close>

text \<open>What the dispatcher and the handlers do before they touch anything shared\<close>

datatype begin_result =
    Reply response
  | Change bool scope "string list" "string list"
  | ShowRoot
  | ShowUser int

definition begin_mutate :: "bool \<Rightarrow> 'b service \<Rightarrow> peer_cred \<Rightarrow> request \<Rightarrow> begin_result" where
  "begin_mutate add sv caller req =
     (case ResolveScope (user_names sv) (target_user req) caller of
        Inl e \<Rightarrow> Reply (error_response e)
      | Inr s \<Rightarrow>
          (case normalize_and_validate (unicode_lower sv) (req_domains req) (req_ips req) of
             Inl e \<Rightarrow> Reply (error_response e)
           | Inr (domains, ips) \<Rightarrow>
               if length domains = 0 \<and> length ips = 0 then Reply (error_response NothingToDo)
               else Change add s domains ips))"

definition begin_show :: "'b service \<Rightarrow> peer_cred \<Rightarrow> request \<Rightarrow> begin_result" where
  "begin_show sv caller req = (if IsRoot caller then ShowRoot else ShowUser (uid_int caller))"

definition begin_status :: "'b service \<Rightarrow> peer_cred \<Rightarrow> request \<Rightarrow> begin_result" where
  "begin_status sv caller req =
     Reply (ok_response\<lparr>resp_status :=
       Some \<lparr>status_backend = eng_backend_name sv, protocol_version = proto_version\<rparr>\<rparr>)"

definition begin_table :: "(string \<times> ('b service \<Rightarrow> peer_cred \<Rightarrow> request \<Rightarrow> begin_result)) list" where
  "begin_table =
     [(action_add, begin_mutate True), (action_remove, begin_mutate False),
      (action_show, begin_show), (action_status, begin_status)]"

definition begin_dispatch :: "'b service \<Rightarrow> peer_cred \<Rightarrow> request \<Rightarrow> begin_result" where
  "begin_dispatch sv caller req =
     (if req_version req > proto_version then Reply (error_response (UnsupportedVersion (req_version req)))
      else (case map_of begin_table (req_action req) of
              None \<Rightarrow> Reply (error_response (UnknownAction (req_action req)))
            | Some h \<Rightarrow> h sv caller req))"

text \<open>
  Where a connection is. \<open>Mutating\<close> has the number of the engine's process and what
  \<open>Store.Mutate\<close> has counted; \<open>ShowGlobal\<close> to \<open>ShowUsers\<close> are the loads for root.
\<close>

datatype activity =
    Arrived
  | Dispatching peer_cred request
  | Mutating nat bool scope "string list" "string list" "nat \<times> nat"
  | ShowOwn int
  | ShowOwnGlobal blocklist
  | ShowGlobal
  | ShowUids blocklist
  | ShowUsers blocklist "int list" "scope_view list"
  | Answered response

text \<open>A refresh loop has the ticks that are still to come, the call under way, and the errors it has logged.\<close>

datatype goroutine =
    Serve conn activity
  | Refresh "world list" "nat option" "engine_error list"

record 'b daemon =
  dm_sys :: "'b sys"
  dm_limiter :: limiter
  dm_gos :: "goroutine list"

definition spawn :: "job \<Rightarrow> 'b sys \<Rightarrow> 'b sys" where
  "spawn q s = s\<lparr>procs := procs s @ [\<lparr>job_of = q, phase = Ready\<rparr>]\<rparr>"

definition change_job :: "conn \<Rightarrow> bool \<Rightarrow> scope \<Rightarrow> string list \<Rightarrow> string list \<Rightarrow> job" where
  "change_job c add s domains ips =
     (call_io (conn_call c), call_world (conn_call c),
      if add then AddReq s domains ips else RemoveReq s domains ips)"

text \<open>The numbers \<open>AddEntries\<close> and \<open>RemoveEntries\<close> get from the store before they rebuild\<close>

fun job_counts :: "job \<Rightarrow> disk \<Rightarrow> nat \<times> nat" where
  "job_counts (io, w, AddReq s ds as) d =
     (case mutate io d s (add_fn ds as) of (d', Inl e) \<Rightarrow> (0, 0) | (d', Inr nm) \<Rightarrow> nm)"
| "job_counts (io, w, RemoveReq s ds as) d =
     (case mutate io d s (remove_fn ds as) of (d', Inl e) \<Rightarrow> (0, 0) | (d', Inr nm) \<Rightarrow> nm)"
| "job_counts (io, w, RefreshReq mode) d = (0, 0)"

definition change_reply :: "bool \<Rightarrow> scope \<Rightarrow> string list \<Rightarrow> string list \<Rightarrow> nat \<times> nat \<Rightarrow> engine_error option \<Rightarrow> response" where
  "change_reply add s domains ips nm r =
     (case r of
        Some e \<Rightarrow> error_response ApplyFailed
      | None \<Rightarrow> ok_response\<lparr>resp_message :=
          mutate_message add s (fst nm) (snd nm) (length domains) (length ips)\<rparr>)"

definition own_views :: "blocklist \<Rightarrow> blocklist \<Rightarrow> scope_view list" where
  "own_views own global =
     [\<lparr>view_scope = ''your blocklist'', read_only = False, view_domains = Domains own, view_ips = IPs own\<rparr>,
      \<lparr>view_scope = ''global (set by administrator)'', read_only = True,
       view_domains = Domains global, view_ips = IPs global\<rparr>]"

definition global_view :: "blocklist \<Rightarrow> scope_view" where
  "global_view global =
     \<lparr>view_scope = ''global (all users)'', read_only = False,
      view_domains = Domains global, view_ips = IPs global\<rparr>"

definition user_view :: "user_db \<Rightarrow> int \<Rightarrow> blocklist \<Rightarrow> scope_view" where
  "user_view db uid bl =
     \<lparr>view_scope = scope_label_with_name db uid, read_only = False, view_domains = Domains bl, view_ips = IPs bl\<rparr>"

section \<open>Steps\<close>

text \<open>One step of a connection; \<open>None\<close> if it cannot move\<close>

fun conn_step ::
    "'b service \<Rightarrow> conn \<Rightarrow> activity \<Rightarrow> 'b sys \<Rightarrow> limiter \<Rightarrow> (activity \<times> 'b sys \<times> limiter) option" where
  "conn_step sv c Arrived s l =
     (case conn_cred c of
        None \<Rightarrow> Some (Answered (error_response NoIdentity), s, l)
      | Some cred \<Rightarrow>
          (case conn_request c of
             None \<Rightarrow> Some (Answered (error_response Malformed), s, l)
           | Some req \<Rightarrow>
               (case allow (cred_uid cred) (conn_time c) l of
                  (l', False) \<Rightarrow> Some (Answered (error_response RateLimited), s, l')
                | (l', True) \<Rightarrow> Some (Dispatching cred req, s, l'))))"
| "conn_step sv c (Dispatching cred req) s l =
     (case begin_dispatch sv cred req of
        Reply resp \<Rightarrow> Some (Answered resp, s, l)
      | Change add t domains ips \<Rightarrow>
          Some (Mutating (length (procs s)) add t domains ips (0, 0), spawn (change_job c add t domains ips) s, l)
      | ShowRoot \<Rightarrow> Some (ShowGlobal, s, l)
      | ShowUser u \<Rightarrow> Some (ShowOwn u, s, l))"
| "conn_step sv c (Mutating k add t domains ips nm) s l =
     (case phase (procs s ! k) of
        Refused e \<Rightarrow> Some (Answered (change_reply add t domains ips nm (Some (StoreFailed e))), s, l)
      | Finished r \<Rightarrow> Some (Answered (change_reply add t domains ips nm r), s, l)
      | ph \<Rightarrow>
          (case move (eng_cfg sv) k s of
             None \<Rightarrow> None
           | Some s' \<Rightarrow>
               Some (Mutating k add t domains ips
                 (if ph = Ready then job_counts (job_of (procs s ! k)) (disk_of (eng_of s)) else nm), s', l)))"
| "conn_step sv c (ShowOwn u) s l =
     (case load_locked (call_io (conn_call c)) (disk_of (eng_of s)) (UserScope u) of
        Inl e \<Rightarrow> Some (Answered (error_response ApplyFailed), s, l)
      | Inr own \<Rightarrow> Some (ShowOwnGlobal own, s, l))"
| "conn_step sv c (ShowOwnGlobal own) s l =
     (case load_locked (call_io (conn_call c)) (disk_of (eng_of s)) GlobalScope of
        Inl e \<Rightarrow> Some (Answered (error_response ApplyFailed), s, l)
      | Inr global \<Rightarrow> Some (Answered (ok_response\<lparr>resp_views := own_views own global\<rparr>), s, l))"
| "conn_step sv c ShowGlobal s l =
     (case load_locked (call_io (conn_call c)) (disk_of (eng_of s)) GlobalScope of
        Inl e \<Rightarrow> Some (Answered (error_response ApplyFailed), s, l)
      | Inr global \<Rightarrow> Some (ShowUids global, s, l))"
| "conn_step sv c (ShowUids global) s l =
     (case list_user_uids (call_io (conn_call c)) (disk_of (eng_of s)) of
        Inl e \<Rightarrow> Some (Answered (error_response ApplyFailed), s, l)
      | Inr uids \<Rightarrow> Some (ShowUsers global uids [], s, l))"
| "conn_step sv c (ShowUsers global (uid # uids) views) s l =
     (case load_locked (call_io (conn_call c)) (disk_of (eng_of s)) (UserScope uid) of
        Inl e \<Rightarrow> Some (Answered (error_response ApplyFailed), s, l)
      | Inr bl \<Rightarrow> Some (ShowUsers global uids (views @ [user_view (user_names sv) uid bl]), s, l))"
| "conn_step sv c (ShowUsers global [] views) s l =
     Some (Answered (ok_response\<lparr>resp_views := global_view global # views\<rparr>), s, l)"
| "conn_step sv c (Answered resp) s l = None"

text \<open>One step of the refresh loop\<close>

fun refresh_step ::
    "'b service \<Rightarrow> world list \<Rightarrow> nat option \<Rightarrow> engine_error list \<Rightarrow> 'b sys \<Rightarrow> (goroutine \<times> 'b sys) option" where
  "refresh_step sv [] None es s = None"
| "refresh_step sv (w # ws) None es s =
     Some (Refresh ws (Some (length (procs s))) es, spawn (io_first w, w, RefreshReq ResolveExpired) s)"
| "refresh_step sv ws (Some k) es s =
     (case phase (procs s ! k) of
        Refused e \<Rightarrow> Some (Refresh ws None (es @ [StoreFailed e]), s)
      | Finished (Some e) \<Rightarrow> Some (Refresh ws None (es @ [e]), s)
      | Finished None \<Rightarrow> Some (Refresh ws None es, s)
      | ph \<Rightarrow> (case move (eng_cfg sv) k s of None \<Rightarrow> None | Some s' \<Rightarrow> Some (Refresh ws (Some k) es, s')))"

fun go_step :: "'b service \<Rightarrow> goroutine \<Rightarrow> 'b sys \<Rightarrow> limiter \<Rightarrow> (goroutine \<times> 'b sys \<times> limiter) option" where
  "go_step sv (Serve c a) s l =
     (case conn_step sv c a s l of None \<Rightarrow> None | Some (a', s', l') \<Rightarrow> Some (Serve c a', s', l'))"
| "go_step sv (Refresh ws k es) s l =
     (case refresh_step sv ws k es s of None \<Rightarrow> None | Some (g, s') \<Rightarrow> Some (g, s', l))"

definition daemon_step :: "'b service \<Rightarrow> nat \<Rightarrow> 'b daemon \<Rightarrow> 'b daemon option" where
  "daemon_step sv i s =
     (if i < length (dm_gos s) then
        (case go_step sv (dm_gos s ! i) (dm_sys s) (dm_limiter s) of
           None \<Rightarrow> None
         | Some (g, sys, l) \<Rightarrow> Some \<lparr>dm_sys = sys, dm_limiter = l, dm_gos = (dm_gos s)[i := g]\<rparr>)
      else None)"

text \<open>A goroutine that is scheduled and cannot move waits.\<close>

fun run_daemon :: "'b service \<Rightarrow> nat list \<Rightarrow> 'b daemon \<Rightarrow> 'b daemon" where
  "run_daemon sv [] s = s"
| "run_daemon sv (i # is) s = run_daemon sv is (case daemon_step sv i s of None \<Rightarrow> s | Some s' \<Rightarrow> s')"

text \<open>The goroutines of a daemon that begins to serve\<close>

definition serving :: "conn list \<Rightarrow> world list \<Rightarrow> 'b server \<Rightarrow> 'b daemon" where
  "serving cs ws s =
     \<lparr>dm_sys = start_sys [] (srv_engine s), dm_limiter = srv_limiter s,
      dm_gos = Refresh ws None [] # map (\<lambda>c. Serve c Arrived) cs\<rparr>"

section \<open>What a step does to the engine\<close>

text \<open>A goroutine that waits for a call: the call moves, or it is through and has a result.\<close>

lemma mutating_step:
  "\<not> done_phase (phase (procs s ! k)) \<Longrightarrow>
   conn_step sv c (Mutating k add t domains ips nm) s l =
     (case move (eng_cfg sv) k s of
        None \<Rightarrow> None
      | Some s' \<Rightarrow>
          Some (Mutating k add t domains ips
            (if phase (procs s ! k) = Ready then job_counts (job_of (procs s ! k)) (disk_of (eng_of s)) else nm), s', l))"
  "done_phase (phase (procs s ! k)) \<Longrightarrow>
   conn_step sv c (Mutating k add t domains ips nm) s l =
     Some (Answered (change_reply add t domains ips nm (result_of (phase (procs s ! k)))), s, l)"
  by (cases "phase (procs s ! k)"; simp)+

lemma refreshing_step:
  "\<not> done_phase (phase (procs s ! k)) \<Longrightarrow>
   refresh_step sv ws (Some k) es s =
     (case move (eng_cfg sv) k s of None \<Rightarrow> None | Some s' \<Rightarrow> Some (Refresh ws (Some k) es, s'))"
  "done_phase (phase (procs s ! k)) \<Longrightarrow>
   refresh_step sv ws (Some k) es s =
     Some (Refresh ws None (es @ (case result_of (phase (procs s ! k)) of None \<Rightarrow> [] | Some e \<Rightarrow> [e])), s)"
  by (cases "phase (procs s ! k)"; simp split: option.split)+

lemmas waiting_steps = mutating_step refreshing_step

declare conn_step.simps(3) [simp del] refresh_step.simps(3) [simp del]

text \<open>What a connection asks for, once it has come through the limiter\<close>

definition asks :: "'b service \<Rightarrow> conn \<Rightarrow> begin_result \<Rightarrow> bool" where
  "asks sv c b \<longleftrightarrow>
     (case (conn_cred c, conn_request c) of (Some cred, Some req) \<Rightarrow> begin_dispatch sv cred req = b | _ \<Rightarrow> False)"

text \<open>The process of the engine that a goroutine is waiting for\<close>

fun owns :: "nat \<Rightarrow> goroutine \<Rightarrow> bool" where
  "owns k (Serve c (Mutating j add t domains ips nm)) \<longleftrightarrow> j = k"
| "owns k (Refresh ws (Some j) es) \<longleftrightarrow> j = k"
| "owns k g \<longleftrightarrow> False"

text \<open>The calls of the engine that a goroutine can still make\<close>

fun may_spawn :: "'b service \<Rightarrow> goroutine \<Rightarrow> job \<Rightarrow> bool" where
  "may_spawn sv (Serve c a) q \<longleftrightarrow>
     (\<exists>add t domains ips. asks sv c (Change add t domains ips) \<and> q = change_job c add t domains ips)"
| "may_spawn sv (Refresh ws k es) q \<longleftrightarrow> (\<exists>w \<in> set ws. q = (io_first w, w, RefreshReq ResolveExpired))"

text \<open>What holds for a goroutine, given the processes of the engine\<close>

fun go_ok :: "'b service \<Rightarrow> process list \<Rightarrow> goroutine \<Rightarrow> bool" where
  "go_ok sv ps (Serve c (Dispatching cred req)) \<longleftrightarrow> conn_cred c = Some cred \<and> conn_request c = Some req"
| "go_ok sv ps (Serve c (Mutating k add t domains ips nm)) \<longleftrightarrow>
     asks sv c (Change add t domains ips) \<and> k < length ps \<and> job_of (ps ! k) = change_job c add t domains ips"
| "go_ok sv ps (Serve c (ShowOwn u)) \<longleftrightarrow> asks sv c (ShowUser u)"
| "go_ok sv ps (Serve c (ShowOwnGlobal own)) \<longleftrightarrow> (\<exists>u. asks sv c (ShowUser u))"
| "go_ok sv ps (Serve c ShowGlobal) \<longleftrightarrow> asks sv c ShowRoot"
| "go_ok sv ps (Serve c (ShowUids g)) \<longleftrightarrow> asks sv c ShowRoot"
| "go_ok sv ps (Serve c (ShowUsers g us vs)) \<longleftrightarrow> asks sv c ShowRoot"
| "go_ok sv ps (Serve c (Answered resp)) \<longleftrightarrow>
     (\<forall>add t domains ips. asks sv c (Change add t domains ips) \<and> resp_ok resp \<longrightarrow>
        (\<exists>k < length ps. job_of (ps ! k) = change_job c add t domains ips \<and> phase (ps ! k) = Finished None))"
| "go_ok sv ps (Refresh ws (Some k) es) \<longleftrightarrow> k < length ps"
| "go_ok sv ps g \<longleftrightarrow> True"

lemma daemon_stepE:
  assumes "daemon_step sv i s = Some s'"
  obtains g sys l where "i < length (dm_gos s)"
    "go_step sv (dm_gos s ! i) (dm_sys s) (dm_limiter s) = Some (g, sys, l)"
    "s' = \<lparr>dm_sys = sys, dm_limiter = l, dm_gos = (dm_gos s)[i := g]\<rparr>"
  using assms by (auto simp: daemon_step_def split: if_splits option.splits)

lemma run_daemon_keeps:
  assumes "\<And>s i s'. P s \<Longrightarrow> daemon_step sv i s = Some s' \<Longrightarrow> P s'" "P s"
  shows "P (run_daemon sv is s)"
  using assms(2) by (induction "is" arbitrary: s) (auto intro: assms(1) split: option.split)

lemma run_daemon_append: "run_daemon sv (xs @ ys) s = run_daemon sv ys (run_daemon sv xs s)"
  by (induction sv xs s rule: run_daemon.induct) simp_all

text \<open>A step of a goroutine leaves the engine alone, begins a call, or moves the call it waits for.\<close>

lemma go_step_cases:
  assumes "go_step sv g s l = Some (g', s', l')" "go_ok sv (procs s) g"
  obtains
    (local) "s' = s" "\<And>k. owns k g' \<Longrightarrow> owns k g"
  | (begins) q where "s' = spawn q s" "may_spawn sv g q" "l' = l"
      "owns (length (procs s)) g'" "\<And>k. \<not> owns k g"
  | (moves) k where "move (eng_cfg sv) k s = Some s'" "owns k g" "\<And>j. owns j g' \<longleftrightarrow> k = j" "l' = l"
proof (cases g)
  case (Serve c a)
  then obtain a' where step: "conn_step sv c a s l = Some (a', s', l')" "g' = Serve c a'"
    using assms(1) by (auto split: option.splits)
  show ?thesis
  proof (cases a)
    case (Dispatching cred req)
    show ?thesis
    proof (cases "begin_dispatch sv cred req")
      case (Change add t domains ips)
      then have "asks sv c (Change add t domains ips)" using assms(2) Serve Dispatching by (simp add: asks_def)
      then show ?thesis
        using step Serve Dispatching Change by (intro begins [of "change_job c add t domains ips"]) auto
    qed (use step Serve Dispatching local in auto)
  next
    case (Mutating k add t domains ips nm)
    then show ?thesis using step Serve local moves [of k]
      by (cases "done_phase (phase (procs s ! k))") (auto simp: waiting_steps split: option.splits)
  next
    case (ShowUsers gl us vs)
    then show ?thesis using step Serve local by (cases us) (auto split: sum.splits)
  qed (use step Serve local in \<open>auto split: option.splits sum.splits prod.splits bool.splits\<close>)
next
  case (Refresh ws ko es)
  show ?thesis
  proof (cases "(sv, ws, ko, es, s)" rule: refresh_step.cases)
    case (3 sv' ws' k es' s0)
    then show ?thesis using assms(1) Refresh local moves [of k]
      by (cases "done_phase (phase (procs s ! k))") (auto simp: waiting_steps split: option.splits)
  qed (use assms(1) Refresh local begins in auto)
qed

lemma daemon_step_cases:
  assumes "daemon_step sv i s = Some s'" "\<forall>g \<in> set (dm_gos s). go_ok sv (procs (dm_sys s)) g"
  obtains
    (local) "dm_sys s' = dm_sys s"
  | (begins) q where "dm_sys s' = spawn q (dm_sys s)" "i < length (dm_gos s)" "may_spawn sv (dm_gos s ! i) q"
  | (moves) k where "move (eng_cfg sv) k (dm_sys s) = Some (dm_sys s')"
  using assms(1)
proof (cases rule: daemon_stepE)
  case (1 g sys l)
  have "go_ok sv (procs (dm_sys s)) (dm_gos s ! i)" using 1(1) assms(2) by simp
  from 1(2) this show ?thesis by (cases rule: go_step_cases) (use 1 local begins moves in auto)
qed

section \<open>Goroutines and processes\<close>

text \<open>What happens to the processes of the engine while others run\<close>

definition extends :: "process list \<Rightarrow> process list \<Rightarrow> bool" where
  "extends ps ps' \<longleftrightarrow> length ps \<le> length ps' \<and>
     (\<forall>k < length ps. job_of (ps' ! k) = job_of (ps ! k) \<and> (done_phase (phase (ps ! k)) \<longrightarrow> phase (ps' ! k) = phase (ps ! k)))"

lemma extends_refl [simp]: "extends ps ps"
  by (simp add: extends_def)

lemma spawn_sel [simp]:
  "procs (spawn q s) = procs s @ [\<lparr>job_of = q, phase = Ready\<rparr>]" "eng_of (spawn q s) = eng_of s" "mu (spawn q s) = mu s"
  by (simp_all add: spawn_def)

lemma extends_spawn: "extends (procs s) (procs (spawn q s))"
  by (auto simp: extends_def nth_append)

lemma move_done: "move cfg k s = Some s' \<Longrightarrow> \<not> done_phase (phase (procs s ! k))"
  using turn_None [of cfg k "job_of (procs s ! k)" "phase (procs s ! k)" "eng_of s" "mu s"]
  by (auto elim!: move_SomeE)

lemma extends_move: "move cfg k s = Some s' \<Longrightarrow> extends (procs s) (procs s')"
  using move_done [of cfg k s s'] by (auto elim!: move_SomeE simp: extends_def nth_list_update)

lemma go_ok_extends: "extends ps ps' \<Longrightarrow> go_ok sv ps g \<Longrightarrow> go_ok sv ps' g"
proof (cases "(sv, ps, g)" rule: go_ok.cases)
  case (8 sv' ps0 c resp)
  assume e: "extends ps ps'" and ok: "go_ok sv ps g"
  have "\<exists>k < length ps'. job_of (ps' ! k) = q \<and> phase (ps' ! k) = Finished None"
    if old: "\<exists>k < length ps. job_of (ps ! k) = q \<and> phase (ps ! k) = Finished None" for q
  proof -
    obtain k where "k < length ps" "job_of (ps ! k) = q" "phase (ps ! k) = Finished None" using old by blast
    then show ?thesis using e by (intro exI [of _ k]) (simp add: extends_def)
  qed
  then show ?thesis using ok 8 by simp
qed (auto simp: extends_def)

lemma go_step_extends:
  assumes "go_step sv g s l = Some (g', s', l')" "go_ok sv (procs s) g"
  shows "extends (procs s) (procs s')"
  using assms by (cases rule: go_step_cases) (auto intro: extends_move simp: extends_spawn [unfolded spawn_sel])

text \<open>A goroutine stays in order while it runs itself.\<close>

lemma go_step_go_ok:
  assumes "go_step sv g s l = Some (g', s', l')" "go_ok sv (procs s) g"
  shows "go_ok sv (procs s') g'"
proof (cases g)
  case (Serve c a)
  then obtain a' where step: "conn_step sv c a s l = Some (a', s', l')" "g' = Serve c a'"
    using assms(1) by (auto split: option.splits)
  show ?thesis
  proof (cases a)
    case (Dispatching cred req)
    then have asked: "asks sv c b \<longleftrightarrow> b = begin_dispatch sv cred req" for b
      using assms(2) Serve by (auto simp: asks_def)
    show ?thesis using step Dispatching by (cases "begin_dispatch sv cred req") (auto simp: asked)
  next
    case (Mutating k add t domains ips nm)
    have ok: "asks sv c (Change add t domains ips)" "k < length (procs s)"
      "job_of (procs s ! k) = change_job c add t domains ips"
      using assms(2) Serve Mutating by simp_all
    show ?thesis
    proof (cases "done_phase (phase (procs s ! k))")
      case True
      then show ?thesis using step ok Mutating
        by (cases "phase (procs s ! k)")
          (auto simp: waiting_steps change_reply_def asks_def split: option.splits)
    next
      case False
      then have m: "move (eng_cfg sv) k s = Some s'" "a' = Mutating k add t domains ips
          (if phase (procs s ! k) = Ready then job_counts (job_of (procs s ! k)) (disk_of (eng_of s)) else nm)"
        using step(1) by (auto simp: Mutating waiting_steps split: option.splits)
      from extends_move [OF m(1)] show ?thesis using ok m step(2) by (auto simp: extends_def)
    qed
  next
    case (ShowUsers gl us vs)
    then show ?thesis using step Serve assms(2) by (cases us) (auto simp: asks_def split: sum.splits option.splits)
  qed (use step Serve assms(2) in \<open>auto simp: asks_def split: option.splits sum.splits prod.splits bool.splits\<close>)
next
  case (Refresh ws ko es)
  show ?thesis
  proof (cases "(sv, ws, ko, es, s)" rule: refresh_step.cases)
    case (3 sv' ws' k es' s0)
    then show ?thesis using assms Refresh
      by (cases "done_phase (phase (procs s ! k))") (auto dest: extends_move simp: waiting_steps extends_def split: option.splits)
  qed (use assms Refresh in auto)
qed

definition gos_ok :: "'b service \<Rightarrow> 'b daemon \<Rightarrow> bool" where
  "gos_ok sv s \<longleftrightarrow> (\<forall>g \<in> set (dm_gos s). go_ok sv (procs (dm_sys s)) g)"

lemma daemon_step_gos_ok:
  assumes "gos_ok sv s" "daemon_step sv i s = Some s'"
  shows "gos_ok sv s'"
  using assms(2)
proof (cases rule: daemon_stepE)
  case (1 g sys l)
  have ok: "go_ok sv (procs (dm_sys s)) (dm_gos s ! i)" using 1(1) assms(1) by (simp add: gos_ok_def)
  note e = go_step_extends [OF 1(2) ok] and new = go_step_go_ok [OF 1(2) ok]
  show ?thesis
    using assms(1) go_ok_extends [OF e] new
    by (auto simp: gos_ok_def 1(3) dest!: set_update_subset_insert [THEN subsetD])
qed

lemma serving_gos_ok: "gos_ok sv (serving cs ws s)"
  by (auto simp: gos_ok_def serving_def)

lemma run_gos_ok: "gos_ok sv s \<Longrightarrow> gos_ok sv (run_daemon sv is s)"
  using run_daemon_keeps [where P = "gos_ok sv"] daemon_step_gos_ok by blast

text \<open>The calls of the engine come from the goroutines.\<close>

lemma go_step_may_spawn:
  assumes "go_step sv g s l = Some (g', s', l')" "may_spawn sv g' q"
  shows "may_spawn sv g q"
proof (cases g)
  case (Serve c a)
  then show ?thesis using assms by (auto split: option.splits)
next
  case (Refresh ws ko es)
  show ?thesis
  proof (cases "(sv, ws, ko, es, s)" rule: refresh_step.cases)
    case (3 sv' ws' k es' s0)
    then show ?thesis using assms Refresh
      by (cases "done_phase (phase (procs s ! k))") (auto simp: waiting_steps split: option.splits)
  qed (use assms Refresh in auto)
qed

definition jobs_in :: "'b service \<Rightarrow> (job \<Rightarrow> bool) \<Rightarrow> 'b daemon \<Rightarrow> bool" where
  "jobs_in sv P s \<longleftrightarrow> (\<forall>p \<in> set (procs (dm_sys s)). P (job_of p)) \<and>
     (\<forall>g \<in> set (dm_gos s). \<forall>q. may_spawn sv g q \<longrightarrow> P q)"

lemma move_jobs: "move cfg k s = Some s' \<Longrightarrow> map job_of (procs s') = map job_of (procs s)"
  by (auto elim!: move_SomeE simp: map_update list_update_same_conv)

lemma daemon_step_jobs_in:
  assumes "jobs_in sv P s" "gos_ok sv s" "daemon_step sv i s = Some s'"
  shows "jobs_in sv P s'"
proof -
  have new: "\<forall>g \<in> set (dm_gos s'). \<forall>q. may_spawn sv g q \<longrightarrow> P q"
    using assms(3)
  proof (cases rule: daemon_stepE)
    case (1 g sys l)
    have "dm_gos s ! i \<in> set (dm_gos s)" using 1(1) by simp
    then have "\<forall>q. may_spawn sv g q \<longrightarrow> P q"
      using assms(1) go_step_may_spawn [OF 1(2)] unfolding jobs_in_def by blast
    then show ?thesis using assms(1) by (auto simp: jobs_in_def 1(3) dest!: set_update_subset_insert [THEN subsetD])
  qed
  have "\<forall>p \<in> set (procs (dm_sys s')). P (job_of p)"
    using assms(3) assms(2) [unfolded gos_ok_def]
  proof (cases rule: daemon_step_cases)
    case (begins q)
    have "dm_gos s ! i \<in> set (dm_gos s)" using begins(2) by simp
    then have "P q" using assms(1) begins(3) unfolding jobs_in_def by blast
    then show ?thesis using assms(1) begins(1) by (simp add: jobs_in_def)
  next
    case (moves k)
    have "list_all P (map job_of (procs (dm_sys s')))"
      using move_jobs [OF moves] assms(1) by (simp add: jobs_in_def list_all_iff)
    then show ?thesis by (simp add: list_all_iff)
  qed (use assms(1) in \<open>simp add: jobs_in_def\<close>)
  then show ?thesis using new by (simp add: jobs_in_def)
qed

lemma run_jobs_in:
  assumes "jobs_in sv P s" "gos_ok sv s"
  shows "jobs_in sv P (run_daemon sv is s)"
  using run_daemon_keeps [where P = "\<lambda>s. jobs_in sv P s \<and> gos_ok sv s"] assms daemon_step_jobs_in daemon_step_gos_ok
  by blast

text \<open>A goroutine serves the connection it was started with.\<close>

lemma daemon_step_conn:
  assumes "daemon_step sv j s = Some s'" "i < length (dm_gos s)" "\<exists>a. dm_gos s ! i = Serve c a"
  shows "i < length (dm_gos s') \<and> (\<exists>a. dm_gos s' ! i = Serve c a)"
  using assms(1)
proof (cases rule: daemon_stepE)
  case (1 g sys l)
  then show ?thesis using assms(2,3) by (cases "j = i") (auto split: option.splits)
qed

lemma run_daemon_conn:
  assumes "i < length (dm_gos s)" "dm_gos s ! i = Serve c a"
  shows "i < length (dm_gos (run_daemon sv is s)) \<and> (\<exists>a'. dm_gos (run_daemon sv is s) ! i = Serve c a')"
  by (rule run_daemon_keeps [where P = "\<lambda>s. i < length (dm_gos s) \<and> (\<exists>a. dm_gos s ! i = Serve c a)"])
    (use daemon_step_conn assms in blast)+

lemma serving_conn:
  assumes "j < length cs"
  shows "Suc j < length (dm_gos (serving cs ws s))" "dm_gos (serving cs ws s) ! Suc j = Serve (cs ! j) Arrived"
  using assms by (simp_all add: serving_def)

end
