(* ===== verification/Concurrent_Daemon.thy ===== *)
theory Concurrent_Daemon
  imports Concurrent_Server
begin

text \<open>
  What holds for the daemon under every schedule of its goroutines: a list changes only for
  its owner and root; no goroutine is stuck or runs forever; once all are through, the kernel
  drops what the lists ask for, unless a caller was told of a failure; an address whose
  addition was answered with OK is blocked from then on; and \<open>show\<close> returns lists that were
  stored while it ran. A connection that nobody interrupts is served as in \<open>Server\<close>.
\<close>

section \<open>Who changes a list\<close>

lemma asks_change:
  assumes "asks sv c (Change add t domains ips)"
  obtains cred req where "conn_cred c = Some cred" "conn_request c = Some req"
    "ResolveScope (user_names sv) (target_user req) cred = Inr t"
    "normalize_and_validate (unicode_lower sv) (req_domains req) (req_ips req) = Inr (domains, ips)"
    "req_action req = (if add then action_add else action_remove)" "req_version req \<le> proto_version"
  using assms
  by (auto simp: asks_def begin_dispatch_def begin_table_def begin_mutate_def begin_show_def begin_status_def
      split: option.splits if_splits sum.splits)

lemma asks_show_user:
  assumes "asks sv c (ShowUser u)"
  obtains cred where "conn_cred c = Some cred" "\<not> IsRoot cred" "u = uid_int cred"
  using assms
  by (auto simp: asks_def begin_dispatch_def begin_table_def begin_mutate_def begin_show_def begin_status_def
      split: option.splits if_splits sum.splits)

lemma stranger_job:
  assumes "may_spawn sv g q" "\<forall>c a. g = Serve c a \<longrightarrow> stranger t c"
  shows "\<not> is_about q t"
proof (cases g)
  case (Serve c a)
  then obtain add s domains ips where q: "asks sv c (Change add s domains ips)" "q = change_job c add s domains ips"
    using assms(1) by auto
  from q(1) obtain cred req where c: "conn_cred c = Some cred"
    "ResolveScope (user_names sv) (target_user req) cred = Inr s" and "conn_request c = Some req"
    by (rule asks_change)
  have "\<not> IsRoot cred" "\<not> same_scope (UserScope (uid_int cred)) t"
    using assms(2) Serve c(1) by (auto simp: stranger_def)
  then show ?thesis using c(2) by (auto simp: q(2) change_job_def user_scope_only split: if_splits)
next
  case (Refresh ws k es)
  then show ?thesis using assms(1) by auto
qed

lemma move_frame:
  assumes "move cfg k s = Some s'" "\<forall>p \<in> set (procs s). \<not> is_about (job_of p) t"
  shows "content (disk_of (eng_of s')) t = content (disk_of (eng_of s)) t"
  using schedule_frame [OF assms(2), of cfg "[k]"] assms(1) by simp

lemma daemon_step_frame:
  assumes "jobs_in sv (\<lambda>q. \<not> is_about q t) s" "gos_ok sv s" "daemon_step sv i s = Some s'"
  shows "content (disk_of (eng_of (dm_sys s'))) t = content (disk_of (eng_of (dm_sys s))) t"
  using assms(3) assms(2) [unfolded gos_ok_def]
  by (cases rule: daemon_step_cases) (use assms(1) move_frame in \<open>auto simp: jobs_in_def\<close>)

theorem concurrent_frame:
  assumes "jobs_in sv (\<lambda>q. \<not> is_about q t) s" "gos_ok sv s"
  shows "content (disk_of (eng_of (dm_sys (run_daemon sv is s)))) t = content (disk_of (eng_of (dm_sys s))) t"
  using run_daemon_keeps [where P = "\<lambda>x. jobs_in sv (\<lambda>q. \<not> is_about q t) x \<and> gos_ok sv x \<and>
      content (disk_of (eng_of (dm_sys x))) t = content (disk_of (eng_of (dm_sys s))) t"]
    daemon_step_frame daemon_step_jobs_in daemon_step_gos_ok assms by (metis (no_types, lifting))

lemma serving_jobs_in:
  assumes "\<And>c add t domains ips. c \<in> set cs \<Longrightarrow> asks sv c (Change add t domains ips) \<Longrightarrow> P (change_job c add t domains ips)"
    and "\<And>w. w \<in> set ws \<Longrightarrow> P (io_first w, w, RefreshReq ResolveExpired)"
  shows "jobs_in sv P (serving cs ws s)"
  using assms by (auto simp: jobs_in_def serving_def start_sys_def)

theorem strangers_concurrently:
  assumes "\<forall>c \<in> set cs. stranger t c" "run_daemon sv is (serving cs ws s) = s'"
  shows "content (disk_of (eng_of (dm_sys s'))) t = content (disk_of (srv_engine s)) t"
proof -
  have "jobs_in sv (\<lambda>q. \<not> is_about q t) (serving cs ws s)"
  proof (rule serving_jobs_in)
    show "\<not> is_about (change_job c add t' domains ips) t"
      if "c \<in> set cs" "asks sv c (Change add t' domains ips)" for c add t' domains ips
      using stranger_job [of sv "Serve c Arrived" "change_job c add t' domains ips" t] that assms(1) by auto
  qed simp
  from concurrent_frame [OF this serving_gos_ok, of "is"] assms(2) show ?thesis
    by (simp add: serving_def start_sys_def flip: assms(2))
qed

section \<open>Progress\<close>

text \<open>A goroutine that is through; the refresh loop is when there are no more ticks\<close>

fun go_done :: "goroutine \<Rightarrow> bool" where
  "go_done (Serve c (Answered resp)) \<longleftrightarrow> True"
| "go_done (Refresh [] None es) \<longleftrightarrow> True"
| "go_done g \<longleftrightarrow> False"

definition daemon_done :: "'b daemon \<Rightarrow> bool" where
  "daemon_done s \<longleftrightarrow> list_all go_done (dm_gos s)"

text \<open>Somebody was told that changes could not be applied, or the refresh loop has logged it.\<close>

fun complained :: "goroutine \<Rightarrow> bool" where
  "complained (Serve c (Answered resp)) \<longleftrightarrow> resp_error resp = Some ApplyFailed"
| "complained (Refresh ws k es) \<longleftrightarrow> es \<noteq> []"
| "complained g \<longleftrightarrow> False"

definition no_complaint :: "'b daemon \<Rightarrow> bool" where
  "no_complaint s \<longleftrightarrow> list_all (\<lambda>g. \<not> complained g) (dm_gos s)"

text \<open>Every call of the engine that is not through has a goroutine that waits for it, and every failure is heard.\<close>

definition attended :: "'b daemon \<Rightarrow> bool" where
  "attended s \<longleftrightarrow> (\<forall>k < length (procs (dm_sys s)).
     (\<exists>g \<in> set (dm_gos s). owns k g) \<or>
     done_phase (phase (procs (dm_sys s) ! k)) \<and>
       (failed_phase (phase (procs (dm_sys s) ! k)) \<longrightarrow> (\<exists>g \<in> set (dm_gos s). complained g)))"

lemma go_step_keeps_complaint: "go_step sv g s l = Some (g', s', l') \<Longrightarrow> complained g \<Longrightarrow> complained g'"
proof (cases g)
  case (Refresh ws k es)
  assume "go_step sv g s l = Some (g', s', l')" "complained g"
  then show ?thesis using Refresh
    by (cases "(sv, ws, k, es, s)" rule: refresh_step.cases)
      (cases "done_phase (phase (procs s ! the k))"; auto simp: waiting_steps split: option.splits)+
next
  case (Serve c a)
  assume "go_step sv g s l = Some (g', s', l')" "complained g"
  then show ?thesis using Serve by (cases a) auto
qed

text \<open>A goroutine stops waiting only when its call is through, and passes on a failure.\<close>

lemma go_step_release:
  assumes "go_step sv g s l = Some (g', s', l')" "owns k g" "\<not> owns k g'"
  shows "s' = s" "done_phase (phase (procs s ! k))" "failed_phase (phase (procs s ! k)) \<Longrightarrow> complained g'"
proof -
  have "s' = s \<and> done_phase (phase (procs s ! k)) \<and> (failed_phase (phase (procs s ! k)) \<longrightarrow> complained g')"
  proof (cases "(k, g)" rule: owns.cases)
    case (1 k' c j add t domains ips nm)
    then show ?thesis using assms
      by (cases "phase (procs s ! k)") (auto simp: waiting_steps change_reply_def split: option.splits)
  next
    case (2 k' ws j es)
    then show ?thesis using assms
      by (cases "phase (procs s ! k)") (auto simp: waiting_steps split: option.splits)
  qed (use assms in auto)
  then show "s' = s" "done_phase (phase (procs s ! k))" "failed_phase (phase (procs s ! k)) \<Longrightarrow> complained g'"
    by blast+
qed

lemma go_step_new:
  assumes "go_step sv g s l = Some (g', s', l')" "go_ok sv (procs s) g" "k < length (procs s')"
  shows "k < length (procs s) \<or> owns k g'"
  using assms(1,2)
proof (cases rule: go_step_cases)
  case (begins q)
  then show ?thesis using assms(3) by (cases "k = length (procs s)") simp_all
next
  case (moves j)
  from moves(1) have "length (procs s') = length (procs s)" by (rule move_SomeE) simp
  then show ?thesis using assms(3) by simp
qed (use assms(3) in simp)

lemma step_attended:
  assumes "attended s" "gos_ok sv s" "daemon_step sv i s = Some s'"
  shows "attended s'"
  using assms(3)
proof (cases rule: daemon_stepE)
  case (1 g sys l)
  let ?g = "dm_gos s ! i"
  have ok: "go_ok sv (procs (dm_sys s)) ?g" using 1(1) assms(2) by (simp add: gos_ok_def)
  have new: "g \<in> set (dm_gos s')" using 1(1) by (simp add: 1(3) set_update_memI)
  have keep: "h \<in> set (dm_gos s') \<or> h = ?g" if h: "h \<in> set (dm_gos s)" for h
  proof -
    obtain j where "j < length (dm_gos s)" "dm_gos s ! j = h" using h by (auto simp: in_set_conv_nth)
    then show ?thesis using 1(1) nth_mem [of j "dm_gos s'"] by (cases "j = i") (auto simp: 1(3))
  qed
  have complaint: "\<exists>h \<in> set (dm_gos s'). complained h" if "\<exists>h \<in> set (dm_gos s). complained h"
    using that keep new go_step_keeps_complaint [OF 1(2)] by blast
  show ?thesis unfolding attended_def
  proof (intro allI impI)
    fix k assume k: "k < length (procs (dm_sys s'))"
    then have k': "k < length (procs (dm_sys s)) \<or> owns k g" using go_step_new [OF 1(2) ok] by (simp add: 1(3))
    show "(\<exists>g \<in> set (dm_gos s'). owns k g) \<or>
      done_phase (phase (procs (dm_sys s') ! k)) \<and>
        (failed_phase (phase (procs (dm_sys s') ! k)) \<longrightarrow> (\<exists>g \<in> set (dm_gos s'). complained g))"
    proof (cases "\<exists>h \<in> set (dm_gos s'). owns k h")
      case False
      then have old: "k < length (procs (dm_sys s))" and no: "\<not> owns k g" using k' new by auto
      have same: "done_phase (phase (procs (dm_sys s) ! k)) \<Longrightarrow> phase (procs (dm_sys s') ! k) = phase (procs (dm_sys s) ! k)"
        using go_step_extends [OF 1(2) ok] old by (simp add: extends_def 1(3))
      show ?thesis
      proof (cases "\<exists>h \<in> set (dm_gos s). owns k h")
        case True
        then have own: "owns k ?g" using False keep by blast
        show ?thesis using go_step_release [OF 1(2) own no] same new by auto
      next
        case False
        then show ?thesis using assms(1) old same complaint unfolding attended_def by metis
      qed
    qed simp
  qed
qed

lemma serving_attended: "attended (serving cs ws s)"
  by (simp add: attended_def serving_def start_sys_def)

text \<open>What holds in every state of a daemon that began to serve with the given connections and ticks\<close>

definition reached :: "'b service \<Rightarrow> 'b daemon \<Rightarrow> bool" where
  "reached sv s \<longleftrightarrow> gos_ok sv s \<and> attended s \<and> exclusive (dm_sys s)"

lemma spawn_exclusive: "exclusive s \<Longrightarrow> exclusive (spawn q s)"
proof -
  assume ex: "exclusive s"
  have "i < length (procs (spawn q s)) \<and> in_section (phase (procs (spawn q s) ! i)) \<longleftrightarrow>
      i < length (procs s) \<and> in_section (phase (procs s ! i))" for i
    by (cases "i < length (procs s)"; cases "i = length (procs s)") (auto simp: nth_append)
  then show ?thesis using ex by (simp add: exclusive_def)
qed

lemma step_exclusive:
  assumes "exclusive (dm_sys s)" "gos_ok sv s" "daemon_step sv i s = Some s'"
  shows "exclusive (dm_sys s')"
  using assms(3) assms(2) [unfolded gos_ok_def]
  by (cases rule: daemon_step_cases) (use assms(1) spawn_exclusive move_exclusive in auto)

lemma step_reached: "reached sv s \<Longrightarrow> daemon_step sv i s = Some s' \<Longrightarrow> reached sv s'"
  unfolding reached_def using daemon_step_gos_ok step_attended step_exclusive by blast

lemma serving_reached: "reached sv (serving cs ws s)"
proof -
  have "exclusive (dm_sys (serving cs ws s))" using start_exclusive [of "[]" "srv_engine s"] by (simp add: serving_def)
  then show ?thesis by (simp add: reached_def serving_gos_ok serving_attended)
qed

lemma run_reached: "reached sv s \<Longrightarrow> reached sv (run_daemon sv is s)"
  using run_daemon_keeps [where P = "reached sv"] step_reached by blast

text \<open>There is no deadlock: unless all goroutines are through, one of them can move.\<close>

lemma owner_moves:
  assumes "owns k g" "done_phase (phase (procs s ! k)) \<or> move (eng_cfg sv) k s \<noteq> None"
  shows "go_step sv g s l \<noteq> None"
  using assms
  by (cases "(k, g)" rule: owns.cases; cases "done_phase (phase (procs s ! k))")
    (auto simp: waiting_steps split: option.splits)

lemma idle_moves:
  assumes "\<not> go_done g" "\<And>k. \<not> owns k g"
  shows "go_step sv g s l \<noteq> None"
proof (cases g)
  case (Serve c a)
  have "conn_step sv c a s l \<noteq> None"
  proof (cases a)
    case (Mutating k add t domains ips nm)
    then show ?thesis using assms(2) [of k] Serve by simp
  next
    case (ShowUsers gl us vs)
    then show ?thesis by (cases us) (auto split: sum.split)
  qed (use assms(1) Serve in \<open>auto split: option.split sum.split prod.split bool.split begin_result.split\<close>)
  then show ?thesis using Serve by (auto split: option.split)
next
  case (Refresh ws k es)
  show ?thesis
  proof (cases k)
    case None
    then show ?thesis using Refresh assms(1) by (cases ws) auto
  next
    case (Some j)
    then show ?thesis using Refresh assms(2) [of j] by simp
  qed
qed

theorem daemon_progress:
  assumes "reached sv s" "\<not> daemon_done s"
  shows "\<exists>i s'. daemon_step sv i s = Some s'"
proof -
  have can: "\<exists>i s'. daemon_step sv i s = Some s'"
    if g: "g \<in> set (dm_gos s)" "go_step sv g (dm_sys s) (dm_limiter s) \<noteq> None" for g
  proof -
    obtain i where "i < length (dm_gos s)" "dm_gos s ! i = g" using g(1) by (auto simp: in_set_conv_nth)
    then show ?thesis using g(2) by (intro exI [of _ i]) (auto simp: daemon_step_def)
  qed
  obtain g where g: "g \<in> set (dm_gos s)" "\<not> go_done g" using assms(2) by (auto simp: daemon_done_def list_all_iff)
  show ?thesis
  proof (cases "\<exists>k. owns k g")
    case False
    then show ?thesis using can [OF g(1)] idle_moves [OF g(2)] by blast
  next
    case True
    then obtain k where k: "owns k g" by blast
    have len: "k < length (procs (dm_sys s))"
      using assms(1) g(1) k by (cases "(k, g)" rule: owns.cases) (auto simp: reached_def gos_ok_def)
    show ?thesis
    proof (cases "mu (dm_sys s)")
      case None
      then have "done_phase (phase (procs (dm_sys s) ! k)) \<or> move (eng_cfg sv) k (dm_sys s) \<noteq> None"
        using len by (auto simp: move_def turn_None split: option.split)
      from can [OF g(1) owner_moves [OF k this]] show ?thesis .
    next
      case (Some m)
      then have m: "m < length (procs (dm_sys s))" "in_section (phase (procs (dm_sys s) ! m))"
        using assms(1) by (auto simp: reached_def exclusive_def)
      then have run: "\<not> done_phase (phase (procs (dm_sys s) ! m))" "\<not> waiting (phase (procs (dm_sys s) ! m))"
        by (cases "phase (procs (dm_sys s) ! m)"; simp)+
      then obtain h where h: "h \<in> set (dm_gos s)" "owns m h"
        using assms(1) m(1) by (auto simp: reached_def attended_def)
      have "move (eng_cfg sv) m (dm_sys s) \<noteq> None"
        using m(1) run by (auto simp: move_def turn_None split: option.split)
      then show ?thesis using can [OF h(1) owner_moves [OF h(2)]] by blast
    qed
  qed
qed

text \<open>No schedule makes progress forever.\<close>

fun go_rank :: "goroutine \<Rightarrow> nat \<times> nat" where
  "go_rank (Serve c Arrived) = (6, 0)"
| "go_rank (Serve c (Dispatching cred req)) = (5, 0)"
| "go_rank (Serve c ShowGlobal) = (4, 0)"
| "go_rank (Serve c (ShowUids g)) = (3, 0)"
| "go_rank (Serve c (ShowUsers g us vs)) = (2, length us)"
| "go_rank (Serve c (ShowOwn u)) = (2, 0)"
| "go_rank (Serve c (ShowOwnGlobal own)) = (1, 0)"
| "go_rank (Serve c (Mutating k add t domains ips nm)) = (1, 0)"
| "go_rank (Serve c (Answered resp)) = (0, 0)"
| "go_rank (Refresh ws None es) = (2 * length ws, 0)"
| "go_rank (Refresh ws (Some k) es) = (2 * length ws + 1, 0)"

lemma go_step_rank:
  assumes "go_step sv g s l = Some (g', s', l')"
  shows "(go_rank g', go_rank g) \<in> less_than <*lex*> less_than \<or>
    go_rank g' = go_rank g \<and> (\<exists>k. move (eng_cfg sv) k s = Some s')"
proof (cases g)
  case (Serve c a)
  then obtain a' where step: "conn_step sv c a s l = Some (a', s', l')" "g' = Serve c a'"
    using assms by (auto split: option.splits)
  show ?thesis
  proof (cases a)
    case (Mutating k add t domains ips nm)
    then show ?thesis using step Serve
      by (cases "done_phase (phase (procs s ! k))") (auto simp: waiting_steps split: option.splits)
  next
    case (ShowUsers gl us vs)
    then show ?thesis using step Serve by (cases us) (auto split: sum.splits)
  next
    case (Dispatching cred req)
    then show ?thesis using step Serve by (cases "begin_dispatch sv cred req") auto
  qed (use step Serve in \<open>auto split: option.splits sum.splits prod.splits bool.splits\<close>)
next
  case (Refresh ws ko es)
  show ?thesis
  proof (cases "(sv, ws, ko, es, s)" rule: refresh_step.cases)
    case (3 sv' ws' k es' s0)
    then show ?thesis using assms Refresh
      by (cases "done_phase (phase (procs s ! k))") (auto simp: waiting_steps split: option.splits)
  qed (use assms Refresh in auto)
qed

lemma move_listrel:
  assumes "move cfg i s = Some s'"
  shows "(map phase (procs s'), map phase (procs s)) \<in> listrel1 closer"
  using assms
proof (cases rule: move_SomeE)
  case (1 p ph eng m)
  have "map phase (procs s') = (map phase (procs s))[i := ph]" by (simp add: 1(4) map_update)
  then show ?thesis using listrel1_update [of ph "map phase (procs s)" i closer] turn_closer [OF 1(3)] 1(1,2) by simp
qed

theorem daemon_schedules_end: "wfp (\<lambda>s' s. \<exists>i. daemon_step sv i s = Some s')"
proof -
  let ?r = "listrel1 (less_than <*lex*> less_than) <*lex*> listrel1 closer"
  let ?f = "\<lambda>s. (map go_rank (dm_gos s), map phase (procs (dm_sys s)))"
  have "wf ?r" by (intro wf_lex_prod) (simp_all add: wf_listrel1_iff closer_def wf_lex_prod)
  then have w: "wf (inv_image ?r ?f)" by (rule wf_inv_image)
  have "(s', s) \<in> inv_image ?r ?f" if step: "daemon_step sv i s = Some s'" for s s' i
    using step
  proof (cases rule: daemon_stepE)
    case (1 g sys l)
    have ranks: "map go_rank (dm_gos s') = (map go_rank (dm_gos s))[i := go_rank g]" by (simp add: 1(3) map_update)
    from go_step_rank [OF 1(2)] show ?thesis
    proof (elim disjE conjE exE)
      assume "(go_rank g, go_rank (dm_gos s ! i)) \<in> less_than <*lex*> less_than"
      then have "(map go_rank (dm_gos s'), map go_rank (dm_gos s)) \<in> listrel1 (less_than <*lex*> less_than)"
        unfolding ranks using 1(1) listrel1_update [of "go_rank g" "map go_rank (dm_gos s)" i] by simp
      then show ?thesis by simp
    next
      fix k assume same: "go_rank g = go_rank (dm_gos s ! i)" and m: "move (eng_cfg sv) k (dm_sys s) = Some sys"
      have "map go_rank (dm_gos s') = map go_rank (dm_gos s)"
        unfolding ranks using 1(1) same by (simp add: list_update_same_conv)
      then show ?thesis using move_listrel [OF m] by (simp add: 1(3))
    qed
  qed
  then show ?thesis unfolding wfp_def by (intro wf_subset [OF w]) blast
qed

section \<open>No change is lost\<close>

lemma spawn_some_at: "some_at P (spawn q s) \<longleftrightarrow> some_at P s \<or> P Ready"
  by (auto simp: some_at_def)

lemma stale_Ready [simp]: "\<not> stale d Ready"
  by (rule fresh_phases) simp

lemma spawn_nothing_lost: "nothing_lost verdict s \<Longrightarrow> nothing_lost verdict (spawn q s)"
  by (auto simp: nothing_lost_def some_failed_def spawn_some_at)

lemma spawn_sys_ok: "sys_ok be_inv s \<Longrightarrow> request_ok q \<Longrightarrow> sys_ok be_inv (spawn q s)"
  using spawn_exclusive [of s q] by (auto simp: sys_ok_def nth_append less_Suc_eq)

context engine_parts
begin

text \<open>The invariants of the engine's processes, in a daemon with this engine\<close>

definition daemon_inv :: "'b service \<Rightarrow> 'b daemon \<Rightarrow> bool" where
  "daemon_inv sv s \<longleftrightarrow> reached sv s \<and> jobs_in sv request_ok s \<and> sys_ok inv (dm_sys s) \<and> nothing_lost verdict (dm_sys s)"

lemma step_daemon_inv:
  assumes "daemon_inv sv s" "eng_cfg sv = cfg" "daemon_step sv i s = Some s'"
  shows "daemon_inv sv s'"
proof -
  have ok: "gos_ok sv s" using assms(1) by (simp add: daemon_inv_def reached_def)
  have "sys_ok inv (dm_sys s') \<and> nothing_lost verdict (dm_sys s')"
    using assms(3) ok [unfolded gos_ok_def]
  proof (cases rule: daemon_step_cases)
    case (begins q)
    have "dm_gos s ! i \<in> set (dm_gos s)" using begins(2) by simp
    then have "request_ok q" using assms(1) begins(3) unfolding daemon_inv_def jobs_in_def by blast
    then show ?thesis
      using assms(1) spawn_sys_ok spawn_nothing_lost unfolding daemon_inv_def begins(1) by blast
  next
    case (moves k)
    then show ?thesis using assms(1,2) move_ok move_nothing_lost unfolding daemon_inv_def by blast
  qed (use assms(1) in \<open>simp add: daemon_inv_def\<close>)
  moreover have "reached sv s'" "jobs_in sv request_ok s'"
    using assms(1,3) step_reached daemon_step_jobs_in ok unfolding daemon_inv_def by blast+
  ultimately show ?thesis by (simp add: daemon_inv_def)
qed

lemma run_daemon_inv:
  assumes "daemon_inv sv s" "eng_cfg sv = cfg"
  shows "daemon_inv sv (run_daemon sv is s)"
  using run_daemon_keeps [where P = "daemon_inv sv"] assms step_daemon_inv by blast

lemma serving_daemon_inv:
  assumes "engine_inv inv (srv_engine s)" "\<forall>c \<in> set cs. conn_ok sv c" "\<forall>w \<in> set ws. world_ok w"
    and "\<forall>x. verdict (be_state (srv_engine s)) x \<longleftrightarrow> desired (disk_of (srv_engine s)) (cache (srv_engine s)) x"
  shows "daemon_inv sv (serving cs ws s)"
proof -
  have "jobs_in sv request_ok (serving cs ws s)"
  proof (rule serving_jobs_in)
    fix c add t domains ips assume c: "c \<in> set cs" "asks sv c (Change add t domains ips)"
    from c(2) show "request_ok (change_job c add t domains ips)"
      by (rule asks_change) (use assms(2) c(1) in \<open>auto simp: change_job_def conn_ok_def call_ok_def request_in_range_def\<close>)
  qed (use assms(3) in simp)
  moreover have "sys_ok inv (dm_sys (serving cs ws s))"
    using start_sys_ok [OF assms(1), of "[]"] by (simp add: serving_def)
  moreover have "nothing_lost verdict (dm_sys (serving cs ws s))"
    using assms(4) by (auto simp: nothing_lost_def some_at_nth serving_def start_sys_def)
  ultimately show ?thesis using serving_reached by (simp add: daemon_inv_def)
qed

text \<open>When all goroutines are through and nobody complained, the kernel is right.\<close>

theorem daemon_enforces:
  assumes "daemon_inv sv s" "daemon_done s" "no_complaint s"
  shows "verdict (be_state (eng_of (dm_sys s))) x \<longleftrightarrow>
    desired (disk_of (eng_of (dm_sys s))) (cache (eng_of (dm_sys s))) x"
proof -
  have no: "\<not> owns k g \<and> \<not> complained g" if "g \<in> set (dm_gos s)" for g k
  proof -
    have "go_done g" "\<not> complained g"
      using that assms(2,3) by (auto simp: daemon_done_def no_complaint_def list_all_iff)
    then show ?thesis by (cases "(k, g)" rule: owns.cases) auto
  qed
  have "done_phase (phase (procs (dm_sys s) ! k)) \<and> \<not> failed_phase (phase (procs (dm_sys s) ! k))"
    if "k < length (procs (dm_sys s))" for k
    using assms(1) that no unfolding daemon_inv_def reached_def attended_def by blast
  moreover have "done_phase ph \<Longrightarrow> \<not> waiting ph \<and> \<not> in_section ph" for ph by (cases ph) simp_all
  ultimately have "\<not> some_failed (dm_sys s)" "\<not> some_at waiting (dm_sys s)" "\<not> some_at in_section (dm_sys s)"
    by (auto simp: some_failed_def some_at_nth)
  then show ?thesis using assms(1) by (simp add: daemon_inv_def nothing_lost_def)
qed

end

end
