(* ===== verification/Go_Duration.thy ===== *)
theory Go_Duration
  imports Go_Strings
begin

text \<open>
  \<open>time.ParseDuration\<close>, with its checks against overflow of \<open>uint64\<close> and the floating-point
  arithmetic of its fractions. The main result: a sum of whole numbers with units, as users
  write durations, is parsed to its value in nanoseconds, for as long as that fits.
\<close>

section \<open>Floating point\<close>

text \<open>
  A positive \<open>float64\<close> as mantissa and exponent, rounded to 53 bits, ties to even. Neither
  overflow nor underflow can matter in \<open>ParseDuration\<close>, so the exponent has no bounds.
\<close>

type_synonym float64 = "nat \<times> int"

fun bit_len :: "nat \<Rightarrow> nat" where
  "bit_len n = (if n = 0 then 0 else Suc (bit_len (n div 2)))"

declare bit_len.simps [simp del]

definition round_div :: "nat \<Rightarrow> nat \<Rightarrow> nat" where
  "round_div n d =
     (let q = n div d; r = n mod d in if d < 2 * r \<or> (d = 2 * r \<and> odd q) then q + 1 else q)"

definition round_ratio :: "nat \<Rightarrow> nat \<Rightarrow> float64" where
  "round_ratio n d =
     (if n = 0 then (0, 0)
      else
        let e0 = int (bit_len n) - int (bit_len d) - 53;
            scaled = (\<lambda>e. (n * 2 ^ nat (- e), d * 2 ^ nat e));
            e = (case scaled e0 of (a, b) \<Rightarrow> if 2 ^ 53 \<le> a div b then e0 + 1 else e0)
        in (case scaled e of (a, b) \<Rightarrow> (round_div a b, e)))"

definition float_of :: "nat \<Rightarrow> float64" where
  "float_of n = round_ratio n 1"

definition float_mult :: "float64 \<Rightarrow> float64 \<Rightarrow> float64" where
  "float_mult x y = (case round_ratio (fst x * fst y) 1 of (m, e) \<Rightarrow> (m, e + snd x + snd y))"

definition float_div :: "float64 \<Rightarrow> float64 \<Rightarrow> float64" where
  "float_div x y = (case round_ratio (fst x) (fst y) of (m, e) \<Rightarrow> (m, e + snd x - snd y))"

definition float_trunc :: "float64 \<Rightarrow> nat" where
  "float_trunc x = (if 0 \<le> snd x then fst x * 2 ^ nat (snd x) else fst x div 2 ^ nat (- snd x))"

section \<open>The parts of a duration\<close>

definition duration_units :: "(string \<times> nat) list" where
  "duration_units =
     [(''ns'', 1), (''us'', 1000), ([CHR 0xC2, CHR 0xB5, CHR ''s''], 1000), ([CHR 0xCE, CHR 0xBC, CHR ''s''], 1000),
      (''ms'', 1000000), (''s'', 1000000000), (''m'', 60000000000), (''h'', 3600000000000)]"

fun leading_int :: "nat \<Rightarrow> string \<Rightarrow> (nat \<times> string) option" where
  "leading_int x [] = Some (x, [])"
| "leading_int x (c # s) =
     (if \<not> is_digit c then Some (x, c # s)
      else if 2 ^ 63 div 10 < x then None
      else let y = x * 10 + digit_val c in if 2 ^ 63 < y then None else leading_int y s)"

text \<open>Digits that no longer fit are read and dropped.\<close>

fun leading_fraction :: "nat \<Rightarrow> float64 \<Rightarrow> bool \<Rightarrow> string \<Rightarrow> nat \<times> float64 \<times> string" where
  "leading_fraction x scale overflow [] = (x, scale, [])"
| "leading_fraction x scale overflow (c # s) =
     (if \<not> is_digit c then (x, scale, c # s)
      else if overflow then leading_fraction x scale True s
      else if (2 ^ 63 - 1) div 10 < x then leading_fraction x scale True s
      else let y = x * 10 + digit_val c in
        if 2 ^ 63 < y then leading_fraction x scale True s
        else leading_fraction y (float_mult scale (float_of 10)) False s)"

definition unit_char :: "char \<Rightarrow> bool" where
  "unit_char c \<longleftrightarrow> c \<noteq> CHR ''.'' \<and> \<not> is_digit c"

text \<open>\<open>(\.[0-9]*)?\<close>: its value, its scale, what is left, and whether there was a digit\<close>

definition fraction_part :: "string \<Rightarrow> nat \<times> float64 \<times> string \<times> bool" where
  "fraction_part s =
     (case s of
        c # t \<Rightarrow>
          if c = CHR ''.'' then
            (case leading_fraction 0 (float_of 1) False t of (f, scale, r) \<Rightarrow> (f, scale, r, length t \<noteq> length r))
          else (0, float_of 1, s, False)
      | [] \<Rightarrow> (0, float_of 1, s, False))"

text \<open>One number with its unit, in nanoseconds, and what is left; sums are those of \<open>uint64\<close>\<close>

definition duration_part :: "string \<Rightarrow> (nat \<times> string) option" where
  "duration_part s =
     (if s = [] \<or> unit_char (hd s) then None
      else
        (case leading_int 0 s of
           None \<Rightarrow> None
         | Some (v, s1) \<Rightarrow>
             (case fraction_part s1 of
                (f, scale, s2, post) \<Rightarrow>
                  if length s = length s1 \<and> \<not> post then None
                  else
                    (case map_of duration_units (takeWhile unit_char s2) of
                       None \<Rightarrow> None
                     | Some unit \<Rightarrow>
                         if 2 ^ 63 div unit < v then None
                         else if f = 0 then Some (v * unit, dropWhile unit_char s2)
                         else
                           let v1 = (v * unit + float_trunc (float_mult (float_of f) (float_div (float_of unit) scale))) mod 2 ^ 64
                           in if 2 ^ 63 < v1 then None else Some (v1, dropWhile unit_char s2)))))"

lemma leading_int_length: "leading_int x s = Some (v, r) \<Longrightarrow> length r \<le> length s"
  by (induction x s rule: leading_int.induct) (auto simp: Let_def split: if_splits)

lemma leading_fraction_length: "leading_fraction x scale b s = (f, sc, r) \<Longrightarrow> length r \<le> length s"
  by (induction x scale b s rule: leading_fraction.induct) (auto simp: Let_def split: if_splits)

lemma duration_part_shorter:
  assumes "duration_part s = Some (v, r)"
  shows "length r < length s"
proof -
  obtain x s1 f scale s2 post u where p: "leading_int 0 s = Some (x, s1)" "fraction_part s1 = (f, scale, s2, post)"
    "map_of duration_units (takeWhile unit_char s2) = Some u" "r = dropWhile unit_char s2"
    using assms by (auto simp: duration_part_def Let_def split: if_splits option.splits prod.splits)
  have 2: "length s2 \<le> length s1"
    using p(2) leading_fraction_length
    by (fastforce simp: fraction_part_def split: list.splits if_splits prod.splits)
  have "takeWhile unit_char s2 \<noteq> []" using p(3) by (auto simp: duration_units_def)
  moreover have "length (takeWhile unit_char s2) + length r = length s2"
    unfolding p(4) by (metis length_append takeWhile_dropWhile_id)
  ultimately have "length r < length s2" by (cases "takeWhile unit_char s2") simp_all
  then show ?thesis using 2 leading_int_length [OF p(1)] by simp
qed

function duration_loop :: "nat \<Rightarrow> string \<Rightarrow> nat option" where
  "duration_loop d s =
     (if s = [] then Some d
      else (case duration_part s of
              None \<Rightarrow> None
            | Some (v, r) \<Rightarrow> let d1 = (d + v) mod 2 ^ 64 in if 2 ^ 63 < d1 then None else duration_loop d1 r))"
  by pat_completeness auto
termination by (relation "measure (\<lambda>(d, s). length s)") (auto simp: duration_part_shorter)

declare duration_loop.simps [simp del]

definition parse_duration :: "string \<Rightarrow> int option" where
  "parse_duration s0 =
     (let neg = (s0 \<noteq> [] \<and> hd s0 = CHR ''-'');
          s = (if s0 \<noteq> [] \<and> (hd s0 = CHR ''-'' \<or> hd s0 = CHR ''+'') then tl s0 else s0)
      in if s = ''0'' then Some 0
         else if s = [] then None
         else (case duration_loop 0 s of
                 None \<Rightarrow> None
               | Some d \<Rightarrow>
                   if neg then Some (- int d)
                   else if 2 ^ 63 - 1 < d then None
                   else Some (int d)))"

section \<open>Properties\<close>

lemma duration_loop_bound: "duration_loop d s = Some n \<Longrightarrow> d \<le> 2 ^ 63 \<Longrightarrow> n \<le> 2 ^ 63"
proof (induction d s rule: duration_loop.induct)
  case (1 d s)
  show ?case
  proof (cases "s = []")
    case True
    then show ?thesis using "1.prems" by (simp add: duration_loop.simps)
  next
    case False
    then obtain v r where v: "duration_part s = Some (v, r)" "\<not> 2 ^ 63 < (d + v) mod 2 ^ 64"
      "duration_loop ((d + v) mod 2 ^ 64) r = Some n"
      using "1.prems"(1) by (subst (asm) duration_loop.simps) (auto simp: Let_def split: option.splits if_splits)
    show ?thesis using "1.IH" [OF False v(1) refl refl] v(2,3) by simp
  qed
qed

text \<open>A parsed duration is a 64-bit number.\<close>

theorem parse_duration_range: "parse_duration s = Some d \<Longrightarrow> go_int d"
  using duration_loop_bound [of 0]
  by (fastforce simp: parse_duration_def go_int_def Let_def split: if_splits option.splits)

text \<open>The text of a whole number with a unit\<close>

definition duration_text :: "nat \<times> string \<Rightarrow> string" where
  "duration_text p = nat_digits (fst p) @ snd p"

definition duration_value :: "nat \<times> string \<Rightarrow> nat" where
  "duration_value p = fst p * the (map_of duration_units (snd p))"

lemma unit_chars: "map_of duration_units u = Some n \<Longrightarrow> u \<noteq> [] \<and> list_all unit_char u \<and> 0 < n"
  by (auto simp: duration_units_def unit_char_def is_digit_def split: if_splits)

lemma leading_int_digits:
  assumes "list_all is_digit ds" "u = [] \<or> \<not> is_digit (hd u)" "foldl (\<lambda>n c. 10 * n + digit_val c) x ds \<le> 2 ^ 63"
  shows "leading_int x (ds @ u) = Some (foldl (\<lambda>n c. 10 * n + digit_val c) x ds, u)"
  using assms
proof (induction ds arbitrary: x)
  case Nil
  then show ?case by (cases u) auto
next
  case (Cons c ds)
  let ?y = "10 * x + digit_val c"
  have mono: "y \<le> foldl (\<lambda>n c. 10 * n + digit_val c) y xs" for y xs
  proof (induction xs arbitrary: y)
    case (Cons a xs)
    have "y \<le> 10 * y + digit_val a" by simp
    also have "\<dots> \<le> foldl (\<lambda>n c. 10 * n + digit_val c) (10 * y + digit_val a) xs" by (rule Cons.IH)
    finally show ?case by simp
  qed simp
  have y: "?y \<le> 2 ^ 63" using mono [of ?y ds] Cons.prems(3) by simp
  then have "\<not> 2 ^ 63 div 10 < x" by simp
  then show ?case using Cons.IH [of ?y] Cons.prems y by (simp add: Let_def mult.commute)
qed

lemma duration_part_text:
  assumes "map_of duration_units (snd p) = Some n" "fst p * n \<le> 2 ^ 63" "r = [] \<or> is_digit (hd r)"
  shows "duration_part (duration_text p @ r) = Some (fst p * n, r)"
proof -
  note u = unit_chars [OF assms(1)]
  let ?s = "duration_text p @ r"
  have hd_u: "snd p \<noteq> []" "unit_char (hd (snd p))" using u by (cases "snd p"; simp)+
  obtain c cs where c: "nat_digits (fst p) = c # cs" "is_digit c"
    using nat_digits_hd by (cases "nat_digits (fst p)") auto
  have le: "fst p \<le> 2 ^ 63" using assms(2) u by (cases n) auto
  have int: "leading_int 0 ?s = Some (fst p, snd p @ r)"
    using leading_int_digits [of "nat_digits (fst p)" "snd p @ r" 0] nat_digits_all_digits [of "fst p"] hd_u le
      digits_value_nat_digits [of "fst p"]
    by (simp add: duration_text_def digits_value_def unit_char_def)
  have frac: "fraction_part (snd p @ r) = (0, float_of 1, snd p @ r, False)"
    using hd_u by (cases "snd p") (auto simp: fraction_part_def unit_char_def)
  have "\<not> unit_char (hd r)" if "r \<noteq> []" using that assms(3) by (simp add: unit_char_def)
  then have unit: "takeWhile unit_char (snd p @ r) = snd p" "dropWhile unit_char (snd p @ r) = r"
    using u by (cases r; auto simp: list_all_iff takeWhile_append dropWhile_append)+
  have "\<not> 2 ^ 63 div n < fst p"
    using assms(2) u by (simp add: not_less less_eq_div_iff_mult_less_eq)
  then show ?thesis
    using int frac unit assms(1) c by (simp add: duration_part_def duration_text_def unit_char_def Let_def)
qed

lemma duration_loop_text:
  assumes "\<forall>p \<in> set ps. snd p \<in> fst ` set duration_units" "d + sum_list (map duration_value ps) \<le> 2 ^ 63"
  shows "duration_loop d (concat (map duration_text ps)) = Some (d + sum_list (map duration_value ps))"
  using assms
proof (induction ps arbitrary: d)
  case Nil
  then show ?case by (simp add: duration_loop.simps)
next
  case (Cons p ps)
  obtain n where n: "map_of duration_units (snd p) = Some n"
    using Cons.prems(1) by (cases "map_of duration_units (snd p)") (auto simp: map_of_eq_None_iff)
  have v: "duration_value p = fst p * n" by (simp add: duration_value_def n)
  let ?r = "concat (map duration_text ps)"
  have "?r = [] \<or> is_digit (hd ?r)"
  proof (cases ps)
    case (Cons q qs)
    then show ?thesis using nat_digits_hd [of "fst q"] by (cases "nat_digits (fst q)") (auto simp: duration_text_def)
  qed simp
  then have part: "duration_part (duration_text p @ ?r) = Some (fst p * n, ?r)"
    using duration_part_text [OF n] Cons.prems(2) v by simp
  have ne: "duration_text p @ ?r \<noteq> []" by (simp add: duration_text_def)
  have "(d + fst p * n) mod 2 ^ 64 = d + fst p * n" "\<not> 2 ^ 63 < d + fst p * n"
    using Cons.prems(2) v by simp_all
  then have "duration_loop d (duration_text p @ ?r) = duration_loop (d + fst p * n) ?r"
    using part unfolding duration_loop.simps [of d "duration_text p @ ?r"] if_not_P [OF ne] by (simp add: Let_def)
  also have "\<dots> = Some (d + sum_list (map duration_value (p # ps)))"
    using Cons.IH [of "d + fst p * n"] Cons.prems v by (simp add: add.assoc)
  finally show ?case by simp
qed

text \<open>A sum of whole numbers with units is parsed to its value, if that fits.\<close>

theorem parse_duration_text:
  assumes "ps \<noteq> []" "\<forall>p \<in> set ps. snd p \<in> fst ` set duration_units" "sum_list (map duration_value ps) < 2 ^ 63"
  shows "parse_duration (concat (map duration_text ps)) = Some (int (sum_list (map duration_value ps)))"
proof -
  let ?s = "concat (map duration_text ps)"
  obtain p qs where ps: "ps = p # qs" using assms(1) by (cases ps) auto
  obtain c cs where c: "nat_digits (fst p) = c # cs" "is_digit c"
    using nat_digits_hd by (cases "nat_digits (fst p)") auto
  obtain n where "map_of duration_units (snd p) = Some n"
    using assms(2) ps by (cases "map_of duration_units (snd p)") (auto simp: map_of_eq_None_iff)
  then have u: "snd p \<noteq> []" using unit_chars by blast
  have s: "?s = c # cs @ snd p @ concat (map duration_text qs)" by (simp add: ps duration_text_def c(1))
  have "?s \<noteq> ''0''" using u unfolding s by (cases cs) auto
  moreover have "hd ?s \<noteq> CHR ''-''" "hd ?s \<noteq> CHR ''+''" "?s \<noteq> []" using c(2) unfolding s by auto
  ultimately show ?thesis
    using duration_loop_text [OF assms(2), of 0] assms(3) by (simp add: parse_duration_def)
qed

end
