(* ===== verification/Go_Flag.thy ===== *)
theory Go_Flag
  imports Go_Duration
begin

text \<open>
  Go's \<open>flag\<close> package, as far as the daemon uses it: \<open>flag.Parse\<close> with string, duration,
  integer and boolean flags, and \<open>strconv.ParseInt\<close> and \<open>ParseBool\<close>, which read their values.
  The flags are described by a table, the values that were set are a list in the order in
  which they were set. The main result: flags that are written out in any of the forms that
  the package allows are read back.
\<close>

section \<open>Numbers and booleans\<close>

datatype num_error = SyntaxError | RangeError

definition lower_bit :: "char \<Rightarrow> nat" where
  "lower_bit c = (if byte_of c div 32 mod 2 = 0 then byte_of c + 32 else byte_of c)"

text \<open>\<open>underscoreOK\<close>: underscores only between digits, or after a prefix that gives the base\<close>

datatype saw = SawStart | SawDigit | SawUnderscore | SawOther

fun underscores_loop :: "bool \<Rightarrow> saw \<Rightarrow> string \<Rightarrow> bool" where
  "underscores_loop hex saw [] = (saw \<noteq> SawUnderscore)"
| "underscores_loop hex saw (c # s) =
     (if is_digit c \<or> (hex \<and> 97 \<le> lower_bit c \<and> lower_bit c \<le> 102) then underscores_loop hex SawDigit s
      else if c = CHR ''_'' then (if saw \<noteq> SawDigit then False else underscores_loop hex SawUnderscore s)
      else if saw = SawUnderscore then False
      else underscores_loop hex SawOther s)"

definition underscore_ok :: "string \<Rightarrow> bool" where
  "underscore_ok s0 =
     (let s = (case s0 of c # t \<Rightarrow> if c = CHR ''-'' \<or> c = CHR ''+'' then t else s0 | [] \<Rightarrow> [])
      in (case s of
            a # b # t \<Rightarrow>
              if a = CHR ''0'' \<and> lower_bit b \<in> {98, 111, 120} then underscores_loop (lower_bit b = 120) SawDigit t
              else underscores_loop False SawStart s
          | _ \<Rightarrow> underscores_loop False SawStart s))"

text \<open>The digits of \<open>ParseUint\<close>; a number that leaves \<open>uint64\<close> ends the loop.\<close>

fun parse_uint_digits :: "nat \<Rightarrow> nat \<Rightarrow> string \<Rightarrow> num_error + nat" where
  "parse_uint_digits base n [] = Inr n"
| "parse_uint_digits base n (c # s) =
     (if c = CHR ''_'' then parse_uint_digits base n s
      else
        (case (if is_digit c then Some (digit_val c)
               else if 97 \<le> lower_bit c \<and> lower_bit c \<le> 122 then Some (lower_bit c - 97 + 10)
               else None) of
           None \<Rightarrow> Inl SyntaxError
         | Some d \<Rightarrow>
             if base \<le> d then Inl SyntaxError
             else if 2 ^ 64 \<le> n * base + d then Inl RangeError
             else parse_uint_digits base (n * base + d) s))"

text \<open>\<open>ParseUint(s, 0, 64)\<close>: the base is in the prefix\<close>

definition parse_uint0 :: "string \<Rightarrow> num_error + nat" where
  "parse_uint0 s0 =
     (if s0 = [] then Inl SyntaxError
      else
        (case (if hd s0 \<noteq> CHR ''0'' then (10, s0)
               else if 3 \<le> length s0 \<and> lower_bit (s0 ! 1) = 98 then (2, drop 2 s0)
               else if 3 \<le> length s0 \<and> lower_bit (s0 ! 1) = 111 then (8, drop 2 s0)
               else if 3 \<le> length s0 \<and> lower_bit (s0 ! 1) = 120 then (16, drop 2 s0)
               else (8, tl s0)) of
           (base, s) \<Rightarrow>
             (case parse_uint_digits base 0 s of
                Inl e \<Rightarrow> Inl e
              | Inr n \<Rightarrow> if CHR ''_'' \<in> set s \<and> \<not> underscore_ok s0 then Inl SyntaxError else Inr n)))"

definition parse_int0 :: "string \<Rightarrow> num_error + int" where
  "parse_int0 s0 =
     (let neg = (s0 \<noteq> [] \<and> hd s0 = CHR ''-'');
          s = (if s0 \<noteq> [] \<and> (hd s0 = CHR ''-'' \<or> hd s0 = CHR ''+'') then tl s0 else s0)
      in if s0 = [] then Inl SyntaxError
         else (case parse_uint0 s of
                 Inl e \<Rightarrow> Inl e
               | Inr n \<Rightarrow>
                   if \<not> neg \<and> 2 ^ 63 \<le> n then Inl RangeError
                   else if neg \<and> 2 ^ 63 < n then Inl RangeError
                   else Inr (if neg then - int n else int n)))"

definition parse_bool :: "string \<Rightarrow> bool option" where
  "parse_bool s =
     (if s \<in> set [''1'', ''t'', ''T'', ''TRUE'', ''true'', ''True''] then Some True
      else if s \<in> set [''0'', ''f'', ''F'', ''FALSE'', ''false'', ''False''] then Some False
      else None)"

section \<open>Flags\<close>

datatype flag_kind = StringFlag | DurationFlag | IntFlag | BoolFlag

datatype flag_value = StringVal string | DurationVal int | IntVal int | BoolVal bool

text \<open>\<open>Value.Set\<close>; the text of its error is \<open>parse error\<close> or, for a number out of range, \<open>value out of range\<close>.\<close>

definition set_flag :: "flag_kind \<Rightarrow> string \<Rightarrow> num_error + flag_value" where
  "set_flag k s =
     (case k of
        StringFlag \<Rightarrow> Inr (StringVal s)
      | DurationFlag \<Rightarrow> (case parse_duration s of None \<Rightarrow> Inl SyntaxError | Some d \<Rightarrow> Inr (DurationVal d))
      | IntFlag \<Rightarrow> (case parse_int0 s of Inl e \<Rightarrow> Inl e | Inr i \<Rightarrow> Inr (IntVal i))
      | BoolFlag \<Rightarrow> (case parse_bool s of None \<Rightarrow> Inl SyntaxError | Some b \<Rightarrow> Inr (BoolVal b)))"

datatype flag_error =
    BadSyntax string
  | NotDefined string
  | NeedsArgument string
  | InvalidBoolean string string
  | InvalidValue string string num_error

text \<open>How parsing ends: the values that were set and the arguments left over, a request for help, or an error\<close>

datatype flag_end =
    FlagsSet "(string \<times> flag_value) list" "string list"
  | HelpAsked
  | FlagError flag_error

text \<open>A flag and its value, if the argument has a value after \<open>=\<close>; the first byte of a name is not \<open>=\<close>.\<close>

definition split_flag :: "string \<Rightarrow> string \<times> string option" where
  "split_flag s =
     (case index_of (tl s) ''='' of
        None \<Rightarrow> (s, None)
      | Some i \<Rightarrow> (take (Suc i) s, Some (drop (Suc (Suc i)) s)))"

definition flag_name :: "string \<Rightarrow> string" where
  "flag_name s = (if s ! 1 = CHR ''-'' then drop 2 s else drop 1 s)"

fun parse_flags :: "(string \<times> flag_kind) list \<Rightarrow> (string \<times> flag_value) list \<Rightarrow> string list \<Rightarrow> flag_end" where
  "parse_flags formal vals [] = FlagsSet vals []"
| "parse_flags formal vals (s # args) =
     (if length s < 2 \<or> hd s \<noteq> CHR ''-'' then FlagsSet vals (s # args)
      else if s = ''--'' then FlagsSet vals args
      else if flag_name s = [] \<or> hd (flag_name s) = CHR ''-'' \<or> hd (flag_name s) = CHR ''='' then FlagError (BadSyntax s)
      else
        (case split_flag (flag_name s) of
           (name, given) \<Rightarrow>
             (case map_of formal name of
                None \<Rightarrow> if name = ''help'' \<or> name = ''h'' then HelpAsked else FlagError (NotDefined name)
              | Some kind \<Rightarrow>
                  if kind = BoolFlag then
                    (case set_flag kind (case given of None \<Rightarrow> ''true'' | Some v \<Rightarrow> v) of
                       Inl e \<Rightarrow> FlagError (InvalidBoolean (case given of None \<Rightarrow> ''true'' | Some v \<Rightarrow> v) name)
                     | Inr v \<Rightarrow> parse_flags formal (vals @ [(name, v)]) args)
                  else
                    (case given of
                       Some v \<Rightarrow>
                         (case set_flag kind v of
                            Inl e \<Rightarrow> FlagError (InvalidValue v name e)
                          | Inr x \<Rightarrow> parse_flags formal (vals @ [(name, x)]) args)
                     | None \<Rightarrow>
                         (case args of
                            [] \<Rightarrow> FlagError (NeedsArgument name)
                          | v # args' \<Rightarrow>
                              (case set_flag kind v of
                                 Inl e \<Rightarrow> FlagError (InvalidValue v name e)
                               | Inr x \<Rightarrow> parse_flags formal (vals @ [(name, x)]) args'))))))"

section \<open>Flags written out\<close>

text \<open>
  The forms in which a flag can be given, each with one dash or two: its value after \<open>=\<close>, its value as the
  next argument, or no value at all. A boolean flag never takes the next argument, so it has the first and the third
  form, the others have the first two.
\<close>

datatype flag_form = Joined bool | Separate bool | Bare bool

definition dashes :: "bool \<Rightarrow> string" where
  "dashes two = (if two then ''--'' else ''-'')"

fun write_flag :: "flag_form \<times> string \<times> string \<Rightarrow> string list" where
  "write_flag (Joined two, name, v) = [dashes two @ name @ ''='' @ v]"
| "write_flag (Separate two, name, v) = [dashes two @ name, v]"
| "write_flag (Bare two, name, v) = [dashes two @ name]"

fun form_fits :: "flag_kind \<Rightarrow> flag_form \<Rightarrow> string \<Rightarrow> bool" where
  "form_fits k (Joined two) v = True"
| "form_fits k (Separate two) v = (k \<noteq> BoolFlag)"
| "form_fits k (Bare two) v = (k = BoolFlag \<and> v = ''true'')"

text \<open>Where parsing stops: at the end, at the first argument that is not a flag, or after \<open>--\<close>; and what it leaves over\<close>

definition flags_stop :: "string list \<Rightarrow> bool" where
  "flags_stop rest \<longleftrightarrow> (case rest of [] \<Rightarrow> True | s # t \<Rightarrow> length s < 2 \<or> hd s \<noteq> CHR ''-'' \<or> s = ''--'')"

definition left_over :: "string list \<Rightarrow> string list" where
  "left_over rest = (case rest of [] \<Rightarrow> [] | s # t \<Rightarrow> if s = ''--'' then t else rest)"

definition flag_name_ok :: "string \<Rightarrow> bool" where
  "flag_name_ok n \<longleftrightarrow> n \<noteq> [] \<and> hd n \<noteq> CHR ''-'' \<and> CHR ''='' \<notin> set n"

lemma flag_name_dashes:
  assumes "flag_name_ok n"
  shows "flag_name (dashes two @ n @ t) = n @ t" "2 \<le> length (dashes two @ n @ t)" "dashes two @ n @ t \<noteq> ''--''"
    "hd (dashes two @ n @ t) = CHR ''-''"
  using assms by (cases n; auto simp: flag_name_ok_def flag_name_def dashes_def split: if_splits)+

lemma flag_name_hd:
  assumes "flag_name_ok n"
  shows "n \<noteq> []" "hd (n @ t) \<noteq> CHR ''-''" "hd (n @ t) \<noteq> CHR ''=''"
  using assms by (cases n; auto simp: flag_name_ok_def)+

lemma index_of_eq: "CHR ''='' \<notin> set n \<Longrightarrow> index_of (n @ CHR ''='' # v) ''='' = Some (length n)"
  by (induction n) auto

lemma split_flag_joined:
  assumes "flag_name_ok n"
  shows "split_flag (n @ CHR ''='' # v) = (n, Some v)" "split_flag n = (n, None)"
proof -
  obtain c t where n: "n = c # t" "CHR ''='' \<notin> set t" using assms by (cases n) (auto simp: flag_name_ok_def)
  show "split_flag (n @ CHR ''='' # v) = (n, Some v)" using n index_of_eq [of t v] by (simp add: split_flag_def)
  show "split_flag n = (n, None)" using n index_of_byte_None [of t "CHR ''=''"] by (simp add: split_flag_def)
qed

lemma parse_flags_written:
  assumes "flag_name_ok n" "map_of formal n = Some k" "set_flag k v = Inr x" "form_fits k f v"
  shows "parse_flags formal vals (write_flag (f, n, v) @ rest) = parse_flags formal (vals @ [(n, x)]) rest"
proof (cases f)
  case (Joined two)
  note d = flag_name_dashes [OF assms(1), of two "''='' @ v"]
  show ?thesis using d flag_name_hd [OF assms(1)] assms(2,3) split_flag_joined(1) [OF assms(1), of v]
    by (cases "k = BoolFlag") (simp_all add: Joined)
next
  case (Separate two)
  note d = flag_name_dashes [OF assms(1), of two "[]", unfolded append_Nil2]
  show ?thesis using d flag_name_hd(1) [OF assms(1)] flag_name_hd(2,3) [OF assms(1), of "[]"] assms(2-4) split_flag_joined(2) [OF assms(1)] by (simp add: Separate)
next
  case (Bare two)
  note d = flag_name_dashes [OF assms(1), of two "[]", unfolded append_Nil2]
  show ?thesis using d flag_name_hd(1) [OF assms(1)] flag_name_hd(2,3) [OF assms(1), of "[]"] assms(2-4) split_flag_joined(2) [OF assms(1)] by (simp add: Bare)
qed

lemma parse_flags_stop: "flags_stop rest \<Longrightarrow> parse_flags formal vals rest = FlagsSet vals (left_over rest)"
  by (cases rest) (auto simp: flags_stop_def left_over_def)

text \<open>Flags in any of their forms, with values that are understood, are read back in their order, up to where they stop.\<close>

theorem parse_flags_roundtrip:
  assumes "\<forall>(f, n, v) \<in> set fs. flag_name_ok n \<and> (\<exists>k. map_of formal n = Some k \<and> set_flag k v = Inr (val n v) \<and> form_fits k f v)"
    and "flags_stop rest"
  shows "parse_flags formal vals (concat (map write_flag fs) @ rest) =
    FlagsSet (vals @ map (\<lambda>(f, n, v). (n, val n v)) fs) (left_over rest)"
  using assms(1)
proof (induction fs arbitrary: vals)
  case Nil
  then show ?case using parse_flags_stop [OF assms(2)] by simp
next
  case (Cons a fs)
  obtain f n v where a: "a = (f, n, v)" by (cases a)
  obtain k where k: "flag_name_ok n" "map_of formal n = Some k" "set_flag k v = Inr (val n v)" "form_fits k f v"
    using Cons.prems a by auto
  show ?case
    using parse_flags_written [OF k, of vals "concat (map write_flag fs) @ rest"] Cons.IH [of "vals @ [(n, val n v)]"] Cons.prems
    by (simp add: a)
qed

end
