(* ===== verification/Two_Backends.thy ===== *)
theory Two_Backends
  imports Server
begin

text \<open>
  Two backends over one kernel. \<open>Detect\<close> chooses anew in every process, and each backend only handles what
  it made itself: the \<open>inet webblock\<close> table, or the chains and sets of \<open>iptables\<close> and \<open>ipset\<close>. The kernel
  drops a packet if the rules of either do. This theory says what it means that the tools of one do not
  change what the other made, and shows it for \<open>Apply\<close> and \<open>Teardown\<close>.
\<close>

section \<open>What the kernel drops\<close>

fun other_kind :: "backend_kind \<Rightarrow> backend_kind" where
  "other_kind Nftables = IptablesIpset"
| "other_kind IptablesIpset = Nftables"

lemma other_kind_simps [simp]: "other_kind k \<noteq> k" "k \<noteq> other_kind k" "other_kind (other_kind k) = k"
  by (cases k; simp)+

lemma other_kind_iff: "k' \<noteq> k \<longleftrightarrow> k' = other_kind k"
  by (cases k; cases k'; simp)

definition kernel_drops :: "(backend_kind \<Rightarrow> 'k \<Rightarrow> packet \<Rightarrow> bool) \<Rightarrow> 'k \<Rightarrow> packet \<Rightarrow> bool" where
  "kernel_drops verdict k p \<longleftrightarrow> verdict Nftables k p \<or> verdict IptablesIpset k p"

lemma kernel_drops_kind: "kernel_drops verdict k p \<longleftrightarrow> verdict kind k p \<or> verdict (other_kind kind) k p"
  by (cases kind) (auto simp: kernel_drops_def)

definition real_verdict :: "('k \<Rightarrow> nft_tbl option) \<Rightarrow> ('k \<Rightarrow> ipt_view) \<Rightarrow> backend_kind \<Rightarrow> 'k \<Rightarrow> packet \<Rightarrow> bool" where
  "real_verdict rules view kind k =
     (case kind of Nftables \<Rightarrow> nft_verdict (rules k) | IptablesIpset \<Rightarrow> ipt_verdict (view k))"

lemma real_verdict_simps [simp]:
  "real_verdict rules view Nftables k = nft_verdict (rules k)"
  "real_verdict rules view IptablesIpset k = ipt_verdict (view k)"
  by (simp_all add: real_verdict_def)

section \<open>A contract with a frame\<close>

context nft_kernel
begin

lemma contract: "backend (nft_apply tool) (\<lambda>b. nft_verdict (rules (snd b))) (nft_inv rules)"
  by (rule nft.backend_axioms)

lemma whole_contract: "whole_backend (nft_apply tool) (\<lambda>b. nft_verdict (rules (snd b))) (nft_inv rules) (nft_teardown tool)"
  by (rule nft.whole_backend_axioms)

end

context ipt_kernel
begin

lemma contract: "backend (ipt_apply tool) (\<lambda>b. ipt_verdict (view (snd b))) (ipt_inv view)"
  by (rule ipt.backend_axioms)

end

lemma nft_backend: "nft_kernel nft rules \<Longrightarrow> backend (nft_apply nft) (\<lambda>b. nft_verdict (rules (snd b))) (nft_inv rules)"
  by (rule nft_kernel.contract)

lemma ipt_backend: "ipt_kernel ipt view \<Longrightarrow> backend (ipt_apply ipt) (\<lambda>b. ipt_verdict (view (snd b))) (ipt_inv view)"
  by (rule ipt_kernel.contract)

text \<open>Whatever \<open>Apply\<close> leaves alone can be added to the invariant of a backend.\<close>

lemma backend_frame:
  assumes "backend ap verdict be_inv" "\<And>b st. be_inv b \<Longrightarrow> wf_state st \<Longrightarrow> frame (fst (ap b st)) = frame b"
  shows "backend ap verdict (\<lambda>b. be_inv b \<and> frame b = v)"
proof unfold_locales
  fix b st b' r
  assume b: "be_inv b \<and> frame b = v" "wf_state st" "ap b st = (b', r)"
  then show "be_inv b' \<and> frame b' = v"
    using backend.apply_inv [OF assms(1), of b st b' r] assms(2) [of b st] by simp
next
  fix b st b' p
  assume "be_inv b \<and> frame b = v" "wf_state st" "ap b st = (b', None)"
  then show "verdict b' p \<longleftrightarrow> blocked st p" using backend.apply_enforces [OF assms(1)] by blast
qed

section \<open>The tools of one leave alone what the other made\<close>

definition ipt_programs :: "string list" where
  "ipt_programs = [''ipset'', ''iptables'', ''ip6tables'', ''iptables-restore'', ''ip6tables-restore'']"

definition tools_apart :: "'k tool \<Rightarrow> 'k tool \<Rightarrow> ('k \<Rightarrow> nft_tbl option) \<Rightarrow> ('k \<Rightarrow> ipt_view) \<Rightarrow> bool" where
  "tools_apart nft ipt rules view \<longleftrightarrow>
     (\<forall>cs k. nft_input cs \<longrightarrow> view (fst (run_nft nft (script_text cs) k)) = view k) \<and>
     (\<forall>prog \<in> set ipt_programs. \<forall>args inp k. rules (fst (ipt prog args inp k)) = rules k)"

lemma fam_programs: "restore (fam v) \<in> set ipt_programs" "cmd (fam v) \<in> set ipt_programs" "''ipset'' \<in> set ipt_programs"
  by (cases v; simp add: ipt_programs_def)+

lemma apart_nft:
  assumes "tools_apart nft ipt rules view" "nft_input cs" "run_nft nft (script_text cs) k = (k', ok)"
  shows "view k' = view k"
  using assms unfolding tools_apart_def by (metis fst_conv)

lemma apart_ipt:
  assumes "tools_apart nft ipt rules view" "prog \<in> set ipt_programs" "ipt prog args inp k = (k', ok)"
  shows "rules k' = rules k"
  using assms unfolding tools_apart_def by (metis fst_conv)

lemma nft_full_apart:
  assumes "tools_apart nft ipt rules view" "wf_state st"
  shows "view (snd (fst (nft_full nft k st))) = view k"
  using apart_nft [OF assms(1) script_input [OF assms(2)]] by (auto simp: nft_full_def split: prod.split bool.split)

lemma nft_apply_apart:
  assumes "tools_apart nft ipt rules view" "\<And>prev. fst b = Some prev \<Longrightarrow> wf_state prev" "wf_state st"
  shows "view (snd (fst (nft_apply nft b st))) = view (snd b)"
proof (cases b)
  case (Pair applied k)
  show ?thesis
  proof (cases "\<exists>prev. applied = Some prev \<and> same_uids (PerUser prev) (PerUser st)")
    case False
    then have "nft_apply nft b st = nft_full nft k st" using Pair by (cases applied) (auto simp: nft_apply_def)
    then show ?thesis using nft_full_apart [OF assms(1,3)] Pair by simp
  next
    case True
    then obtain prev where p: "applied = Some prev" "same_uids (PerUser prev) (PerUser st)" by blast
    obtain k' ok where r: "run_nft nft (script_text (build_delta prev st)) k = (k', ok)"
      by (cases "run_nft nft (script_text (build_delta prev st)) k")
    have "wf_state prev" using assms(2) Pair p by simp
    then have "view k' = view k" using apart_nft [OF assms(1) _ r] nft_delta_input [OF _ assms(3) p(2)] by blast
    then show ?thesis using nft_full_apart [OF assms(1,3), of k'] Pair p r by (cases ok) (simp_all add: nft_apply_def Let_def)
  qed
qed

lemma nft_teardown_apart:
  assumes "tools_apart nft ipt rules view"
  shows "view (snd (fst (nft_teardown nft b))) = view (snd b)"
  using apart_nft [OF assms, of "[AddTable, DeleteTable]" "snd b"]
  by (auto simp: nft_teardown_def nft_input_def split: prod.split bool.split)

lemma rebuild_chain_apart:
  assumes "tools_apart nft ipt rules view" "rebuild_chain ipt (fam v) us k = (k', r)"
  shows "rules k' = rules k"
  using assms(2) apart_ipt [OF assms(1) fam_programs(1)] apart_ipt [OF assms(1) fam_programs(2)]
  unfolding rebuild_chain_def by (auto simp del: fam_sel split: prod.splits bool.splits)

lemma ipt_full_apart:
  assumes "tools_apart nft ipt rules view"
  shows "rules (snd (fst (ipt_full ipt k st us))) = rules k"
proof -
  obtain k1 r1 where 1: "refresh_run ipt st us k = (k1, r1)" by (cases "refresh_run ipt st us k")
  obtain k2 r2 where 2: "rebuild_chain ipt (fam False) us k1 = (k2, r2)" by (cases "rebuild_chain ipt (fam False) us k1")
  obtain k3 r3 where 3: "rebuild_chain ipt (fam True) us k2 = (k3, r3)" by (cases "rebuild_chain ipt (fam True) us k2")
  have "rules k1 = rules k"
    using 1 apart_ipt [OF assms fam_programs(3)] by (auto simp: refresh_run_def split: prod.splits bool.splits)
  moreover note rebuild_chain_apart [OF assms 2] rebuild_chain_apart [OF assms 3]
  ultimately show ?thesis using 1 2 3 by (auto simp: ipt_full_def full_apply_def fam_names split: option.split)
qed

lemma ipt_apply_apart:
  assumes "tools_apart nft ipt rules view"
  shows "rules (snd (fst (ipt_apply ipt b st))) = rules (snd b)"
proof (cases b)
  case (Pair applied k)
  show ?thesis
  proof (cases applied)
    case None
    then show ?thesis using Pair ipt_full_apart [OF assms] by (simp add: ipt_apply_def Let_def)
  next
    case (Some prev)
    let ?d = "ipset_payload (build_set_delta prev st (sorted_uids (PerUser st)))"
    obtain k' ok where r: "ipt ''ipset'' [''restore'', ''-exist''] ?d k = (k', ok)"
      by (cases "ipt ''ipset'' [''restore'', ''-exist''] ?d k")
    have "rules k' = rules k" by (rule apart_ipt [OF assms fam_programs(3) r])
    then show ?thesis using Pair Some r ipt_full_apart [OF assms] by (cases ok) (simp_all add: ipt_apply_def Let_def)
  qed
qed

lemma run_all_apart:
  assumes "tools_apart nft ipt rules view" "fst ` set cs \<subseteq> set ipt_programs" "run_all ipt cs k = (k', os)"
  shows "rules k' = rules k"
  using assms(2,3)
proof (induction cs arbitrary: k os)
  case (Cons c cs)
  obtain prog args where c: "c = (prog, args)" by (cases c)
  obtain k1 ok where 1: "ipt prog args [] k = (k1, ok)" by (cases "ipt prog args [] k")
  obtain os1 where 2: "run_all ipt cs k1 = (k', os1)" using Cons.prems(2) c 1 by (auto split: prod.splits)
  have "rules k1 = rules k" using apart_ipt [OF assms(1) _ 1] Cons.prems(1) c by simp
  then show ?case using Cons.IH [OF _ 2] Cons.prems(1) by simp
qed simp

lemma ipt_teardown_apart:
  assumes "tools_apart nft ipt rules view"
  shows "rules (snd (fst (ipt_teardown ipt list_out b))) = rules (snd b)"
proof -
  have d: "rules (drop_chain ipt (fam v) k) = rules k" for v k
    using run_all_apart [OF assms, of "drop_cmds (fam v)" k] fam_programs(2) [of v]
    by (auto simp: drop_chain_run_all drop_cmds_def simp del: fam_sel split: prod.split)
  have s: "rules (destroy_sets ipt ns k) = rules k" for ns k
  proof -
    have "fst ` set (destroy_cmds ns) \<subseteq> set ipt_programs" by (auto simp: destroy_cmds_def ipt_programs_def)
    then show ?thesis using run_all_apart [OF assms] unfolding destroy_sets_run_all by (metis prod.collapse)
  qed
  show ?thesis by (simp add: ipt_teardown_def Let_def fam_names d s split: option.split)
qed

end
