(* ===== verification/Daemon_Main.thy ===== *)
theory Daemon_Main
  imports Daemon Concurrent_Daemon Go_Flag Two_Backends
begin

text \<open>
  All of \<open>cmd/webblockd/main.go\<close>: the command line, the backend, teardown, the store's
  directory, the first reconcile, and serving until the process ends, with its exit status. While it
  serves, its goroutines interleave as a schedule says (\<open>Concurrent_Server\<close>). The
  machine the process runs on keeps what outlives it, the directories and the kernel; the
  remembered state of the backend, the cache and the limiter start empty with every process. The
  main results: each flag sets its field and nothing else (\<open>config_of_flags\<close>), what exit
  status 0 means (\<open>status_zero\<close>), that a process which serves has made its backend block what
  the store in its directory asks for, whatever earlier processes did (\<open>real_restart_enforces\<close>), and what
  \<open>-teardown\<close> leaves behind (\<open>teardown_leaves\<close>).
\<close>

section \<open>The command line\<close>

definition daemon_formal :: "(string \<times> flag_kind) list" where
  "daemon_formal =
     [(''socket'', StringFlag), (''store'', StringFlag), (''refresh'', DurationFlag), (''dns-ttl'', DurationFlag),
      (''resolve-timeout'', DurationFlag), (''resolve-concurrency'', IntFlag), (''teardown'', BoolFlag)]"

text \<open>What the flags write to: the fields of the configuration, and \<open>teardown\<close>\<close>

fun set_option :: "string \<times> flag_value \<Rightarrow> config \<times> bool \<Rightarrow> config \<times> bool" where
  "set_option (n, StringVal v) (c, teardown) =
     (if n = ''socket'' then (c\<lparr>cfg_socket_path := v\<rparr>, teardown)
      else if n = ''store'' then (c\<lparr>cfg_store_dir := v\<rparr>, teardown)
      else (c, teardown))"
| "set_option (n, DurationVal v) (c, teardown) =
     (if n = ''refresh'' then (c\<lparr>refresh_every := v\<rparr>, teardown)
      else if n = ''dns-ttl'' then (c\<lparr>dns_cache_ttl := v\<rparr>, teardown)
      else if n = ''resolve-timeout'' then (c\<lparr>Server.resolve_timeout := v\<rparr>, teardown)
      else (c, teardown))"
| "set_option (n, IntVal v) (c, teardown) =
     (if n = ''resolve-concurrency'' then (c\<lparr>resolve_concurrency := v\<rparr>, teardown) else (c, teardown))"
| "set_option (n, BoolVal v) (c, teardown) = (if n = ''teardown'' then (c, v) else (c, teardown))"

definition daemon_config :: "(string \<times> flag_value) list \<Rightarrow> config \<times> bool" where
  "daemon_config vals = fold set_option vals (default_config, False)"

text \<open>The directory that \<open>store.New\<close> uses\<close>

definition store_dir :: "string \<Rightarrow> string" where
  "store_dir dir = (if dir = [] then ''/var/lib/webblock'' else dir)"

section \<open>The process\<close>

text \<open>The two backends and the tables of the system the daemon runs on, the same for every process\<close>

record 'k host =
  host_backends :: "backend_kind \<Rightarrow> 'k backend_state backend_ops"
  host_order :: "string list \<Rightarrow> string list"
  host_users :: user_db
  host_lower :: "string \<Rightarrow> string"

text \<open>
  What one process meets: its connections and the ticks of its refresh loop, the order in which
  the goroutines take turns, and how the accept loop ends, if it does; the goroutines that are
  under way then are lost with the process.
\<close>

record process_io =
  detected :: "backend_kind option"
  can_mkdir :: "string \<Rightarrow> bool"
  first_world :: world
  listening :: listen_io
  connections :: "conn list"
  ticks :: "world list"
  turns :: "nat list"
  accept_end :: "run_result option"

text \<open>What outlives a process; a directory goes by the text of its path\<close>

record 'k machine =
  disks :: "string \<Rightarrow> disk"
  kernel :: 'k

datatype fatal =
    NoFirewall
  | TeardownError backend_error
  | NoStoreDir
  | ReconcileError engine_error
  | ServerError run_result

datatype ending =
    Helped
  | BadUsage flag_error
  | Fatal fatal
  | Removed string
  | Stopped

text \<open>\<open>flag.ExitOnError\<close> and \<open>Fatalf\<close>\<close>

fun exit_status :: "ending \<Rightarrow> int" where
  "exit_status Helped = 0"
| "exit_status (BadUsage e) = 2"
| "exit_status (Fatal e) = 1"
| "exit_status (Removed n) = 0"
| "exit_status Stopped = 0"

definition daemon_service :: "'k host \<Rightarrow> backend_kind \<Rightarrow> config \<Rightarrow> 'k backend_state service" where
  "daemon_service h kind c =
     \<lparr>eng_cfg = daemon_cfg (host_backends h kind) (host_order h) c, eng_backend_name = op_name (host_backends h kind),
      user_names = host_users h, unicode_lower = host_lower h\<rparr>"

definition fresh_engine :: "disk \<Rightarrow> 'k \<Rightarrow> 'k backend_state engine" where
  "fresh_engine d k = \<lparr>disk_of = new_store d, be_state = (None, k), cache = [], log = []\<rparr>"

definition left_by :: "string \<Rightarrow> 'k backend_state engine \<Rightarrow> 'k machine \<Rightarrow> 'k machine" where
  "left_by dir eng m = m\<lparr>disks := (disks m)(dir := disk_of eng), kernel := snd (be_state eng)\<rparr>"

text \<open>The system calls of \<open>Server.Run\<close> before it accepts\<close>

definition listen_error :: "listen_io \<Rightarrow> run_result option" where
  "listen_error io =
     (if remove_fails io then Some RemoveFailed
      else if listen_fails io then Some ListenFailed
      else if chmod_fails io then Some ChmodFailed
      else None)"

text \<open>
  The refresh loop and \<open>Server.Run\<close>: the refresh loop is already running when the server begins to
  listen, and there are connections only if it can.
\<close>

definition serve_goroutines :: "'b service \<Rightarrow> process_io \<Rightarrow> 'b server \<Rightarrow> 'b daemon \<times> run_result option" where
  "serve_goroutines sv io s =
     (case listen_error (listening io) of
        Some e \<Rightarrow> (run_daemon sv (turns io) (serving [] (ticks io) s), Some e)
      | None \<Rightarrow> (run_daemon sv (turns io) (serving (connections io) (ticks io) s), accept_end io))"

definition answers_given :: "'b daemon \<Rightarrow> response list" where
  "answers_given s = concat (map (\<lambda>g. case g of Serve c (Answered resp) \<Rightarrow> [resp] | _ \<Rightarrow> []) (dm_gos s))"

text \<open>
  \<open>main\<close> after \<open>flag.Parse\<close>: the machine it leaves, the answers it gave, and how it ended;
  \<open>None\<close> if it is still running, or was killed.
\<close>

definition daemon_run ::
    "'k host \<Rightarrow> process_io \<Rightarrow> config \<Rightarrow> bool \<Rightarrow> 'k machine \<Rightarrow> 'k machine \<times> response list \<times> ending option" where
  "daemon_run h io c teardown m =
     (case detected io of
        None \<Rightarrow> (m, [], Some (Fatal NoFirewall))
      | Some kind \<Rightarrow>
          let ops = host_backends h kind; dir = store_dir (cfg_store_dir c) in
          if teardown then
            (case op_teardown ops (None, kernel m) of
               (b, Some e) \<Rightarrow> (m\<lparr>kernel := snd b\<rparr>, [], Some (Fatal (TeardownError e)))
             | (b, None) \<Rightarrow> (m\<lparr>kernel := snd b\<rparr>, [], Some (Removed (op_name ops))))
          else if \<not> can_mkdir io dir then (m, [], Some (Fatal NoStoreDir))
          else
            (case rebuild (daemon_cfg ops (host_order h) c) (first_world io) ResolveAll (fresh_engine (disks m dir) (kernel m)) of
               (eng, Some e) \<Rightarrow> (left_by dir eng m, [], Some (Fatal (ReconcileError e)))
             | (eng, None) \<Rightarrow>
                 (case serve_goroutines (daemon_service h kind c) io (new_server c eng) of
                    (s, None) \<Rightarrow> (left_by dir (eng_of (dm_sys s)) m, answers_given s, None)
                  | (s, Some ShutDown) \<Rightarrow> (left_by dir (eng_of (dm_sys s)) m, answers_given s, Some Stopped)
                  | (s, Some e) \<Rightarrow> (left_by dir (eng_of (dm_sys s)) m, answers_given s, Some (Fatal (ServerError e))))))"

definition daemon_process ::
    "'k host \<Rightarrow> process_io \<Rightarrow> string list \<Rightarrow> 'k machine \<Rightarrow> 'k machine \<times> response list \<times> ending option" where
  "daemon_process h io args m =
     (case parse_flags daemon_formal [] args of
        HelpAsked \<Rightarrow> (m, [], Some Helped)
      | FlagError e \<Rightarrow> (m, [], Some (BadUsage e))
      | FlagsSet vals rest \<Rightarrow> (case daemon_config vals of (c, teardown) \<Rightarrow> daemon_run h io c teardown m))"

section \<open>What the flags mean\<close>

fun value_kind :: "flag_value \<Rightarrow> flag_kind" where
  "value_kind (StringVal s) = StringFlag"
| "value_kind (DurationVal d) = DurationFlag"
| "value_kind (IntVal i) = IntFlag"
| "value_kind (BoolVal b) = BoolFlag"

definition option_value :: "config \<times> bool \<Rightarrow> string \<Rightarrow> flag_value option" where
  "option_value ct n =
     (case ct of (c, teardown) \<Rightarrow> map_of
       [(''socket'', StringVal (cfg_socket_path c)), (''store'', StringVal (cfg_store_dir c)),
        (''refresh'', DurationVal (refresh_every c)), (''dns-ttl'', DurationVal (dns_cache_ttl c)),
        (''resolve-timeout'', DurationVal (Server.resolve_timeout c)),
        (''resolve-concurrency'', IntVal (resolve_concurrency c)), (''teardown'', BoolVal teardown)] n)"

text \<open>The fields that no flag sets\<close>

definition fixed_fields :: "config \<Rightarrow> int \<times> int \<times> int \<times> int" where
  "fixed_fields c = (conn_deadline c, socket_mode c, rate_limit c, rate_window c)"

lemma set_flag_kind: "set_flag k v = Inr x \<Longrightarrow> value_kind x = k"
  by (cases k) (auto simp: set_flag_def split: option.splits sum.splits)

lemma parse_flags_step:
  assumes "parse_flags formal vals (s # args) = FlagsSet vals' rest"
  obtains (last) "vals' = vals"
  | (more) name kind v x args' where "map_of formal name = Some kind" "set_flag kind v = Inr x"
      "parse_flags formal (vals @ [(name, x)]) args' = FlagsSet vals' rest" "length args' \<le> length args"
proof (cases "length s < 2 \<or> hd s \<noteq> CHR ''-'' \<or> s = ''--''")
  case True
  then show ?thesis using assms last by (auto split: if_splits)
next
  case False
  obtain name given where g: "split_flag (flag_name s) = (name, given)" by (cases "split_flag (flag_name s)")
  then obtain kind where k: "map_of formal name = Some kind"
    using assms False by (auto split: if_splits option.splits)
  show ?thesis
  proof (cases "kind = BoolFlag")
    case True
    then show ?thesis using assms False g k more [OF k, of "case given of None \<Rightarrow> ''true'' | Some v \<Rightarrow> v" _ args]
      by (auto split: if_splits sum.splits)
  next
    case sep: False
    show ?thesis
    proof (cases given)
      case (Some v)
      then show ?thesis using assms False g k sep more [OF k, of v _ args] by (auto split: if_splits sum.splits)
    next
      case None
      then obtain v args' where a: "args = v # args'" using assms False g k sep by (auto split: if_splits list.splits)
      then show ?thesis using assms False g k sep None more [OF k, of v _ args'] by (auto split: if_splits sum.splits)
    qed
  qed
qed

lemma parse_flags_typed:
  assumes "parse_flags formal vals args = FlagsSet vals' rest" "\<forall>x \<in> set vals. map_of formal (fst x) = Some (value_kind (snd x))"
  shows "\<forall>x \<in> set vals'. map_of formal (fst x) = Some (value_kind (snd x))"
  using assms
proof (induction "length args" arbitrary: vals args rule: less_induct)
  case less
  show ?case
  proof (cases args)
    case Nil
    then show ?thesis using less.prems by simp
  next
    case (Cons s as)
    from less.prems(1) [unfolded Cons] show ?thesis
    proof (cases rule: parse_flags_step)
      case last
      then show ?thesis using less.prems(2) by simp
    next
      case (more name kind v x args')
      show ?thesis using less.hyps [OF _ more(3)] less.prems(2) more(1,4) set_flag_kind [OF more(2)] by (simp add: Cons)
    qed
  qed
qed

lemma set_option_value:
  assumes "map_of daemon_formal n = Some (value_kind v)"
  shows "option_value (set_option (n, v) ct) m = (if m = n then Some v else option_value ct m)"
    and "fixed_fields (fst (set_option (n, v) ct)) = fixed_fields (fst ct)"
  using assms by (cases ct; cases v; auto simp: daemon_formal_def option_value_def fixed_fields_def split: if_splits)+

lemma fold_option_value:
  assumes "\<forall>x \<in> set vals. map_of daemon_formal (fst x) = Some (value_kind (snd x))"
  shows "option_value (fold set_option vals ct) m =
      (case map_of (rev vals) m of None \<Rightarrow> option_value ct m | Some v \<Rightarrow> Some v)"
    and "fixed_fields (fst (fold set_option vals ct)) = fixed_fields (fst ct)"
  using assms
  by (induction vals arbitrary: ct) (auto simp: set_option_value map_add_def split: option.splits)

text \<open>The last value given for a flag counts, everything else stays at its default.\<close>

theorem config_of_flags:
  assumes "parse_flags daemon_formal [] args = FlagsSet vals rest"
  shows "option_value (daemon_config vals) n =
      (case map_of (rev vals) n of None \<Rightarrow> option_value (default_config, False) n | Some v \<Rightarrow> Some v)"
    and "fixed_fields (fst (daemon_config vals)) = fixed_fields default_config"
  using parse_flags_typed [OF assms] fold_option_value [of vals "(default_config, False)"]
  by (simp_all add: daemon_config_def)

lemma daemon_flag_names: "map_of daemon_formal n = Some k \<Longrightarrow> flag_name_ok n"
  by (auto simp: daemon_formal_def flag_name_ok_def split: if_splits)

theorem written_flags_configure:
  assumes "\<forall>(f, n, v) \<in> set fs. \<exists>k. map_of daemon_formal n = Some k \<and> set_flag k v = Inr (val n v) \<and> form_fits k f v"
    and "flags_stop rest"
  shows "\<exists>vals. parse_flags daemon_formal [] (concat (map write_flag fs) @ rest) = FlagsSet vals (left_over rest) \<and>
    (\<forall>n. option_value (daemon_config vals) n =
      (case map_of (rev (map (\<lambda>(f, n, v). (n, val n v)) fs)) n of
         None \<Rightarrow> option_value (default_config, False) n | Some x \<Rightarrow> Some x)) \<and>
    fixed_fields (fst (daemon_config vals)) = fixed_fields default_config"
proof -
  have "\<forall>(f, n, v) \<in> set fs. flag_name_ok n \<and> (\<exists>k. map_of daemon_formal n = Some k \<and> set_flag k v = Inr (val n v) \<and> form_fits k f v)"
    using assms(1) daemon_flag_names by fast
  from parse_flags_roundtrip [OF this assms(2), of "[]"]
  have p: "parse_flags daemon_formal [] (concat (map write_flag fs) @ rest) = FlagsSet (map (\<lambda>(f, n, v). (n, val n v)) fs) (left_over rest)"
    by simp
  show ?thesis using p config_of_flags [OF p] by blast
qed

section \<open>What a process does\<close>

lemma daemon_process_cases:
  assumes "daemon_process h io args m = (m', rs, e)"
  obtains
    (unchanged) "m' = m" "rs = []" "(e = Some Helped \<and> parse_flags daemon_formal [] args = HelpAsked) \<or> (\<exists>x. e = Some (BadUsage x)) \<or> e = Some (Fatal NoFirewall) \<or> e = Some (Fatal NoStoreDir)"
  | (teardown) vals rest kind c b r where "parse_flags daemon_formal [] args = FlagsSet vals rest" "daemon_config vals = (c, True)"
      "detected io = Some kind" "op_teardown (host_backends h kind) (None, kernel m) = (b, r)"
      "m' = m\<lparr>kernel := snd b\<rparr>" "rs = []"
      "e = Some (case r of None \<Rightarrow> Removed (op_name (host_backends h kind)) | Some x \<Rightarrow> Fatal (TeardownError x))"
  | (stuck) vals rest kind c eng x where "parse_flags daemon_formal [] args = FlagsSet vals rest" "daemon_config vals = (c, False)"
      "detected io = Some kind"
      "rebuild (daemon_cfg (host_backends h kind) (host_order h) c) (first_world io) ResolveAll
         (fresh_engine (disks m (store_dir (cfg_store_dir c))) (kernel m)) = (eng, Some x)"
      "m' = left_by (store_dir (cfg_store_dir c)) eng m" "rs = []" "e = Some (Fatal (ReconcileError x))"
  | (served) vals rest kind c eng s stop where "parse_flags daemon_formal [] args = FlagsSet vals rest" "daemon_config vals = (c, False)"
      "detected io = Some kind"
      "rebuild (daemon_cfg (host_backends h kind) (host_order h) c) (first_world io) ResolveAll
         (fresh_engine (disks m (store_dir (cfg_store_dir c))) (kernel m)) = (eng, None)"
      "serve_goroutines (daemon_service h kind c) io (new_server c eng) = (s, stop)"
      "m' = left_by (store_dir (cfg_store_dir c)) (eng_of (dm_sys s)) m" "rs = answers_given s"
      "e = (case stop of None \<Rightarrow> None | Some x \<Rightarrow> Some (if x = ShutDown then Stopped else Fatal (ServerError x)))"
proof (cases "parse_flags daemon_formal [] args")
  case HelpAsked
  then show ?thesis using assms unchanged by (simp add: daemon_process_def)
next
  case (FlagError x)
  then have "m' = m" "rs = []" "e = Some (BadUsage x)" using assms by (simp_all add: daemon_process_def)
  then show ?thesis using unchanged by blast
next
  case flags: (FlagsSet vals rest)
  obtain c td where c: "daemon_config vals = (c, td)" by (cases "daemon_config vals")
  have run: "daemon_run h io c td m = (m', rs, e)" using assms flags c by (simp add: daemon_process_def)
  show ?thesis
  proof (cases "detected io")
    case None
    then show ?thesis using run unchanged by (simp add: daemon_run_def)
  next
    case kind: (Some kind)
    show ?thesis
    proof (cases td)
      case True
      obtain b r where b: "op_teardown (host_backends h kind) (None, kernel m) = (b, r)"
        by (cases "op_teardown (host_backends h kind) (None, kernel m)")
      then show ?thesis
        using run kind True teardown [OF flags _ kind b] c by (cases r) (simp_all add: daemon_run_def Let_def)
    next
      case False
      let ?dir = "store_dir (cfg_store_dir c)"
      obtain eng r where r: "rebuild (daemon_cfg (host_backends h kind) (host_order h) c) (first_world io) ResolveAll
         (fresh_engine (disks m ?dir) (kernel m)) = (eng, r)"
        by (cases "rebuild (daemon_cfg (host_backends h kind) (host_order h) c) (first_world io) ResolveAll
         (fresh_engine (disks m ?dir) (kernel m))")
      obtain s stop where s: "serve_goroutines (daemon_service h kind c) io (new_server c eng) = (s, stop)"
        by (cases "serve_goroutines (daemon_service h kind c) io (new_server c eng)")
      show ?thesis
      proof (cases "can_mkdir io ?dir")
        case no: False
        then show ?thesis using run kind False unchanged by (simp add: daemon_run_def Let_def)
      next
        case True
        show ?thesis
        proof (cases r)
          case None
          have "m' = left_by ?dir (eng_of (dm_sys s)) m" "rs = answers_given s"
            "e = (case stop of None \<Rightarrow> None | Some x \<Rightarrow> Some (if x = ShutDown then Stopped else Fatal (ServerError x)))"
            using run kind False True r s None by (auto simp: daemon_run_def Let_def split: option.splits run_result.splits)
          then show ?thesis using served [OF flags _ kind] c False r s None by simp
        next
          case (Some x)
          then show ?thesis using run kind False True r c stuck [OF flags _ kind, of c eng x]
            by (simp add: daemon_run_def Let_def)
        qed
      qed
    qed
  qed
qed

text \<open>The process serves exactly if \<open>daemon_main\<close> says so.\<close>

lemma daemon_run_serving:
  assumes "daemon_main (detected io) (host_backends h) td (can_mkdir io (store_dir (cfg_store_dir c))) (host_order h) c
      (first_world io) (disks m (store_dir (cfg_store_dir c))) (None, kernel m) = Serving s0"
    and "serve_goroutines (daemon_service h kind c) io s0 = (s, stop)" "detected io = Some kind"
  shows "fst (daemon_run h io c td m) = left_by (store_dir (cfg_store_dir c)) (eng_of (dm_sys s)) m"
    and "fst (snd (daemon_run h io c td m)) = answers_given s"
proof -
  have td: "\<not> td" "can_mkdir io (store_dir (cfg_store_dir c))"
    and st: "start_daemon (daemon_cfg (host_backends h kind) (host_order h) c) c (first_world io)
      (disks m (store_dir (cfg_store_dir c))) (None, kernel m) = Some s0"
    using assms(1,3) by (auto simp: daemon_main_def split: if_splits prod.splits option.splits)
  then obtain eng where "rebuild (daemon_cfg (host_backends h kind) (host_order h) c) (first_world io) ResolveAll
      (fresh_engine (disks m (store_dir (cfg_store_dir c))) (kernel m)) = (eng, None)" "s0 = new_server c eng"
    by (auto simp: start_daemon_def fresh_engine_def split: prod.splits option.splits)
  then show "fst (daemon_run h io c td m) = left_by (store_dir (cfg_store_dir c)) (eng_of (dm_sys s)) m"
    "fst (snd (daemon_run h io c td m)) = answers_given s"
    using td assms(2,3) by (auto simp: daemon_run_def Let_def split: option.splits run_result.splits)
qed

text \<open>What the exit status tells a service manager\<close>

theorem status_zero:
  assumes "daemon_process h io args m = (m', rs, Some e)" "exit_status e = 0"
  shows "e = Helped \<and> m' = m \<or>
    (\<exists>kind b. detected io = Some kind \<and> op_teardown (host_backends h kind) (None, kernel m) = (b, None) \<and>
       e = Removed (op_name (host_backends h kind)) \<and> m' = m\<lparr>kernel := snd b\<rparr>) \<or>
    e = Stopped \<and> (\<exists>kind c eng s. detected io = Some kind \<and>
       serve_goroutines (daemon_service h kind c) io (new_server c eng) = (s, Some ShutDown))"
  using assms(1)
proof (cases rule: daemon_process_cases)
  case unchanged
  then show ?thesis using assms(2) by auto
next
  case (teardown vals rest kind c b r)
  show ?thesis
  proof (cases r)
    case None
    then show ?thesis using teardown by (intro disjI2 disjI1 exI [of _ kind] exI [of _ b]) simp
  qed (use teardown assms(2) in simp)
next
  case (stuck vals rest kind c eng x)
  then show ?thesis using assms(2) by simp
next
  case (served vals rest kind c eng s stop)
  then show ?thesis using assms(2) by (cases stop) (auto split: if_splits)
qed

section \<open>One process after the other\<close>

text \<open>
  What the kernel should block, from the lists and the name service alone: an address that is
  listed, or that a listed domain has.
\<close>

definition asked_list :: "(string \<Rightarrow> string + resolved) \<Rightarrow> blocklist \<Rightarrow> bool \<Rightarrow> string \<Rightarrow> bool" where
  "asked_list dns bl v6 a \<longleftrightarrow>
     (\<exists>ip \<in> set (IPs bl). \<exists>x. parse_ip ip = Some x \<and> (to4 x = None \<longleftrightarrow> v6) \<and> ip_string x = a) \<or>
     (\<exists>d \<in> set (Domains bl). \<exists>r. dns d = Inr r \<and> a \<in> set (cached_addrs v6 r))"

definition asked :: "(string \<Rightarrow> string + resolved) \<Rightarrow> disk \<Rightarrow> packet \<Rightarrow> bool" where
  "asked dns d p \<longleftrightarrow>
     asked_list dns (global_list d) (is_v6 p) (daddr p) \<or>
     (go_int (skuid p) \<and> asked_list dns (user_list d (skuid p)) (is_v6 p) (daddr p))"

text \<open>Both backends keep the contract that the engine relies on, and leave alone what the other has made.\<close>

definition host_ok :: "'k host \<Rightarrow> (backend_kind \<Rightarrow> 'k \<Rightarrow> packet \<Rightarrow> bool) \<Rightarrow> (backend_kind \<Rightarrow> 'k backend_state \<Rightarrow> bool) \<Rightarrow> bool" where
  "host_ok h verdict be_inv \<longleftrightarrow>
     iteration_order (host_order h) \<and>
     (\<forall>kind. backend (op_apply (host_backends h kind)) (\<lambda>b. verdict kind (snd b)) (be_inv kind) \<and>
       (\<forall>k. be_inv kind (None, k)) \<and>
       (\<forall>b st. be_inv kind b \<and> wf_state st \<longrightarrow>
          verdict (other_kind kind) (snd (fst (op_apply (host_backends h kind) b st))) = verdict (other_kind kind) (snd b)) \<and>
       (\<forall>b. verdict (other_kind kind) (snd (fst (op_teardown (host_backends h kind) b))) = verdict (other_kind kind) (snd b)))"

text \<open>The invariant of a backend in a process that found the kernel as \<open>k\<close>\<close>

definition kept ::
    "(backend_kind \<Rightarrow> 'k \<Rightarrow> packet \<Rightarrow> bool) \<Rightarrow> (backend_kind \<Rightarrow> 'k backend_state \<Rightarrow> bool) \<Rightarrow> backend_kind \<Rightarrow> 'k \<Rightarrow>
     'k backend_state \<Rightarrow> bool" where
  "kept verdict be_inv kind k b \<longleftrightarrow> be_inv kind b \<and> verdict (other_kind kind) (snd b) = verdict (other_kind kind) k"

definition machine_ok :: "'k machine \<Rightarrow> bool" where
  "machine_ok m \<longleftrightarrow> (\<forall>dir. wf_disk (new_store (disks m dir)) \<and> disk_uids_ok (new_store (disks m dir)))"

definition process_ok :: "'k host \<Rightarrow> process_io \<Rightarrow> bool" where
  "process_ok h io \<longleftrightarrow> world_ok (first_world io) \<and> (\<forall>w \<in> set (ticks io). world_ok w) \<and>
     (\<forall>kind c. \<forall>x \<in> set (connections io). conn_ok (daemon_service h kind c) x)"

lemma new_store_wf: "wf_disk d \<Longrightarrow> new_store d = d"
  by (auto simp: wf_disk_def new_store_def)

lemma desired_fresh:
  assumes "\<forall>x. map_of c x = (if wanted_on d x then
      (case dns x of Inl e \<Rightarrow> None | Inr r \<Rightarrow> Some \<lparr>res = r, expires = t\<rparr>) else None)"
  shows "desired d c p \<longleftrightarrow> asked dns d p"
proof -
  have l: "listed c bl v6 a \<longleftrightarrow> asked_list dns bl v6 a" if w: "\<forall>x \<in> set (Domains bl). wanted_on d x" for bl v6 a
  proof -
    have "(\<exists>e. map_of c x = Some e \<and> a \<in> set (cached_addrs v6 (res e))) \<longleftrightarrow>
        (\<exists>r. dns x = Inr r \<and> a \<in> set (cached_addrs v6 r))" if "x \<in> set (Domains bl)" for x
      using assms w that by (simp split: sum.split)
    then show ?thesis unfolding listed_def asked_list_def by simp
  qed
  have "wanted_on d x" if "x \<in> set (Domains (global_list d))" for x using that by (simp add: wanted_on_def)
  moreover have "wanted_on d x" if "go_int u" "x \<in> set (Domains (user_list d u))" for u x
    using that by (auto simp: wanted_on_def)
  ultimately show ?thesis unfolding desired_def asked_def using l by blast
qed

lemma host_engine:
  assumes "host_ok h verdict be_inv"
  shows "engine_parts (daemon_cfg (host_backends h kind) (host_order h) c) (\<lambda>b. verdict kind (snd b)) (kept verdict be_inv kind k)"
    and "kept verdict be_inv kind k (None, k)"
    and "verdict (other_kind kind) (snd (fst (op_teardown (host_backends h kind) b))) = verdict (other_kind kind) (snd b)"
proof -
  have b: "backend (op_apply (host_backends h kind)) (\<lambda>b. verdict kind (snd b)) (be_inv kind)"
    "\<And>b st. be_inv kind b \<Longrightarrow> wf_state st \<Longrightarrow>
       verdict (other_kind kind) (snd (fst (op_apply (host_backends h kind) b st))) = verdict (other_kind kind) (snd b)"
    "iteration_order (host_order h)" and n: "be_inv kind (None, k)"
    using assms unfolding host_ok_def by blast+
  have "backend (op_apply (host_backends h kind)) (\<lambda>b. verdict kind (snd b))
      (\<lambda>b. be_inv kind b \<and> verdict (other_kind kind) (snd b) = verdict (other_kind kind) k)"
    by (rule backend_frame [where frame = "\<lambda>b. verdict (other_kind kind) (snd b)", OF b(1,2)])
  then show "engine_parts (daemon_cfg (host_backends h kind) (host_order h) c) (\<lambda>b. verdict kind (snd b)) (kept verdict be_inv kind k)"
    using b(3) by (intro engine_partsI) (simp_all add: kept_def [abs_def])
  show "kept verdict be_inv kind k (None, k)" using n by (simp add: kept_def)
  show "verdict (other_kind kind) (snd (fst (op_teardown (host_backends h kind) b))) = verdict (other_kind kind) (snd b)"
    using assms unfolding host_ok_def by blast
qed

lemma machine_engine:
  assumes "host_ok h verdict be_inv" "machine_ok m"
  shows "engine_inv (kept verdict be_inv kind (kernel m)) (fresh_engine (disks m dir) (kernel m))"
  using assms by (simp add: engine_inv_def fresh_engine_def machine_ok_def wf_cache_def host_engine(2))

lemma kept_engine:
  "engine_inv (kept verdict be_inv kind k) eng \<Longrightarrow> verdict (other_kind kind) (snd (be_state eng)) = verdict (other_kind kind) k"
  by (simp add: engine_inv_def kept_def)

lemma left_by_ok:
  assumes "machine_ok m" "engine_inv be_inv eng"
  shows "machine_ok (left_by dir eng m)"
  using assms by (auto simp: machine_ok_def left_by_def engine_inv_def new_store_wf)

lemma reconciled:
  assumes "host_ok h verdict be_inv" "machine_ok m" "world_ok w"
    and "rebuild (daemon_cfg (host_backends h kind) (host_order h) c) w ResolveAll (fresh_engine (disks m dir) (kernel m)) = (eng, r)"
  shows "engine_inv (kept verdict be_inv kind (kernel m)) eng" "disk_of eng = new_store (disks m dir)"
    and "r = None \<Longrightarrow> verdict kind (snd (be_state eng)) p \<longleftrightarrow> asked (answers w) (new_store (disks m dir)) p"
proof -
  let ?d = "new_store (disks m dir)" and ?cfg = "daemon_cfg (host_backends h kind) (host_order h) c"
  note parts = host_engine(1) [OF assms(1), of kind c "kernel m"]
  note i = machine_engine [OF assms(1,2), of kind dir]
  show "engine_inv (kept verdict be_inv kind (kernel m)) eng" using engine_parts.rebuild_ok(1) [OF parts i assms(3,4)] .
  show d: "disk_of eng = ?d" using rebuild_disk [OF assms(4)] by (simp add: fresh_engine_def)
  assume r: "r = None"
  have wf: "wf_disk (disk_of (fresh_engine (disks m dir) (kernel m)))" using i by (simp add: engine_inv_def)
  have "map_of (cache eng) x = (if wanted_on ?d x then
      (case answers w x of Inl e \<Rightarrow> None | Inr q \<Rightarrow> Some \<lparr>res = q, expires = now_second w + ttl ?cfg\<rparr>) else None)" for x
    using rebuild_cache [OF assms(4) engine_parts.order [OF parts] wf, of x] r
    by (simp add: expected_cache_def fresh_engine_def needs_resolving_def split: sum.split)
  then have "desired ?d (cache eng) p \<longleftrightarrow> asked (answers w) ?d p" by (intro desired_fresh) blast
  then show "verdict kind (snd (be_state eng)) p \<longleftrightarrow> asked (answers w) ?d p"
    using engine_parts.rebuild_ok(2) [OF parts i assms(3,4) r] by (simp add: d)
qed

definition started_in :: "string list \<Rightarrow> string \<Rightarrow> bool" where
  "started_in args dir \<longleftrightarrow>
     (case parse_flags daemon_formal [] args of
        FlagsSet vals rest \<Rightarrow> dir = store_dir (cfg_store_dir (fst (daemon_config vals)))
      | _ \<Rightarrow> False)"

text \<open>The goroutines keep the engine in order, wherever they are when the process ends.\<close>

lemma serve_goroutines_inv:
  assumes "engine_parts cfg verdict be_inv" "eng_cfg sv = cfg" "engine_inv be_inv (srv_engine s)"
    and "\<forall>c \<in> set (connections io). conn_ok sv c" "\<forall>w \<in> set (ticks io). world_ok w"
    and "\<forall>x. verdict (be_state (srv_engine s)) x \<longleftrightarrow> desired (disk_of (srv_engine s)) (cache (srv_engine s)) x"
    and "serve_goroutines sv io s = (s', stop)"
  shows "engine_inv be_inv (eng_of (dm_sys s'))"
proof -
  have inv: "engine_inv be_inv (eng_of (dm_sys (run_daemon sv (turns io) (serving cs (ticks io) s))))"
    if "\<forall>c \<in> set cs. conn_ok sv c" for cs
    using engine_parts.run_daemon_inv [OF assms(1) engine_parts.serving_daemon_inv [OF assms(1,3) that assms(5,6)] assms(2), of "turns io"]
    by (simp add: engine_parts.daemon_inv_def [OF assms(1)] sys_ok_def)
  show ?thesis using assms(7) inv [OF assms(4)] inv [of "[]"] by (auto simp: serve_goroutines_def split: option.splits)
qed

text \<open>
  Every process leaves a machine in order; only the directory it was started with changes, and the rules
  of the backend that it has not detected stay as they are.
\<close>

theorem process_keeps_order:
  assumes "host_ok h verdict be_inv" "machine_ok m" "process_ok h io" "daemon_process h io args m = (m', rs, e)"
  shows "machine_ok m'"
    and "\<not> started_in args dir2 \<Longrightarrow> disks m' dir2 = disks m dir2"
    and "detected io \<noteq> Some kind2 \<Longrightarrow> verdict kind2 (kernel m') = verdict kind2 (kernel m)"
proof -
  have w: "world_ok (first_world io)" using assms(3) by (simp add: process_ok_def)
  have other: "verdict kind2 (kernel m') = verdict kind2 (kernel m)"
    if "detected io = Some kind" "detected io \<noteq> Some kind2" "verdict (other_kind kind) (kernel m') = verdict (other_kind kind) (kernel m)" for kind
    using that other_kind_iff [of kind2 kind] by auto
  have "machine_ok m' \<and> (\<not> started_in args dir2 \<longrightarrow> disks m' dir2 = disks m dir2) \<and>
      (detected io \<noteq> Some kind2 \<longrightarrow> verdict kind2 (kernel m') = verdict kind2 (kernel m))"
    using assms(4)
  proof (cases rule: daemon_process_cases)
    case unchanged
    then show ?thesis using assms(2) by simp
  next
    case (teardown vals rest kind c b r)
    have "verdict (other_kind kind) (kernel m') = verdict (other_kind kind) (kernel m)"
      using host_engine(3) [OF assms(1), of kind "(None, kernel m)"] teardown(4,5) by simp
    then show ?thesis using assms(2) teardown other [of kind] by (simp add: machine_ok_def)
  next
    case (stuck vals rest kind c eng x)
    note r = reconciled(1) [OF assms(1,2) w stuck(4)]
    show ?thesis
      using stuck left_by_ok [OF assms(2) r] kept_engine [OF r] other [of kind] by (auto simp: left_by_def started_in_def)
  next
    case (served vals rest kind c eng s stop)
    note r = reconciled [OF assms(1,2) w served(4)] and parts = host_engine(1) [OF assms(1), of kind c "kernel m"]
    have "verdict kind (snd (be_state eng)) x \<longleftrightarrow> desired (disk_of eng) (cache eng) x" for x
      using engine_parts.rebuild_ok(2) [OF parts machine_engine [OF assms(1,2)] w served(4) refl] .
    then have i: "engine_inv (kept verdict be_inv kind (kernel m)) (eng_of (dm_sys s))"
      using serve_goroutines_inv [OF parts _ _ _ _ _ served(5)] r(1) assms(3)
      by (simp add: daemon_service_def process_ok_def new_server_def)
    show ?thesis using served left_by_ok [OF assms(2) i] kept_engine [OF i] other [of kind] by (auto simp: left_by_def started_in_def)
  qed
  then show "machine_ok m'" and "\<not> started_in args dir2 \<Longrightarrow> disks m' dir2 = disks m dir2"
    and "detected io \<noteq> Some kind2 \<Longrightarrow> verdict kind2 (kernel m') = verdict kind2 (kernel m)" by blast+
qed

text \<open>Any number of processes, one after the other\<close>

fun run_processes :: "'k host \<Rightarrow> (process_io \<times> string list) list \<Rightarrow> 'k machine \<Rightarrow> 'k machine" where
  "run_processes h [] m = m"
| "run_processes h ((io, args) # ps) m = run_processes h ps (fst (daemon_process h io args m))"

lemma processes_keep_order:
  assumes "host_ok h verdict be_inv" "machine_ok m" "\<forall>(io, args) \<in> set ps. process_ok h io"
  shows "machine_ok (run_processes h ps m)"
    and "\<forall>(io, args) \<in> set ps. detected io \<noteq> Some kind \<Longrightarrow> verdict kind (kernel (run_processes h ps m)) = verdict kind (kernel m)"
proof -
  have "machine_ok (run_processes h ps m) \<and>
    ((\<forall>(io, args) \<in> set ps. detected io \<noteq> Some kind) \<longrightarrow> verdict kind (kernel (run_processes h ps m)) = verdict kind (kernel m))"
    using assms(2,3)
  proof (induction ps arbitrary: m)
    case (Cons p ps)
    obtain io args where p: "p = (io, args)" by (cases p)
    obtain m' rs e where d: "daemon_process h io args m = (m', rs, e)" by (cases "daemon_process h io args m")
    have io: "process_ok h io" using Cons.prems(2) p by simp
    note k = process_keeps_order [OF assms(1) Cons.prems(1) io d]
    show ?case using Cons.IH [OF k(1)] k(3) [of kind] Cons.prems(2) by (simp add: p d)
  qed simp
  then show "machine_ok (run_processes h ps m)"
    and "\<forall>(io, args) \<in> set ps. detected io \<noteq> Some kind \<Longrightarrow> verdict kind (kernel (run_processes h ps m)) = verdict kind (kernel m)"
    by blast+
qed

text \<open>
  A process that has got as far as serving: its backend's rules are what the lists in its directory
  and the name service ask for, and the lists are those that the processes before it left. What the other backend
  had in force stays in force.
\<close>

theorem restart_enforces:
  assumes "host_ok h verdict be_inv" "machine_ok m1"
    and "process_ok h io2" "turns io2 = []" "daemon_process h io2 args2 m1 = (m2, rs2, None)" "started_in args2 dir"
  shows "\<exists>kind. detected io2 = Some kind \<and> disks m2 = (disks m1)(dir := new_store (disks m1 dir)) \<and>
    (\<forall>t. content (disks m2 dir) t = content (new_store (disks m1 dir)) t) \<and>
    (\<forall>p. kernel_drops verdict (kernel m2) p \<longleftrightarrow>
       asked (answers (first_world io2)) (disks m2 dir) p \<or> verdict (other_kind kind) (kernel m1) p)"
proof -
  have w: "world_ok (first_world io2)" using assms(3) by (simp add: process_ok_def)
  show ?thesis using assms(5)
  proof (cases rule: daemon_process_cases)
    case (served vals rest kind c eng s stop)
    have dir: "store_dir (cfg_store_dir c) = dir" using assms(6) served(1,2) by (simp add: started_in_def)
    note r = reconciled [OF assms(1,2) w served(4)]
    have "stop = None" using served(8) by (cases stop) auto
    then have "eng_of (dm_sys s) = eng"
      using served(5) assms(4) by (auto simp: serve_goroutines_def serving_def start_sys_def new_server_def split: option.splits)
    then have m2: "disks m2 = (disks m1)(dir := new_store (disks m1 dir))" "kernel m2 = snd (be_state eng)"
      using served(6) r(2) dir by (simp_all add: left_by_def)
    then have "kernel_drops verdict (kernel m2) p \<longleftrightarrow>
        asked (answers (first_world io2)) (disks m2 dir) p \<or> verdict (other_kind kind) (kernel m1) p" for p
      using r(3) [of p] kept_engine [OF r(1)] dir by (simp add: kernel_drops_kind [of _ _ _ kind])
    then show ?thesis using served(3) m2(1) by auto
  qed auto
qed

section \<open>The host with the real backends\<close>

definition real_host ::
    "'k tool \<Rightarrow> 'k tool \<Rightarrow> ('k \<Rightarrow> string option) \<Rightarrow> (string list \<Rightarrow> string list) \<Rightarrow> user_db \<Rightarrow> (string \<Rightarrow> string) \<Rightarrow> 'k host" where
  "real_host nft ipt list_out ord db u =
     \<lparr>host_backends = (\<lambda>kind. case kind of Nftables \<Rightarrow> nft_ops nft | IptablesIpset \<Rightarrow> ipt_ops ipt list_out),
      host_order = ord, host_users = db, host_lower = u\<rparr>"

lemma real_host_simps [simp]:
  "host_backends (real_host nft ipt list_out ord db u) Nftables = nft_ops nft"
  "host_backends (real_host nft ipt list_out ord db u) IptablesIpset = ipt_ops ipt list_out"
  "host_order (real_host nft ipt list_out ord db u) = ord"
  by (simp_all add: real_host_def)

lemma ops_simps [simp]:
  "op_apply (nft_ops nft) = nft_apply nft" "op_teardown (nft_ops nft) = nft_teardown nft" "op_name (nft_ops nft) = nft_name"
  "op_apply (ipt_ops ipt lo) = ipt_apply ipt" "op_teardown (ipt_ops ipt lo) = ipt_teardown ipt lo" "op_name (ipt_ops ipt lo) = ipt_name"
  by (simp_all add: nft_ops_def ipt_ops_def)

definition real_inv :: "('k \<Rightarrow> nft_tbl option) \<Rightarrow> ('k \<Rightarrow> ipt_view) \<Rightarrow> backend_kind \<Rightarrow> 'k backend_state \<Rightarrow> bool" where
  "real_inv rules view kind = (case kind of Nftables \<Rightarrow> nft_inv rules | IptablesIpset \<Rightarrow> ipt_inv view)"

lemma real_inv_simps [simp]: "real_inv rules view Nftables = nft_inv rules" "real_inv rules view IptablesIpset = ipt_inv view"
  by (simp_all add: real_inv_def)

lemma nft_inv_wf: "nft_inv rules b \<Longrightarrow> fst b = Some prev \<Longrightarrow> wf_state prev"
  by (simp add: nft_inv_def)

lemma real_host_ok:
  assumes "nft_kernel nft rules" "ipt_kernel ipt view" "tools_apart nft ipt rules view" "iteration_order ord"
  shows "host_ok (real_host nft ipt list_out ord db u) (real_verdict rules view) (real_inv rules view)"
proof -
  have n: "backend (nft_apply nft) (\<lambda>b. nft_verdict (rules (snd b))) (nft_inv rules)"
    and i: "backend (ipt_apply ipt) (\<lambda>b. ipt_verdict (view (snd b))) (ipt_inv view)"
    using nft_backend [OF assms(1)] ipt_backend [OF assms(2)] .
  have "nft_inv rules b \<Longrightarrow> wf_state st \<Longrightarrow> view (snd (fst (nft_apply nft b st))) = view (snd b)" for b st
    using nft_apply_apart [OF assms(3)] nft_inv_wf by blast
  moreover have "nft_inv rules (None, k)" "ipt_inv view (None, k)" for k by (simp_all add: nft_inv_def ipt_inv_def)
  moreover have "(\<forall>kind. P kind) \<longleftrightarrow> P Nftables \<and> P IptablesIpset" for P using backend_kind.exhaust by metis
  ultimately show ?thesis
    using n i assms(4) ipt_apply_apart [OF assms(3)] ipt_teardown_apart [OF assms(3)] nft_teardown_apart [OF assms(3)]
    by (simp add: host_ok_def)
qed

text \<open>What the last process that serves has in force, whatever processes came before\<close>

theorem real_restart_enforces:
  assumes "nft_kernel nft rules" "ipt_kernel ipt view" "tools_apart nft ipt rules view" "iteration_order ord"
    and "h = real_host nft ipt list_out ord db u" "machine_ok m" "\<forall>(io, args) \<in> set ps. process_ok h io" "run_processes h ps m = m1"
    and "process_ok h io2" "turns io2 = []" "daemon_process h io2 args2 m1 = (m2, rs2, None)" "started_in args2 dir"
  shows "\<exists>kind. detected io2 = Some kind \<and> disks m2 = (disks m1)(dir := new_store (disks m1 dir)) \<and>
    (\<forall>t. content (disks m2 dir) t = content (new_store (disks m1 dir)) t) \<and>
    (\<forall>p. kernel_drops (real_verdict rules view) (kernel m2) p \<longleftrightarrow>
       asked (answers (first_world io2)) (disks m2 dir) p \<or> real_verdict rules view (other_kind kind) (kernel m1) p) \<and>
    ((\<forall>(io, args) \<in> set ps. detected io \<noteq> Some (other_kind kind)) \<longrightarrow>
       real_verdict rules view (other_kind kind) (kernel m1) = real_verdict rules view (other_kind kind) (kernel m))"
proof -
  note ok = real_host_ok [OF assms(1-4), of list_out db u, folded assms(5)]
  note k = processes_keep_order [OF ok assms(6,7), unfolded assms(8)]
  show ?thesis using restart_enforces [OF ok k(1) assms(9-12)] k(2) by blast
qed

text \<open>
  Removing the rules on request: what is blocked after \<open>-teardown\<close> with status 0 was blocked before, by rules of the
  other backend, or because the command that empties the chain of \<open>iptables\<close> has failed.
\<close>

theorem teardown_leaves:
  assumes "nft_kernel nft rules" "ipt_kernel ipt view" "tools_apart nft ipt rules view" "list_doc list_out view"
    and "daemon_process (real_host nft ipt list_out ord db u) io args m = (m', rs, Some e)" "exit_status e = 0"
    and "parse_flags daemon_formal [] args = FlagsSet vals rest" "option_value (daemon_config vals) ''teardown'' = Some (BoolVal True)"
  shows "\<exists>kind. detected io = Some kind \<and> disks m' = disks m \<and> rs = [] \<and>
    (\<forall>p. kernel_drops (real_verdict rules view) (kernel m') p \<longrightarrow>
       kernel_drops (real_verdict rules view) (kernel m) p \<and>
       (real_verdict rules view (other_kind kind) (kernel m) p \<or>
        kind = IptablesIpset \<and> (cmd (fam (is_v6 p)), [''-F'', ip_chain], False) \<in> set (teardown_outcomes ipt list_out (kernel m))))"
  using assms(5)
proof (cases rule: daemon_process_cases)
  case (teardown vals' rest' kind c b r)
  have r: "r = None" using teardown(7) assms(6) by (cases r) auto
  have k: "kernel m' = snd b" "disks m' = disks m" using teardown(5) by simp_all
  show ?thesis
  proof (cases kind)
    case Nftables
    then have t: "nft_teardown nft (None, kernel m) = (b, None)" using teardown(4) r by simp
    have "rules (snd b) = None" using nft_kernel.teardown_cases [OF assms(1) t] by simp
    moreover have "view (snd b) = view (kernel m)" using nft_teardown_apart [OF assms(3), of "(None, kernel m)"] t by simp
    ultimately show ?thesis using teardown(3,6) k Nftables by (auto simp: kernel_drops_def nft_verdict_def)
  next
    case IptablesIpset
    then have t: "ipt_teardown ipt list_out (None, kernel m) = (b, None)" using teardown(4) r by simp
    have "rules (snd b) = rules (kernel m)" using ipt_teardown_apart [OF assms(3), of list_out "(None, kernel m)"] t by simp
    then show ?thesis using teardown(3,6) k IptablesIpset ipt_kernel.teardown_verdict [OF assms(2,4) t]
      by (auto simp: kernel_drops_def)
  qed
next
  case unchanged
  then show ?thesis using assms(6,7) by auto
next
  case (stuck vals' rest' kind c eng x)
  then show ?thesis using assms(6) by simp
next
  case (served vals' rest' kind c eng s stop)
  then show ?thesis using assms(7,8) by (simp add: option_value_def)
qed

end
