(* ===== verification/Drift.thy ===== *)
theory Drift
  imports Engine_Contract
begin

text \<open>
  What \<open>Apply\<close> does when somebody else has changed the firewall behind the daemon: another
  \<open>webblockd -teardown\<close> (the README offers it while the service keeps running), a flushed ruleset, a
  firewall service that reloads its own rules. The backends compare the new state with the one they
  remember, not with the kernel. A difference that they find makes them run a script, and if that
  fails on what is no longer there they rebuild everything; without a difference nothing is run.

  For the engine this is an instance of the contract \<open>backend\<close>, with what the backend believes to be
  in force (\<open>believed\<close>) in place of what is: whatever has been removed behind it, what it believes
  is what the lists ask for.
\<close>

section \<open>Without a difference nothing is run\<close>

lemma nft_same_state:
  assumes "same_uids (PerUser prev) (PerUser st)" "build_delta prev st = []"
  shows "nft_apply tool (Some prev, k) st = ((Some st, k), None)"
  using assms by (simp add: nft_apply_def script_text_Nil)

lemma ipt_same_state:
  assumes "same_uids (PerUser prev) (PerUser st)" "build_set_delta prev st (sorted_uids (PerUser st)) = []"
  shows "ipt_apply tool (Some prev, k) st = ((Some st, k), None)"
  using assms by (simp add: ipt_apply_def Let_def ipset_payload_def)

lemma diff_strings_same [simp]: "diff_strings xs xs = ([], [])"
  by (simp add: diff_strings_def)

lemma build_delta_same [simp]: "build_delta st st = []"
  by (simp add: build_delta_def write_element_delta_def)

lemma build_set_delta_same [simp]: "build_set_delta st st us = []"
  by (simp add: build_set_delta_def write_set_elem_delta_def)

lemma same_uids_self [simp]: "same_uids us us"
  by (auto simp: same_uids_def list_all_iff dest: weak_map_of_SomeI)

text \<open>No difference in the sets means none in what is blocked.\<close>

lemma no_delta_same_blocked:
  assumes "wf_state prev" "wf_state st" "same_uids (PerUser prev) (PerUser st)" "build_delta prev st = []"
  shows "blocked prev = blocked st"
proof -
  have "table_of prev = table_of st" using exec_build_delta [OF assms(1-3)] assms(4) by simp
  then have "blocked prev p = blocked st p" for p
    using table_of_verdict [OF assms(1), of p] table_of_verdict [OF assms(2), of p] by simp
  then show ?thesis by (rule ext)
qed

section \<open>nftables: the table is gone\<close>

lemma element_cmds: "c \<in> set (write_element_delta n prev nxt) \<Longrightarrow> \<exists>as. c = AddElement n as \<or> c = DeleteElement n as"
  by (auto simp: write_element_delta_def diff_strings_def split: if_splits)

lemma delta_needs_table:
  assumes "build_delta prev st \<noteq> []"
  shows "exec_script (build_delta prev st) None = None"
proof -
  obtain c cs where d: "build_delta prev st = c # cs" using assms by (cases "build_delta prev st") auto
  then have "c \<in> set (concat (map delta_cmds (delta_specs prev st)))" by (simp flip: build_delta_specs)
  then obtain x where "c \<in> set (delta_cmds x)" by auto
  then obtain n as where "c = AddElement n as \<or> c = DeleteElement n as"
    unfolding delta_cmds_def using element_cmds by blast
  then show ?thesis by (auto simp: d)
qed

context nft_kernel
begin

theorem heals_removed_table:
  assumes "wf_state prev" "wf_state st" "rules k = None" "nft_apply tool (Some prev, k) st = (b', r)"
    and "\<not> same_uids (PerUser prev) (PerUser st) \<or> build_delta prev st \<noteq> []"
  shows "(r = None \<and> fst b' = Some st \<and> rules (snd b') = Some (table_of st)) \<or>
    (r = Some NftFailed \<and> fst b' = None \<and> rules (snd b') = None)"
proof (cases "same_uids (PerUser prev) (PerUser st)")
  case False
  then have "nft_full tool k st = (b', r)" using assms(4) by (simp add: nft_apply_def)
  from full_cases [OF assms(2) this] assms(3) show ?thesis by simp
next
  case True
  then have ne: "build_delta prev st \<noteq> []" using assms(5) by simp
  obtain k' ok where run: "run_nft tool (script_text (build_delta prev st)) k = (k', ok)"
    by (cases "run_nft tool (script_text (build_delta prev st)) k")
  note wd = nft_delta_input [OF assms(1,2) True]
  have "\<not> ok" using run_ok [OF wd, of k k'] run delta_needs_table [OF ne] assms(3) by (cases ok) auto
  moreover from this have "rules k' = None" using run_fail [OF wd] run assms(3) by simp
  moreover have "nft_full tool k' st = (b', r)"
    using assms(4) True ne run \<open>\<not> ok\<close> by (simp add: nft_apply_def script_text_Nil)
  ultimately show ?thesis using full_cases [OF assms(2)] by metis
qed

end

section \<open>iptables: the sets are gone, or only the rules\<close>

lemma elem_cmds: "c \<in> set (elem_delta x) \<Longrightarrow> \<exists>a. c = AddEntry (fst x) a \<or> c = DelEntry (fst x) a"
  by (auto simp: elem_delta_def diff_strings_def)

lemma delta_needs_sets:
  assumes "build_set_delta prev st (sorted_uids (PerUser st)) \<noteq> []" "\<forall>s \<in> set (ipt_specs st). ipsets w (fst s) = None"
  shows "exec_sets True (build_set_delta prev st (sorted_uids (PerUser st))) w = None"
proof -
  obtain c cs where d: "build_set_delta prev st (sorted_uids (PerUser st)) = c # cs"
    using assms(1) by (cases "build_set_delta prev st (sorted_uids (PerUser st))") auto
  then have "c \<in> set (concat (map elem_delta (set_deltas prev st)))" unfolding build_set_deltas by simp
  then obtain x a where x: "x \<in> set (set_deltas prev st)" "c = AddEntry (fst x) a \<or> c = DelEntry (fst x) a"
    by (auto dest!: elem_cmds)
  have "new_spec x \<in> set (ipt_specs st)" using x(1) deltas_new [of prev st, symmetric] by simp
  then have "ipsets w (fst x) = None" using assms(2) by (auto simp: new_spec_def)
  then show ?thesis using x(2) by (auto simp: d)
qed

context ipt_kernel
begin

theorem heals_removed_sets:
  assumes "wf_state prev" "wf_state st" "\<forall>s \<in> set (ipt_specs st). ipsets (view k) (fst s) = None"
    and "ipt_apply tool (Some prev, k) st = (b', r)"
    and "\<not> same_uids (PerUser prev) (PerUser st) \<or> build_set_delta prev st (sorted_uids (PerUser st)) \<noteq> []"
  shows "(r = None \<and> fst b' = Some st \<and> matches (view (snd b')) st) \<or> (r \<noteq> None \<and> fst b' = None)"
proof (cases "same_uids (PerUser prev) (PerUser st)")
  case False
  then show ?thesis using assms(4) ipt_full_cases [OF assms(2), of k] by (simp add: ipt_apply_def)
next
  case True
  let ?cs = "build_set_delta prev st (sorted_uids (PerUser st))"
  have ne: "?cs \<noteq> []" using True assms(5) by simp
  obtain k' ok where run: "tool ''ipset'' (restore_args True) (ipset_payload ?cs) k = (k', ok)"
    by (cases "tool ''ipset'' (restore_args True) (ipset_payload ?cs) k")
  have "\<not> ok"
    using ipset_run [OF delta_input [OF assms(1,2) True] run] delta_needs_sets [OF ne assms(3)] by (cases ok) auto
  then have "ipt_full tool k' st (sorted_uids (PerUser st)) = (b', r)"
    using assms(4) True ne run by (simp add: ipt_apply_def Let_def payload_Nil restore_args_def)
  then show ?thesis by (rule ipt_full_cases [OF assms(2)])
qed

text \<open>
  If only the rules are gone and the sets are still there, the script succeeds on them: an \<open>Apply\<close> that
  changes addresses is reported as a success, and nothing is blocked.
\<close>

theorem removed_rules_unnoticed:
  assumes "wf_state prev" "wf_state st" "same_uids (PerUser prev) (PerUser st)" "has_sets (view k) prev"
    and "\<forall>v6. jumps (view k) v6 = 0"
    and "tool ''ipset'' (restore_args True) (ipset_payload (build_set_delta prev st (sorted_uids (PerUser st)))) k = (k', True)"
    and "ipt_apply tool (Some prev, k) st = (b', r)"
  shows "r = None \<and> fst b' = Some st \<and> has_sets (view (snd b')) st \<and> (\<forall>p. \<not> ipt_verdict (view (snd b')) p)"
proof -
  let ?cs = "build_set_delta prev st (sorted_uids (PerUser st))"
  have ex: "exec_sets True ?cs (view k) = Some (view k')"
    using ipset_run [OF delta_input [OF assms(1-3)] assms(6)] by simp
  note after = exec_set_delta [OF assms(1-4) ex]
  show ?thesis
  proof (cases "?cs = []")
    case True
    then have "view k' = view k" using ex by simp
    then show ?thesis using assms(3,5,7) True after(1) ipt_same_state [OF assms(3) True, of tool k]
      by (auto simp: ipt_verdict_def)
  next
    case False
    then have "b' = (Some st, k')" "r = None"
      using assms(3,6,7) by (auto simp: ipt_apply_def Let_def payload_Nil restore_args_def)
    then show ?thesis using after assms(5) by (auto simp: ipt_verdict_def)
  qed
qed

end

section \<open>What the daemon believes\<close>

definition believed :: "'k backend_state \<Rightarrow> packet \<Rightarrow> bool" where
  "believed b p \<longleftrightarrow> (case fst b of None \<Rightarrow> False | Some st \<Rightarrow> blocked st p)"

lemma nft_remembers: "nft_apply tool b st = (b', None) \<Longrightarrow> fst b' = Some st"
  by (cases b) (auto simp: nft_apply_def nft_full_def Let_def split: option.splits if_splits prod.splits bool.splits)

lemma ipt_remembers: "ipt_apply tool b st = (b', None) \<Longrightarrow> fst b' = Some st"
  by (cases b) (auto simp: ipt_apply_def ipt_full_def Let_def split: option.splits if_splits prod.splits bool.splits)

text \<open>
  In step with the kernel, or everything of ours is gone from the kernel and the backend still believes
  what was in force when it was removed
\<close>

definition nft_drift :: "('k \<Rightarrow> nft_tbl option) \<Rightarrow> (packet \<Rightarrow> bool) \<Rightarrow> 'k backend_state \<Rightarrow> bool" where
  "nft_drift rules before b \<longleftrightarrow> nft_inv rules b \<or>
     (\<exists>st. fst b = Some st \<and> wf_state st \<and> blocked st = before \<and> rules (snd b) = None)"

definition ours_gone :: "ipt_view \<Rightarrow> bool" where
  "ours_gone w \<longleftrightarrow> (\<forall>n. has_prefix n set_prefix \<longrightarrow> ipsets w n = None) \<and> (\<forall>v6. chain w v6 = None)"

definition ipt_drift :: "('k \<Rightarrow> ipt_view) \<Rightarrow> (packet \<Rightarrow> bool) \<Rightarrow> 'k backend_state \<Rightarrow> bool" where
  "ipt_drift view before b \<longleftrightarrow> ipt_inv view b \<or>
     (\<exists>st. fst b = Some st \<and> wf_state st \<and> blocked st = before \<and> ours_gone (view (snd b)))"

lemma nft_drift_verdict:
  assumes "nft_drift rules before b" "fst b \<noteq> None"
  shows "(\<forall>p. nft_verdict (rules (snd b)) p = believed b p) \<or> (\<forall>p. \<not> nft_verdict (rules (snd b)) p) \<and> believed b = before"
proof -
  obtain st where st: "fst b = Some st" using assms(2) by blast
  then have bel: "believed b = blocked st" by (simp add: believed_def fun_eq_iff)
  show ?thesis
  proof (cases "nft_inv rules b")
    case True
    then show ?thesis using st table_of_verdict [of st] by (simp add: nft_inv_def bel)
  next
    case False
    then show ?thesis using assms(1) st by (auto simp: nft_drift_def nft_verdict_def bel)
  qed
qed

lemma ipt_drift_verdict:
  assumes "ipt_drift view before b" "fst b \<noteq> None"
  shows "(\<forall>p. ipt_verdict (view (snd b)) p = believed b p) \<or> (\<forall>p. \<not> ipt_verdict (view (snd b)) p) \<and> believed b = before"
proof -
  obtain st where st: "fst b = Some st" using assms(2) by blast
  then have bel: "believed b = blocked st" by (simp add: believed_def fun_eq_iff)
  show ?thesis
  proof (cases "ipt_inv view b")
    case True
    then show ?thesis using st matches_verdict [of "view (snd b)" st] by (simp add: ipt_inv_def bel)
  next
    case False
    then show ?thesis using assms(1) st by (auto simp: ipt_drift_def ours_gone_def ipt_verdict_def bel)
  qed
qed

text \<open>The two kinds of script are empty together.\<close>

lemma same_deltas:
  assumes "build_set_delta prev st (sorted_uids (PerUser st)) = []"
  shows "build_delta prev st = []"
  using assms
  by (auto simp: build_set_delta_def build_delta_def write_set_elem_delta_def write_element_delta_def Let_def
      split: prod.splits)

lemma specs_prefixed: "s \<in> set (ipt_specs st) \<Longrightarrow> has_prefix (fst s) set_prefix"
  by (auto simp: ipt_specs_def set_name_def has_prefix_iff)

context nft_kernel
begin

lemma drift_backend: "backend (nft_apply tool) believed (nft_drift rules before)"
proof unfold_locales
  fix b st b' r
  assume b: "nft_drift rules before b" "wf_state st" "nft_apply tool b st = (b', r)"
  show "nft_drift rules before b'"
  proof (cases "nft_inv rules b")
    case True
    then show ?thesis using nft.apply_inv [OF True b(2,3)] by (simp add: nft_drift_def)
  next
    case False
    then obtain prev k where p: "b = (Some prev, k)" "wf_state prev" "blocked prev = before" "rules k = None"
      using b(1) by (cases b) (auto simp: nft_drift_def)
    show ?thesis
    proof (cases "same_uids (PerUser prev) (PerUser st) \<and> build_delta prev st = []")
      case True
      then have "b' = (Some st, k)" using nft_same_state [of prev st tool k] b(3) p(1) by simp
      then show ?thesis using no_delta_same_blocked [OF p(2) b(2)] True b(2) p by (simp add: nft_drift_def)
    next
      case False
      then have "nft_inv rules b'"
        using heals_removed_table [OF p(2) b(2) p(4) b(3) [unfolded p(1)]] b(2) by (auto simp: nft_inv_def)
      then show ?thesis by (simp add: nft_drift_def)
    qed
  qed
qed (auto simp: believed_def dest: nft_remembers)

end

context ipt_kernel
begin

lemma drift_backend: "backend (ipt_apply tool) believed (ipt_drift view before)"
proof unfold_locales
  fix b st b' r
  assume b: "ipt_drift view before b" "wf_state st" "ipt_apply tool b st = (b', r)"
  show "ipt_drift view before b'"
  proof (cases "ipt_inv view b")
    case True
    then show ?thesis using ipt.apply_inv [OF True b(2,3)] by (simp add: ipt_drift_def)
  next
    case False
    then obtain prev k where p: "b = (Some prev, k)" "wf_state prev" "blocked prev = before" "ours_gone (view k)"
      using b(1) by (cases b) (auto simp: ipt_drift_def)
    let ?cs = "build_set_delta prev st (sorted_uids (PerUser st))"
    show ?thesis
    proof (cases "same_uids (PerUser prev) (PerUser st) \<and> ?cs = []")
      case True
      then have "b' = (Some st, k)" using ipt_same_state [of prev st tool k] b(3) p(1) by simp
      then show ?thesis using no_delta_same_blocked [OF p(2) b(2)] same_deltas True b(2) p by (simp add: ipt_drift_def)
    next
      case False
      have "\<forall>s \<in> set (ipt_specs st). ipsets (view k) (fst s) = None"
        using p(4) specs_prefixed by (auto simp: ours_gone_def)
      from heals_removed_sets [OF p(2) b(2) this b(3) [unfolded p(1)]] False b(2)
      have "ipt_inv view b'" by (auto simp: ipt_inv_def)
      then show ?thesis by (simp add: ipt_drift_def)
    qed
  qed
qed (auto simp: believed_def dest: ipt_remembers)

end

section \<open>The engine after a removal\<close>

text \<open>
  \<open>before\<close> is what was in force. After the removal, a request or refresh that succeeds has the
  kernel enforce the lists again, unless the lists still ask for the same: then nothing is blocked.
\<close>

lemma build_and_apply_applied:
  assumes "build_and_apply cfg global ulists eng = (eng', None)"
  shows "\<exists>b st. be_apply cfg b st = (be_state eng', None)"
proof (intro exI)
  let ?c = "prune (wanted_domains global ulists) (cache eng)"
  show "be_apply cfg (be_state eng) (build_state (map_order cfg) ?c global ulists) = (be_state eng', None)"
    using assms by (auto simp: build_and_apply_def Let_def split: prod.splits)
qed

lemma rebuild_applied: "rebuild cfg w mode eng = (eng', None) \<Longrightarrow> \<exists>b st. be_apply cfg b st = (be_state eng', None)"
  by (erule rebuild_cases) (simp_all add: build_and_apply_applied)

lemma change_applied:
  "change_entries cfg io w s fn eng = (eng', n, m, None) \<Longrightarrow> \<exists>b st. be_apply cfg b st = (be_state eng', None)"
  by (auto simp: change_entries_def dest: rebuild_applied split: prod.splits sum.splits)

lemma request_applied:
  assumes "run_request cfg q eng = (eng', None)"
  shows "\<exists>b st. be_apply cfg b st = (be_state eng', None)"
  using assms rebuild_applied change_applied
  by (cases "(cfg, q, eng)" rule: run_request.cases) (auto simp: add_entries_def remove_entries_def split: prod.splits)

lemma engine_drift:
  assumes "backend (be_apply cfg) believed drift" "iteration_order (map_order cfg)"
    and "engine_inv be_inv eng" "drift b"
    and "\<forall>q \<in> set (qs @ [q]). request_ok q"
    and "run_request cfg q (run_requests cfg qs (eng\<lparr>be_state := b\<rparr>)) = (eng', None)"
  shows "drift (be_state eng')" "believed (be_state eng') = desired (disk_of eng') (cache eng')"
proof -
  have parts: "engine_parts cfg believed drift" by (rule engine_partsI [OF assms(1,2)])
  have i: "engine_inv drift (eng\<lparr>be_state := b\<rparr>)" using assms(3,4) by (simp add: engine_inv_def)
  have "engine_inv drift (run_requests cfg qs (eng\<lparr>be_state := b\<rparr>))"
    using engine_parts.run_requests_inv [OF parts i] assms(5) by simp
  then have "engine_inv drift eng'"
    using engine_parts.run_request_ok(1) [OF parts _ _ assms(6)] assms(5) by simp
  then show "drift (be_state eng')" by (simp add: engine_inv_def)
  show "believed (be_state eng') = desired (disk_of eng') (cache eng')"
    using engine_parts.requests_enforce [OF parts i assms(5,6)] by (rule ext)
qed

text \<open>
  The other case does happen: applying the same lists again succeeds and leaves the kernel, whatever
  it has become, as it is.
\<close>

lemma unchanged_lists_hide_removal:
  assumes "be_apply cfg = nft_apply tool \<or> be_apply cfg = ipt_apply tool" "build_and_apply cfg global ulists eng0 = (eng, None)"
  shows "build_and_apply cfg global ulists (eng\<lparr>be_state := (fst (be_state eng), k)\<rparr>) = (eng\<lparr>be_state := (fst (be_state eng), k)\<rparr>, None)"
proof -
  let ?c = "prune (wanted_domains global ulists) (cache eng0)"
  let ?st = "build_state (map_order cfg) ?c global ulists"
  obtain b where b: "be_apply cfg (be_state eng0) ?st = (b, None)" "eng = eng0\<lparr>cache := ?c, be_state := b\<rparr>"
    using assms(2) by (auto simp: build_and_apply_def Let_def split: prod.splits)
  have "fst b = Some ?st" using assms(1) b(1) nft_remembers ipt_remembers by metis
  moreover have "prune (wanted_domains global ulists) ?c = ?c" by (simp add: prune_def)
  moreover have "be_apply cfg (Some ?st, k) ?st = ((Some ?st, k), None)"
    using assms(1) nft_same_state [of ?st ?st] ipt_same_state [of ?st ?st] by auto
  ultimately show ?thesis by (simp add: build_and_apply_def Let_def b(2))
qed

end
