(* ===== verification/Daemon_Drift.thy ===== *)
theory Daemon_Drift
  imports Daemon_Main Drift
begin

text \<open>
  A second process removes the firewall while the daemon is running: \<open>webblockd -teardown\<close> next to the
  service, as the README suggests. If its commands succeeded (\<open>Teardown\<close> does not look), from the next request or refresh that succeeds the kernel enforces
  the lists again, unless they still ask for exactly what was in force before: then the daemon finds
  nothing to do, reports success, and nothing is blocked.
\<close>

text \<open>What a process with \<open>-teardown\<close> that ends with status 0 has done\<close>

lemma teardown_run:
  assumes "daemon_process h io args m = (m', rs, Some e)" "exit_status e = 0"
    and "parse_flags daemon_formal [] args = FlagsSet vals rest" "option_value (daemon_config vals) ''teardown'' = Some (BoolVal True)"
  obtains kind b where "detected io = Some kind" "op_teardown (host_backends h kind) (None, kernel m) = (b, None)"
    "m' = m\<lparr>kernel := snd b\<rparr>"
  using assms(1)
proof (cases rule: daemon_process_cases)
  case (teardown vals' rest' kind c b r)
  then have "r = None" using assms(2) by (cases r) auto
  then show ?thesis using that teardown by blast
next
  case unchanged
  then show ?thesis using assms(2,3) by auto
next
  case (stuck vals' rest' kind c eng x)
  then show ?thesis using assms(2) by simp
next
  case (served vals' rest' kind c eng s stop)
  then show ?thesis using assms(3,4) by (simp add: option_value_def)
qed

lemma after_removal:
  assumes "backend (be_apply cfg) believed (drift (blocked st))" "iteration_order (map_order cfg)"
    and "\<And>b x. drift (blocked st) b \<Longrightarrow> wf_state x \<Longrightarrow> other (snd (fst (be_apply cfg b x))) = other (snd b)"
    and "engine_inv be_inv eng" "drift (blocked st) (Some st, k)"
    and "\<And>b. drift (blocked st) b \<Longrightarrow> fst b \<noteq> None \<Longrightarrow>
      (\<forall>p. verdict (snd b) p = believed b p) \<or> (\<forall>p. \<not> verdict (snd b) p) \<and> believed b = blocked st"
    and "\<And>b x b'. be_apply cfg b x = (b', None) \<Longrightarrow> fst b' = Some x"
    and "\<forall>q \<in> set (qs @ [q]). request_ok q"
    and "run_request cfg q (run_requests cfg qs (eng\<lparr>be_state := (Some st, k)\<rparr>)) = (eng', None)"
  shows "other (snd (be_state eng')) = other k \<and>
    ((\<forall>p. verdict (snd (be_state eng')) p \<longleftrightarrow> desired (disk_of eng') (cache eng') p) \<or>
     (\<forall>p. \<not> verdict (snd (be_state eng')) p) \<and> desired (disk_of eng') (cache eng') = blocked st)"
proof -
  let ?framed = "\<lambda>b. drift (blocked st) b \<and> other (snd b) = other k"
  have b: "backend (be_apply cfg) believed ?framed"
    by (rule backend_frame [where frame = "\<lambda>b. other (snd b)", OF assms(1,3)])
  have "fst (be_state eng') \<noteq> None" using request_applied [OF assms(9)] assms(7) by blast
  then show ?thesis
    using engine_drift [OF b assms(2,4) _ assms(8,9)] assms(5) assms(6) [of "be_state eng'"] by simp
qed

text \<open>Both backends: a drift that starts with everything of ours gone\<close>

lemma nft_after_removal:
  assumes "nft_kernel nft rules" "tools_apart nft ipt rules view" "be_apply cfg = nft_apply nft" "iteration_order (map_order cfg)"
    and "engine_inv be_inv eng" "wf_state st" "rules k = None" "\<forall>q \<in> set (qs @ [q]). request_ok q"
    and "run_request cfg q (run_requests cfg qs (eng\<lparr>be_state := (Some st, k)\<rparr>)) = (eng', None)"
  shows "view (snd (be_state eng')) = view k \<and>
    ((\<forall>p. nft_verdict (rules (snd (be_state eng'))) p \<longleftrightarrow> desired (disk_of eng') (cache eng') p) \<or>
     (\<forall>p. \<not> nft_verdict (rules (snd (be_state eng'))) p) \<and> desired (disk_of eng') (cache eng') = blocked st)"
proof (rule after_removal [where drift = "nft_drift rules" and verdict = "\<lambda>k. nft_verdict (rules k)"])
  show "backend (be_apply cfg) believed (nft_drift rules (blocked st))"
    using nft_kernel.drift_backend [OF assms(1)] by (simp add: assms(3))
  show "nft_drift rules (blocked st) (Some st, k)" using assms(6,7) by (simp add: nft_drift_def)
  show "view (snd (fst (be_apply cfg b x))) = view (snd b)" if "nft_drift rules (blocked st) b" "wf_state x" for b x
    unfolding assms(3) by (rule nft_apply_apart [OF assms(2) _ that(2)]) (use that(1) in \<open>auto simp: nft_drift_def nft_inv_def\<close>)
  show "fst b' = Some x" if "be_apply cfg b x = (b', None)" for b x b' using that nft_remembers by (simp add: assms(3))
qed (fact assms(4,5,8,9) nft_drift_verdict)+

lemma ipt_after_removal:
  assumes "ipt_kernel ipt view" "tools_apart nft ipt rules view" "be_apply cfg = ipt_apply ipt" "iteration_order (map_order cfg)"
    and "engine_inv be_inv eng" "wf_state st" "ours_gone (view k)" "\<forall>q \<in> set (qs @ [q]). request_ok q"
    and "run_request cfg q (run_requests cfg qs (eng\<lparr>be_state := (Some st, k)\<rparr>)) = (eng', None)"
  shows "rules (snd (be_state eng')) = rules k \<and>
    ((\<forall>p. ipt_verdict (view (snd (be_state eng'))) p \<longleftrightarrow> desired (disk_of eng') (cache eng') p) \<or>
     (\<forall>p. \<not> ipt_verdict (view (snd (be_state eng'))) p) \<and> desired (disk_of eng') (cache eng') = blocked st)"
proof (rule after_removal [where drift = "ipt_drift view" and verdict = "\<lambda>k. ipt_verdict (view k)"])
  show "backend (be_apply cfg) believed (ipt_drift view (blocked st))"
    using ipt_kernel.drift_backend [OF assms(1)] by (simp add: assms(3))
  show "ipt_drift view (blocked st) (Some st, k)" using assms(6,7) by (simp add: ipt_drift_def)
  show "rules (snd (fst (be_apply cfg b x))) = rules (snd b)" for b x
    unfolding assms(3) by (rule ipt_apply_apart [OF assms(2)])
  show "fst b' = Some x" if "be_apply cfg b x = (b', None)" for b x b' using that ipt_remembers by (simp add: assms(3))
qed (fact assms(4,5,8,9) ipt_drift_verdict)+

theorem removal_is_repaired:
  assumes "nft_kernel nft rules" "ipt_kernel ipt view" "tools_apart nft ipt rules view" "iteration_order ord" "list_doc list_out view"
    and "engine_inv (real_inv rules view kind) eng" "fst (be_state eng) = Some st"
    and "kernel m = snd (be_state eng)" "detected io = Some kind"
    and "daemon_process (real_host nft ipt list_out ord db u) io args m = (m', rs, Some e)" "exit_status e = 0"
    and "parse_flags daemon_formal [] args = FlagsSet vals rest" "option_value (daemon_config vals) ''teardown'' = Some (BoolVal True)"
    and "kind = IptablesIpset \<Longrightarrow> \<forall>(prog, args, ok) \<in> set (teardown_outcomes ipt list_out (kernel m)). ok"
    and "cfg = daemon_cfg (host_backends (real_host nft ipt list_out ord db u) kind) ord c" "\<forall>q \<in> set (qs @ [q]). request_ok q"
    and "run_request cfg q (run_requests cfg qs (eng\<lparr>be_state := (Some st, kernel m')\<rparr>)) = (eng', None)"
  defines "before \<equiv> real_verdict rules view (other_kind kind) (kernel m)"
  shows "(\<forall>p. kernel_drops (real_verdict rules view) (snd (be_state eng')) p \<longleftrightarrow> desired (disk_of eng') (cache eng') p \<or> before p) \<or>
    (\<forall>p. kernel_drops (real_verdict rules view) (snd (be_state eng')) p \<longleftrightarrow> before p) \<and>
      desired (disk_of eng') (cache eng') = blocked st"
proof -
  let ?h = "real_host nft ipt list_out ord db u"
  obtain b where b: "op_teardown (host_backends ?h kind) (None, kernel m) = (b, None)" "kernel m' = snd b"
    using teardown_run [OF assms(10-13)] assms(9) by (metis machine.select_convs(2) machine.surjective machine.update_convs(2) option.inject)
  have ord: "iteration_order (map_order cfg)" using assms(4,15) by simp
  show ?thesis
  proof (cases kind)
    case Nftables
    then have t: "nft_teardown nft (None, kernel m) = (b, None)" using b(1) by simp
    have "rules (kernel m') = None" using nft_kernel.teardown_cases [OF assms(1) t] b(2) by simp
    moreover have "wf_state st" using assms(6,7) Nftables by (simp add: engine_inv_def nft_inv_def)
    moreover have "view (kernel m') = view (kernel m)" using nft_teardown_apart [OF assms(3), of "(None, kernel m)"] t b(2) by simp
    ultimately show ?thesis
      using nft_after_removal [OF assms(1,3) _ ord assms(6) _ _ assms(16,17)] Nftables assms(15)
      by (auto simp: before_def kernel_drops_def)
  next
    case IptablesIpset
    then have t: "ipt_teardown ipt list_out (None, kernel m) = (b, None)" using b(1) by simp
    have "ours_gone (view (kernel m'))"
      using ipt_kernel.teardown_all_succeeded [OF assms(2,5) t] assms(14) IptablesIpset by (simp add: b(2) ours_gone_def)
    moreover have "wf_state st" using assms(6,7) IptablesIpset by (simp add: engine_inv_def ipt_inv_def)
    moreover have "rules (kernel m') = rules (kernel m)"
      using ipt_teardown_apart [OF assms(3), of list_out "(None, kernel m)"] t b(2) by simp
    ultimately show ?thesis
      using ipt_after_removal [OF assms(2,3) _ ord assms(6) _ _ assms(16,17)] IptablesIpset assms(15)
      by (auto simp: before_def kernel_drops_def)
  qed
qed

end
