(* ===== verification/Daemon_Log.thy ===== *)
theory Daemon_Log
  imports Server Error_Text
begin

text \<open>
  What the daemon writes to its log: the lines of the handlers, of the engine's rebuild, of the
  refresh loop and of \<open>serve\<close>, and the texts of the errors of store and tools that they hold.
  The lines are what is given to the logger, before its prefix and time. The main results: the
  log is complete (\<open>serve_is_logged\<close>), that is a list does not change without a line that says who
  asked for it, and an answer that refers to the log has a line there; and the line of a change
  that was applied cannot be forged by its entries (\<open>audit_line_inj\<close>, \<open>audit_one_line\<close>).
\<close>

section \<open>Texts of errors\<close>

text \<open>
  The texts of errors that come from outside: of the system under an error of the store; for a
  failed command of a backend why it failed and what it wrote to standard error, and which of the
  \<open>iptables\<close> commands it was; of a lookup of the peer credentials; and the printable runes.
\<close>

record log_texts =
  os_text :: "store_error \<Rightarrow> string"
  exit_text :: "backend_error \<Rightarrow> string"
  stderr_text :: "backend_error \<Rightarrow> string"
  iptables_command :: "string \<times> string list"
  cred_text :: string
  printable_rune :: "string \<Rightarrow> bool"

fun save_stage_text :: "save_stage \<Rightarrow> string" where
  "save_stage_text AtCreate = ''temp file for ''"
| "save_stage_text AtWrite = ''write ''"
| "save_stage_text AtChmod = ''chmod ''"
| "save_stage_text AtClose = ''close ''"
| "save_stage_text AtRename = ''rename ''"

definition store_error_text :: "log_texts \<Rightarrow> store_error \<Rightarrow> string" where
  "store_error_text t e =
     (case e of
        ReadError s \<Rightarrow> ''read '' @ Label s @ '': '' @ os_text t e
      | ParseError s \<Rightarrow> ''parse '' @ Label s @ '': '' @ os_text t e
      | SaveError stage s \<Rightarrow> save_stage_text stage @ Label s @ '': '' @ os_text t e
      | ListError \<Rightarrow> os_text t e)"

text \<open>The error of \<open>run\<close> and \<open>runStdin\<close>: the command, why it failed, and what it wrote to standard error\<close>

definition run_error_text :: "string \<Rightarrow> string list \<Rightarrow> string \<Rightarrow> string \<Rightarrow> string" where
  "run_error_text name args err stderr = name @ '' '' @ join '' '' args @ '': '' @ err @ '': '' @ trim_space stderr"

definition nft_error_text :: "string \<Rightarrow> string \<Rightarrow> string" where
  "nft_error_text err stderr = ''nft apply failed: '' @ err @ '': '' @ trim_space stderr"

text \<open>The error of a backend; of an \<open>ipset restore -exist\<close> none gets out, as the full apply after it decides.\<close>

definition tool_error_text :: "log_texts \<Rightarrow> backend_error \<Rightarrow> string" where
  "tool_error_text t e =
     (case e of
        NftFailed \<Rightarrow> nft_error_text (exit_text t e) (stderr_text t e)
      | IpsetFailed \<Rightarrow> run_error_text ''ipset'' [''restore''] (exit_text t e) (stderr_text t e)
      | IptablesFailed \<Rightarrow> run_error_text (fst (iptables_command t)) (snd (iptables_command t)) (exit_text t e) (stderr_text t e)
      | IpsetListFailed \<Rightarrow> ''ipset list: '' @ exit_text t e)"

definition engine_error_text :: "log_texts \<Rightarrow> engine_error \<Rightarrow> string" where
  "engine_error_text t e = (case e of StoreFailed x \<Rightarrow> store_error_text t x | BackendFailed x \<Rightarrow> tool_error_text t x)"

section \<open>Lines\<close>

text \<open>\<open>%v\<close> of a list of strings\<close>

definition list_text :: "string list \<Rightarrow> string" where
  "list_text xs = ''['' @ join '' '' xs @ '']''"

definition audit_prefix :: "int \<Rightarrow> bool \<Rightarrow> scope \<Rightarrow> string" where
  "audit_prefix uid add s =
     ''uid='' @ itoa uid @ '' action='' @ (if add then action_add else action_remove) @ '' scope='' @ Label s @ '' ''"

definition audit_ok :: "int \<Rightarrow> bool \<Rightarrow> scope \<Rightarrow> string list \<Rightarrow> string list \<Rightarrow> nat \<Rightarrow> nat \<Rightarrow> string" where
  "audit_ok uid add s domains ips n m =
     audit_prefix uid add s @ ''domains='' @ list_text domains @ '' ips='' @ list_text ips @
     '' applied='' @ itoa (int n) @ ''/'' @ itoa (int m) @ '' OK''"

definition failed_line :: "string \<Rightarrow> string \<Rightarrow> string" where
  "failed_line what err = what @ ''FAILED: '' @ err"

text \<open>The lines of a rebuild\<close>

fun log_event_text :: "log_texts \<Rightarrow> log_event \<Rightarrow> string" where
  "log_event_text t (KeptPrevious d e) =
     ''resolve '' @ go_quote (printable_rune t) d @ '' failed, keeping previous addresses: '' @ e"
| "log_event_text t (NoAddresses d e) =
     ''resolve '' @ go_quote (printable_rune t) d @ '' failed, no addresses yet: '' @ e"

definition rebuild_lines :: "log_texts \<Rightarrow> 'b engine \<Rightarrow> 'b engine \<Rightarrow> string list" where
  "rebuild_lines t eng eng' = map (log_event_text t) (drop (length (log eng)) (log eng'))"

section \<open>Who writes what\<close>

text \<open>The handlers again, this time for their lines\<close>

type_synonym 'b lines = "log_texts \<Rightarrow> 'b service \<Rightarrow> call \<Rightarrow> peer_cred \<Rightarrow> request \<Rightarrow> 'b engine \<Rightarrow> string list"

definition mutate_lines :: "bool \<Rightarrow> 'b lines" where
  "mutate_lines add t sv call caller req eng =
     (case ResolveScope (user_names sv) (target_user req) caller of
        Inl e \<Rightarrow> []
      | Inr s \<Rightarrow>
          (case normalize_and_validate (unicode_lower sv) (req_domains req) (req_ips req) of
             Inl e \<Rightarrow> []
           | Inr (domains, ips) \<Rightarrow>
               if length domains = 0 \<and> length ips = 0 then []
               else
                 (case (if add then add_entries (eng_cfg sv) (call_io call) (call_world call) s domains ips eng
                        else remove_entries (eng_cfg sv) (call_io call) (call_world call) s domains ips eng) of
                    (eng', n_dom, n_ip, Some e) \<Rightarrow>
                      rebuild_lines t eng eng' @
                      [failed_line (audit_prefix (uid_int caller) add s) (engine_error_text t e)]
                  | (eng', n_dom, n_ip, None) \<Rightarrow>
                      rebuild_lines t eng eng' @ [audit_ok (uid_int caller) add s domains ips n_dom n_ip])))"

fun user_load_failure :: "store_io \<Rightarrow> disk \<Rightarrow> int list \<Rightarrow> (int \<times> store_error) option" where
  "user_load_failure io d [] = None"
| "user_load_failure io d (uid # uids) =
     (case load_locked io d (UserScope uid) of Inl e \<Rightarrow> Some (uid, e) | Inr bl \<Rightarrow> user_load_failure io d uids)"

definition show_root_lines :: "log_texts \<Rightarrow> store_io \<Rightarrow> disk \<Rightarrow> string list" where
  "show_root_lines t io d =
     (case load_locked io d GlobalScope of
        Inl e \<Rightarrow> [failed_line ''show(root) load global '' (store_error_text t e)]
      | Inr global \<Rightarrow>
          (case list_user_uids io d of
             Inl e \<Rightarrow> [failed_line ''show(root) list users '' (store_error_text t e)]
           | Inr uids \<Rightarrow>
               (case user_load_failure io d uids of
                  Some (uid, e) \<Rightarrow> [failed_line (''show(root) load user '' @ itoa uid @ '' '') (store_error_text t e)]
                | None \<Rightarrow> [])))"

definition show_user_lines :: "log_texts \<Rightarrow> store_io \<Rightarrow> disk \<Rightarrow> int \<Rightarrow> string list" where
  "show_user_lines t io d uid =
     (case load_locked io d (UserScope uid) of
        Inl e \<Rightarrow> [failed_line (''show(uid='' @ itoa uid @ '') load own '') (store_error_text t e)]
      | Inr own \<Rightarrow>
          (case load_locked io d GlobalScope of
             Inl e \<Rightarrow> [failed_line (''show(uid='' @ itoa uid @ '') load global '') (store_error_text t e)]
           | Inr global \<Rightarrow> []))"

definition show_lines :: "'b lines" where
  "show_lines t sv call caller req eng =
     (if IsRoot caller then show_root_lines t (call_io call) (disk_of eng)
      else show_user_lines t (call_io call) (disk_of eng) (uid_int caller))"

definition lines_table :: "(string \<times> 'b lines) list" where
  "lines_table =
     [(action_add, mutate_lines True), (action_remove, mutate_lines False), (action_show, show_lines),
      (action_status, \<lambda>t sv call caller req eng. [])]"

definition dispatch_lines :: "'b lines" where
  "dispatch_lines t sv call caller req eng =
     (if req_version req > proto_version then []
      else (case map_of lines_table (req_action req) of None \<Rightarrow> [] | Some h \<Rightarrow> h t sv call caller req eng))"

definition serve_lines :: "log_texts \<Rightarrow> 'b service \<Rightarrow> conn \<Rightarrow> 'b server \<Rightarrow> string list" where
  "serve_lines t sv c s =
     (case conn_cred c of
        None \<Rightarrow> [''peer cred error: '' @ cred_text t]
      | Some cred \<Rightarrow>
          (case conn_request c of
             None \<Rightarrow> []
           | Some req \<Rightarrow>
               (case allow (cred_uid cred) (conn_time c) (srv_limiter s) of
                  (l, False) \<Rightarrow> []
                | (l, True) \<Rightarrow> dispatch_lines t sv (conn_call c) cred req (srv_engine s))))"

text \<open>One tick of the refresh loop\<close>

definition refresh_lines :: "log_texts \<Rightarrow> 'b engine_cfg \<Rightarrow> world \<Rightarrow> 'b engine \<Rightarrow> string list" where
  "refresh_lines t cfg w eng =
     (case rebuild cfg w ResolveExpired eng of
        (eng', None) \<Rightarrow> rebuild_lines t eng eng'
      | (eng', Some e) \<Rightarrow> rebuild_lines t eng eng' @ [''periodic refresh failed: '' @ engine_error_text t e])"

section \<open>The log is complete\<close>

definition has_failed :: "string \<Rightarrow> bool" where
  "has_failed l \<longleftrightarrow> (\<exists>what err. l = failed_line what err)"

text \<open>A line about a change of the list of \<open>s\<close> that \<open>uid\<close> asked for\<close>

definition is_audit :: "int \<Rightarrow> scope \<Rightarrow> string \<Rightarrow> bool" where
  "is_audit uid s l \<longleftrightarrow> (\<exists>add rest. l = audit_prefix uid add s @ rest)"

lemma audit_same_scope: "same_scope s s' \<Longrightarrow> audit_prefix uid add s = audit_prefix uid add s'"
  by (auto simp: audit_prefix_def Label_def same_scope_def)

lemma is_audit_same: "same_scope s s' \<Longrightarrow> is_audit uid s' l \<longleftrightarrow> is_audit uid s l"
  using audit_same_scope [of s s' uid] by (simp add: is_audit_def)

lemma mutate_lines_cases:
  assumes "mutate_handle add sv call caller req eng = (eng', resp)"
  obtains
    (refused) e where "eng' = eng" "resp = error_response e" "e \<noteq> ApplyFailed" "mutate_lines add t sv call caller req eng = []"
  | (failed) s ls e where "resp = error_response ApplyFailed"
      "mutate_lines add t sv call caller req eng =
        ls @ [failed_line (audit_prefix (uid_int caller) add s) (engine_error_text t e)]"
      "\<And>t. \<not> same_scope s t \<Longrightarrow> content (disk_of eng') t = content (disk_of eng) t"
  | (applied) s ls domains ips n m where "resp_ok resp" "resp_error resp = None"
      "mutate_lines add t sv call caller req eng = ls @ [audit_ok (uid_int caller) add s domains ips n m]"
      "\<And>t. \<not> same_scope s t \<Longrightarrow> content (disk_of eng') t = content (disk_of eng) t"
proof (cases "ResolveScope (user_names sv) (target_user req) caller")
  case (Inl e)
  have "e \<noteq> ApplyFailed"
    using Inl by (auto simp: ResolveScope_def lookup_uid_def split: if_splits sum.splits option.splits)
  then show ?thesis using assms Inl refused [of e] by (simp add: mutate_handle_def mutate_lines_def)
next
  case s: (Inr s)
  show ?thesis
  proof (cases "normalize_and_validate (unicode_lower sv) (req_domains req) (req_ips req)")
    case (Inl e)
    have "e \<noteq> ApplyFailed" using Inl by (auto simp: normalize_and_validate_def split: if_splits sum.splits)
    then show ?thesis using assms s Inl refused [of e] by (simp add: mutate_handle_def mutate_lines_def)
  next
    case (Inr v)
    obtain domains ips where v: "v = (domains, ips)" by (cases v)
    show ?thesis
    proof (cases "length domains = 0 \<and> length ips = 0")
      case True
      then show ?thesis using assms s Inr v refused [of NothingToDo] by (simp add: mutate_handle_def mutate_lines_def)
    next
      case False
      obtain x n m r where c: "change_entries (eng_cfg sv) (call_io call) (call_world call) s
         (if add then add_fn domains ips else remove_fn domains ips) eng = (x, n, m, r)"
        by (cases "change_entries (eng_cfg sv) (call_io call) (call_world call) s
         (if add then add_fn domains ips else remove_fn domains ips) eng")
      have frame: "content (disk_of x) t = content (disk_of eng) t" if "\<not> same_scope s t" for t
        using change_entries_cases [OF c] that by auto
      have call: "(if add then add_entries (eng_cfg sv) (call_io call) (call_world call) s domains ips eng
          else remove_entries (eng_cfg sv) (call_io call) (call_world call) s domains ips eng) = (x, n, m, r)"
        using c by (simp add: add_entries_def remove_entries_def split: if_splits)
      show ?thesis
      proof (cases r)
        case None
        then show ?thesis using assms s Inr v False call frame
          by (intro applied [of "rebuild_lines t eng x" s domains ips n m]) (auto simp: mutate_handle_def mutate_lines_def)
      next
        case (Some e)
        then show ?thesis using assms s Inr v False call frame
          by (intro failed [of "rebuild_lines t eng x" s e]) (auto simp: mutate_handle_def mutate_lines_def)
      qed
    qed
  qed
qed

lemma has_failed_line [simp]: "has_failed (failed_line what err)"
  by (auto simp: has_failed_def)

lemma is_audit_line [simp]:
  "is_audit uid s (audit_ok uid add s domains ips n m)" "is_audit uid s (failed_line (audit_prefix uid add s) err)"
  by (auto simp: is_audit_def audit_ok_def failed_line_def)

lemma user_views_failure:
  "user_load_failure io d us = None \<longleftrightarrow> (\<exists>vs. user_views db io d us = Inr vs)"
  by (induction us) (auto split: sum.splits)

lemma show_lines_failed:
  assumes "show_handle sv call caller req eng = (eng', resp)"
  shows "eng' = eng" "resp_error resp = None \<or> resp_error resp = Some ApplyFailed"
    and "resp_error resp = Some ApplyFailed \<longleftrightarrow> (\<exists>l \<in> set (show_lines t sv call caller req eng). has_failed l)"
    and "resp_error resp = None \<Longrightarrow> show_lines t sv call caller req eng = []"
proof -
  have v: "user_views db io d us = Inl e \<Longrightarrow> \<exists>x. user_load_failure io d us = Some x" for db io d us e
    using user_views_failure [of io d us db] by (cases "user_load_failure io d us") auto
  have v': "user_views db io d us = Inr vs \<Longrightarrow> user_load_failure io d us = None" for db io d us vs
    using user_views_failure [of io d us db] by simp
  show "eng' = eng" "resp_error resp = None \<or> resp_error resp = Some ApplyFailed"
    and "resp_error resp = Some ApplyFailed \<longleftrightarrow> (\<exists>l \<in> set (show_lines t sv call caller req eng). has_failed l)"
    and "resp_error resp = None \<Longrightarrow> show_lines t sv call caller req eng = []"
    using assms
    by (auto simp: show_handle_def show_lines_def show_as_root_def show_as_user_def show_root_lines_def show_user_lines_def v'
        split: if_splits sum.splits dest!: v)
qed

lemma dispatch_logged:
  assumes "dispatch handler_table sv call caller req eng = (eng', resp)"
  shows "resp_error resp = Some ApplyFailed \<Longrightarrow> \<exists>l \<in> set (dispatch_lines t sv call caller req eng). has_failed l"
    and "content (disk_of eng') x \<noteq> content (disk_of eng) x \<Longrightarrow>
      \<exists>l \<in> set (dispatch_lines t sv call caller req eng). is_audit (uid_int caller) x l"
    and "resp_error resp = Some e \<Longrightarrow> e \<noteq> ApplyFailed \<Longrightarrow> dispatch_lines t sv call caller req eng = []"
proof -
  let ?ls = "dispatch_lines t sv call caller req eng"
  have "(resp_error resp = Some ApplyFailed \<longrightarrow> (\<exists>l \<in> set ?ls. has_failed l)) \<and>
    (content (disk_of eng') x \<noteq> content (disk_of eng) x \<longrightarrow> (\<exists>l \<in> set ?ls. is_audit (uid_int caller) x l)) \<and>
    (\<forall>e. resp_error resp = Some e \<and> e \<noteq> ApplyFailed \<longrightarrow> ?ls = [])"
  proof (cases "req_version req \<le> proto_version")
    case False
    then show ?thesis using assms by (auto simp: dispatch_def dispatch_lines_def error_response_def)
  next
    case True
    have mut: ?thesis if m: "mutate_handle add sv call caller req eng = (eng', resp)" "?ls = mutate_lines add t sv call caller req eng" for add
      using m(1)
    proof (cases rule: mutate_lines_cases [where t = t])
      case (refused e)
      then show ?thesis using m(2) by simp
    next
      case (failed s ls e)
      then have "same_scope s x \<Longrightarrow> \<exists>l \<in> set ?ls. is_audit (uid_int caller) x l"
        using m(2) is_audit_same [of s x] by simp
      then show ?thesis using failed m(2) by auto
    next
      case (applied s ls domains ips n k)
      then have "same_scope s x \<Longrightarrow> \<exists>l \<in> set ?ls. is_audit (uid_int caller) x l"
        using m(2) is_audit_same [of s x] by simp
      then show ?thesis using applied m(2) by auto
    qed
    consider (add) "req_action req = action_add" | (remove) "req_action req = action_remove"
      | (showing) "req_action req = action_show" | (status) "req_action req = action_status"
      | (unknown) "req_action req \<notin> {action_add, action_remove, action_show, action_status}" by blast
    then show ?thesis
    proof cases
      case add
      have "mutate_handle True sv call caller req eng = (eng', resp)" using assms dispatch_known(1) [OF True add] by metis
      moreover have "?ls = mutate_lines True t sv call caller req eng"
        using add True by (simp add: dispatch_lines_def lines_table_def)
      ultimately show ?thesis by (rule mut)
    next
      case remove
      have "mutate_handle False sv call caller req eng = (eng', resp)" using assms dispatch_known(2) [OF True remove] by metis
      moreover have "?ls = mutate_lines False t sv call caller req eng"
        using remove True by (simp add: dispatch_lines_def lines_table_def)
      ultimately show ?thesis by (rule mut)
    next
      case showing
      have h: "show_handle sv call caller req eng = (eng', resp)" using assms dispatch_known(3) [OF True showing] by metis
      have "?ls = show_lines t sv call caller req eng"
        using showing True by (simp add: dispatch_lines_def lines_table_def)
      then show ?thesis using show_lines_failed(1,2) [OF h] show_lines_failed(3,4) [OF h, of t] by auto
    next
      case status
      have "status_handle sv call caller req eng = (eng', resp)" using assms dispatch_known(4) [OF True status] by metis
      moreover have "?ls = []" using status True by (simp add: dispatch_lines_def lines_table_def)
      ultimately show ?thesis by (auto simp: status_handle_def)
    next
      case unknown
      then have "dispatch handler_table sv call caller req eng = (eng, error_response (UnknownAction (req_action req)))" "?ls = []"
        using True by (simp_all add: dispatch_def dispatch_lines_def lines_table_def handler_table_def)
      then show ?thesis using assms by auto
    qed
  qed
  then show "resp_error resp = Some ApplyFailed \<Longrightarrow> \<exists>l \<in> set ?ls. has_failed l"
    and "content (disk_of eng') x \<noteq> content (disk_of eng) x \<Longrightarrow> \<exists>l \<in> set ?ls. is_audit (uid_int caller) x l"
    and "resp_error resp = Some e \<Longrightarrow> e \<noteq> ApplyFailed \<Longrightarrow> ?ls = []" by blast+
qed

lemma serve_lines_cases:
  assumes "serve table sv c s = (s', resp)"
  obtains
    (away) e where "srv_engine s' = srv_engine s" "resp = error_response e" "e \<noteq> ApplyFailed"
      "serve_lines t sv c s = (if conn_cred c = None then [''peer cred error: '' @ cred_text t] else [])"
  | (dispatched) cred req where "conn_cred c = Some cred"
      "dispatch table sv (conn_call c) cred req (srv_engine s) = (srv_engine s', resp)"
      "serve_lines t sv c s = dispatch_lines t sv (conn_call c) cred req (srv_engine s)"
proof (cases "conn_cred c")
  case None
  then show ?thesis using assms away [of NoIdentity] by (simp add: serve_def serve_lines_def)
next
  case cred: (Some cred)
  show ?thesis
  proof (cases "conn_request c")
    case None
    then show ?thesis using assms cred away [of Malformed] by (simp add: serve_def serve_lines_def)
  next
    case req: (Some req)
    obtain l b where a: "allow (cred_uid cred) (conn_time c) (srv_limiter s) = (l, b)"
      by (cases "allow (cred_uid cred) (conn_time c) (srv_limiter s)")
    show ?thesis
    proof (cases b)
      case False
      then show ?thesis using assms cred req a away [of RateLimited] by (auto simp: serve_def serve_lines_def)
    next
      case True
      then show ?thesis using assms cred req a dispatched [of cred req]
        by (auto simp: serve_def serve_lines_def split: prod.splits)
    qed
  qed
qed

theorem serve_is_logged:
  assumes "serve handler_table sv c s = (s', resp)"
  shows "resp_error resp = Some ApplyFailed \<Longrightarrow> \<exists>l \<in> set (serve_lines t sv c s). has_failed l"
    and "content (disk_of (srv_engine s')) x \<noteq> content (disk_of (srv_engine s)) x \<Longrightarrow>
      \<exists>cred. conn_cred c = Some cred \<and> (\<exists>l \<in> set (serve_lines t sv c s). is_audit (uid_int cred) x l)"
    and "resp_error resp = Some e \<Longrightarrow> e \<noteq> ApplyFailed \<Longrightarrow>
      serve_lines t sv c s = (if conn_cred c = None then [''peer cred error: '' @ cred_text t] else [])"
proof -
  have "(resp_error resp = Some ApplyFailed \<longrightarrow> (\<exists>l \<in> set (serve_lines t sv c s). has_failed l)) \<and>
    (content (disk_of (srv_engine s')) x \<noteq> content (disk_of (srv_engine s)) x \<longrightarrow>
      (\<exists>cred. conn_cred c = Some cred \<and> (\<exists>l \<in> set (serve_lines t sv c s). is_audit (uid_int cred) x l))) \<and>
    (resp_error resp = Some e \<longrightarrow> e \<noteq> ApplyFailed \<longrightarrow>
      serve_lines t sv c s = (if conn_cred c = None then [''peer cred error: '' @ cred_text t] else []))"
    using assms
  proof (cases rule: serve_lines_cases [where t = t])
    case (away e)
    then show ?thesis by auto
  next
    case (dispatched cred req)
    then show ?thesis
      using dispatch_logged(1) [OF dispatched(2), of t] dispatch_logged(2) [OF dispatched(2), of x t]
        dispatch_logged(3) [OF dispatched(2), of e t] by simp
  qed
  then show "resp_error resp = Some ApplyFailed \<Longrightarrow> \<exists>l \<in> set (serve_lines t sv c s). has_failed l"
    and "content (disk_of (srv_engine s')) x \<noteq> content (disk_of (srv_engine s)) x \<Longrightarrow>
      \<exists>cred. conn_cred c = Some cred \<and> (\<exists>l \<in> set (serve_lines t sv c s). is_audit (uid_int cred) x l)"
    and "resp_error resp = Some e \<Longrightarrow> e \<noteq> ApplyFailed \<Longrightarrow>
      serve_lines t sv c s = (if conn_cred c = None then [''peer cred error: '' @ cred_text t] else [])" by blast+
qed

section \<open>Lines of changes\<close>

text \<open>Entries as the handlers pass them on: without spaces, brackets and line ends, and not empty\<close>

definition entry_char :: "char \<Rightarrow> bool" where
  "entry_char c \<longleftrightarrow> c \<notin> {CHR '' '', CHR '']'', CHR 0x0A}"

definition plain_entries :: "string list \<Rightarrow> bool" where
  "plain_entries xs \<longleftrightarrow> (\<forall>x \<in> set xs. x \<noteq> [] \<and> list_all entry_char x)"

lemma validated_entries:
  assumes "normalize_and_validate u raw_domains raw_ips = Inr (domains, ips)"
  shows "plain_entries domains" "plain_entries ips"
proof -
  note v = normalize_and_validate_ok(3,5) [OF assms]
  have host: "host_char c \<Longrightarrow> entry_char c" and addr: "addr_char c \<Longrightarrow> entry_char c" for c
    by (auto simp: host_char_def addr_char_def entry_char_def is_digit_def is_lower_def)
  have "list_all entry_char x" "x \<noteq> []" if "validate_domain x = None" for x
    using valid_domain_chars [OF that] valid_domain_not_Nil [OF that] host by (auto simp: list_all_iff)
  then show "plain_entries domains" using v(1) by (simp add: plain_entries_def)
  have "list_all entry_char x" "x \<noteq> []" if "canonical_ip x" for x
    using that addr_text_chars [of _ x] addr by (auto simp: canonical_ip_def list_all_iff)
  then show "plain_entries ips" using v(2) by (simp add: plain_entries_def)
qed

lemma join_entries_inj:
  assumes "join '' '' xs = join '' '' ys" "plain_entries xs" "plain_entries ys"
  shows "xs = ys"
proof -
  have split: "split_on CHR '' '' (join '' '' zs) = zs" if "plain_entries zs" "zs \<noteq> []" for zs
    using that by (intro split_join) (auto simp: plain_entries_def entry_char_def list_all_iff)
  have nil: "join '' '' zs = [] \<longleftrightarrow> zs = []" if "plain_entries zs" for zs
    using that by (cases "('' '', zs)" rule: join.cases) (auto simp: plain_entries_def)
  show ?thesis
  proof (cases "xs = []")
    case True
    then show ?thesis using assms nil [OF assms(3)] by auto
  next
    case False
    then have "ys \<noteq> []" using assms nil [OF assms(2)] by auto
    from split [OF assms(2) False] split [OF assms(3) this] show ?thesis unfolding assms(1) by (rule trans [OF sym])
  qed
qed

lemma join_entries_chars: "plain_entries xs \<Longrightarrow> c \<in> set (join '' '' xs) \<Longrightarrow> c = CHR '' '' \<or> entry_char c"
  using set_join_subset [of "'' ''" xs, THEN subsetD, of c] by (auto simp: plain_entries_def list_all_iff)

lemma itoa_char: "c \<in> set (itoa i) \<Longrightarrow> entry_char c \<and> c \<noteq> CHR ''/''"
  using set_itoa [of i] by (auto simp: entry_char_def is_digit_def)

lemma Label_char: "c \<in> set (Label s) \<Longrightarrow> entry_char c"
  using itoa_char by (auto simp: Label_def entry_char_def split: if_splits)

lemma Label_inj: "Label s = Label s' \<Longrightarrow> same_scope s s'"
  by (auto simp: Label_def same_scope_def split: if_splits)

lemma cut_at: "x @ c # r = y @ c # r' \<Longrightarrow> c \<notin> set x \<Longrightarrow> c \<notin> set y \<Longrightarrow> x = y \<and> r = r'"
proof (induction x arbitrary: y)
  case Nil
  then show ?case by (cases y) auto
next
  case (Cons a x)
  then show ?case by (cases y) auto
qed

text \<open>A line has one meaning: who asked for what, on which list, and what came of it.\<close>

theorem audit_line_inj:
  assumes "audit_ok u a s ds is n m = audit_ok u' a' s' ds' is' n' m'"
    and "plain_entries ds" "plain_entries is" "plain_entries ds'" "plain_entries is'"
  shows "u = u' \<and> a = a' \<and> same_scope s s' \<and> ds = ds' \<and> is = is' \<and> n = n' \<and> m = m'"
proof -
  let ?act = "\<lambda>a. if a then action_add else action_remove"
  have sp: "CHR '' '' \<notin> set (itoa i)" "CHR '' '' \<notin> set (Label t)" "CHR '' '' \<notin> set (?act b)" "CHR ''/'' \<notin> set (itoa i)" for i t b
    using itoa_char Label_char by (auto simp: entry_char_def action_add_def action_remove_def)
  have br: "CHR '']'' \<notin> set (join '' '' xs)" if "plain_entries xs" for xs
    using join_entries_chars [OF that] by (auto simp: entry_char_def)
  define r1 where "r1 ds is n m = ''domains=['' @ join '' '' ds @ ''] ips=['' @ join '' '' is @ ''] applied='' @ itoa (int n) @ ''/'' @ itoa (int m) @ '' OK''"
    for ds "is" n m
  have "itoa u @ CHR '' '' # (''action='' @ ?act a @ '' scope='' @ Label s @ CHR '' '' # r1 ds is n m) =
      itoa u' @ CHR '' '' # (''action='' @ ?act a' @ '' scope='' @ Label s' @ CHR '' '' # r1 ds' is' n' m')"
    using assms(1) by (simp add: audit_ok_def audit_prefix_def list_text_def r1_def)
  from cut_at [OF this sp(1,1)] have u: "itoa u = itoa u'" and "?act a @ CHR '' '' # (''scope='' @ Label s @ CHR '' '' # r1 ds is n m) =
      ?act a' @ CHR '' '' # (''scope='' @ Label s' @ CHR '' '' # r1 ds' is' n' m')" by simp_all
  from cut_at [OF this(2) sp(3,3)] have a: "?act a = ?act a'" and "Label s @ CHR '' '' # r1 ds is n m = Label s' @ CHR '' '' # r1 ds' is' n' m'"
    by simp_all
  from cut_at [OF this(2) sp(2,2)] have s: "Label s = Label s'" and r: "r1 ds is n m = r1 ds' is' n' m'" by simp_all
  from r have "join '' '' ds @ CHR '']'' # ('' ips=['' @ join '' '' is @ ''] applied='' @ itoa (int n) @ ''/'' @ itoa (int m) @ '' OK'') =
      join '' '' ds' @ CHR '']'' # ('' ips=['' @ join '' '' is' @ ''] applied='' @ itoa (int n') @ ''/'' @ itoa (int m') @ '' OK'')"
    by (simp add: r1_def)
  from cut_at [OF this br [OF assms(2)] br [OF assms(4)]] have d: "join '' '' ds = join '' '' ds'"
    and "join '' '' is @ CHR '']'' # ('' applied='' @ itoa (int n) @ ''/'' @ itoa (int m) @ '' OK'') =
      join '' '' is' @ CHR '']'' # ('' applied='' @ itoa (int n') @ ''/'' @ itoa (int m') @ '' OK'')" by simp_all
  from cut_at [OF this(2) br [OF assms(3)] br [OF assms(5)]] have i: "join '' '' is = join '' '' is'"
    and "itoa (int n) @ CHR ''/'' # (itoa (int m) @ '' OK'') = itoa (int n') @ CHR ''/'' # (itoa (int m') @ '' OK'')" by simp_all
  from cut_at [OF this(2) sp(4,4)] have n: "itoa (int n) = itoa (int n')" and "itoa (int m) @ CHR '' '' # ''OK'' = itoa (int m') @ CHR '' '' # ''OK''"
    by simp_all
  from cut_at [OF this(2) sp(1,1)] have "itoa (int m) = itoa (int m')" by simp
  moreover have "a = a'" using a by (simp split: if_splits)
  moreover have "ds = ds'" by (rule join_entries_inj [OF d assms(2,4)])
  moreover have "is = is'" by (rule join_entries_inj [OF i assms(3,5)])
  ultimately show ?thesis using u n Label_inj [OF s] by simp
qed

theorem audit_one_line:
  assumes "plain_entries ds" "plain_entries is"
  shows "CHR 0x0A \<notin> set (audit_ok u a s ds is n m)"
proof -
  have "CHR 0x0A \<notin> set (join '' '' xs)" if "plain_entries xs" for xs
    using join_entries_chars [OF that] by (auto simp: entry_char_def)
  moreover have "CHR 0x0A \<notin> set (itoa i)" "CHR 0x0A \<notin> set (Label s)" for i
    using itoa_char Label_char by (auto simp: entry_char_def)
  ultimately show ?thesis
    using assms by (simp add: audit_ok_def audit_prefix_def list_text_def action_add_def action_remove_def)
qed

end
