(* ===== verification/Go_JSON_Clean.thy ===== *)
theory Go_JSON_Clean
  imports Go_JSON_Decode
begin

text \<open>
  Whatever bytes are parsed, the strings in the result are valid UTF-8: escapes are encoded, stray
  surrogates and bytes that are not UTF-8 replaced. So a string that came from a JSON text is not
  changed by being written as JSON and read again.
\<close>

definition clean :: "string \<Rightarrow> bool" where
  "clean s \<longleftrightarrow> utf8_fix s = s"

lemma clean_fix [simp]: "clean (utf8_fix s)"
  by (simp add: clean_def)

lemma clean_ascii: "list_all is_ascii s \<Longrightarrow> clean s"
  by (simp add: clean_def utf8_fix_ascii)

lemma clean_Nil [simp]: "clean []"
  by (simp add: clean_def)

lemma clean_unit: "valid_unit u \<Longrightarrow> clean (u @ s) \<longleftrightarrow> clean s"
  by (simp add: clean_def utf8_fix_def fix_unit_id)

section \<open>One character\<close>

lemma byte_of_char_of: "n < 256 \<Longrightarrow> byte_of (char_of n) = n" for n :: nat
  using char_of_is(1) [of n "char_of n"] by simp

lemma valid_unit_chars:
  "k < 128 \<Longrightarrow> valid_unit [char_of k]"
  "2 \<le> k \<Longrightarrow> k < 32 \<Longrightarrow> l < 64 \<Longrightarrow> valid_unit [char_of (0xC0 + k), char_of (0x80 + l)]"
  "k < 16 \<Longrightarrow> l < 64 \<Longrightarrow> m < 64 \<Longrightarrow> (k = 0 \<longrightarrow> 32 \<le> l) \<Longrightarrow> (k = 13 \<longrightarrow> l < 32) \<Longrightarrow>
   valid_unit [char_of (0xE0 + k), char_of (0x80 + l), char_of (0x80 + m)]"
  "k < 5 \<Longrightarrow> l < 64 \<Longrightarrow> m < 64 \<Longrightarrow> j < 64 \<Longrightarrow> (k = 0 \<longrightarrow> 16 \<le> l) \<Longrightarrow> (k = 4 \<longrightarrow> l < 16) \<Longrightarrow>
   valid_unit [char_of (0xF0 + k), char_of (0x80 + l), char_of (0x80 + m), char_of (0x80 + j)]"
  for k l m j :: nat
  by (simp_all add: valid_unit_def cont_byte_def byte_of_char_of)

lemma valid_unit_encode:
  assumes "n < 0xD800 \<or> (0xE000 \<le> n \<and> n < 0x110000)"
  shows "valid_unit (utf8_encode n)"
proof -
  have cont: "k mod 64 < 64" for k :: nat by simp
  consider "n < 0x80" | "0x80 \<le> n" "n < 0x800" | "0x800 \<le> n" "n < 0x10000" | "0x10000 \<le> n" by linarith
  then show ?thesis
  proof cases
    case 1
    then show ?thesis by (simp add: utf8_encode_def valid_unit_chars)
  next
    case 2
    then have "2 \<le> n div 64" "n div 64 < 32"
      by (simp_all add: less_eq_div_iff_mult_less_eq div_less_iff_less_mult)
    then show ?thesis using 2 valid_unit_chars(2) [OF _ _ cont] by (simp add: utf8_encode_def)
  next
    case 3
    define q k l where "q = n div 64" and "k = q div 64" and "l = q mod 64"
    have "32 \<le> q" "q < 1024" "q < 864 \<or> 896 \<le> q" using 3 assms
      by (auto simp add: q_def less_eq_div_iff_mult_less_eq div_less_iff_less_mult)
    moreover have "q = 64 * k + l" "l < 64" by (simp_all add: k_def l_def)
    ultimately have "k < 16" "k = 0 \<longrightarrow> 32 \<le> l" "k = 13 \<longrightarrow> l < 32" by linarith+
    moreover have "n div 4096 = k" by (simp add: k_def q_def div_mult2_eq [of n 64 64, simplified])
    ultimately show ?thesis using 3 valid_unit_chars(3) [OF _ \<open>l < 64\<close> cont]
      by (simp add: utf8_encode_def l_def q_def)
  next
    case 4
    define q k l where "q = n div 4096" and "k = q div 64" and "l = q mod 64"
    have "16 \<le> q" "q < 272" using 4 assms
      by (auto simp add: q_def less_eq_div_iff_mult_less_eq div_less_iff_less_mult)
    moreover have "q = 64 * k + l" "l < 64" by (simp_all add: k_def l_def)
    ultimately have "k < 5" "k = 0 \<longrightarrow> 16 \<le> l" "k = 4 \<longrightarrow> l < 16" by linarith+
    moreover have "n div 262144 = k" by (simp add: k_def q_def div_mult2_eq [of n 4096 64, simplified])
    ultimately show ?thesis using 4 valid_unit_chars(4) [OF _ \<open>l < 64\<close> cont cont]
      by (simp add: utf8_encode_def l_def q_def)
  qed
qed

lemma hex_digit_val_less: "hex_digit_val c = Some n \<Longrightarrow> n < 16"
  by (auto simp: hex_digit_val_def is_digit_def Let_def split: if_splits)

lemma hex4_less:
  assumes "hex4 s = Some (n, r)"
  shows "n < 0x10000"
proof -
  obtain i j k l where "n = ((i * 16 + j) * 16 + k) * 16 + l" "i < 16" "j < 16" "k < 16" "l < 16"
    using assms hex_digit_val_less by (cases s rule: hex4.cases) (auto split: option.splits)
  then show ?thesis by (simp add: algebra_simps)
qed

lemma low_surrogate_valid:
  assumes "low_surrogate n r = Some (t, q)" "0xD800 \<le> n" "n < 0xE000"
  shows "valid_unit t"
proof -
  obtain m where "n < 0xDC00" "0xDC00 \<le> m" "m < 0xE000" "t = utf8_encode (0x10000 + (n - 0xD800) * 0x400 + (m - 0xDC00))"
    using assms(1) by (auto simp: low_surrogate_def split: if_splits list.splits option.splits)
  then show ?thesis using assms(2) by (auto intro!: valid_unit_encode)
qed

lemma unicode_escape_valid:
  assumes "unicode_escape s = Some (t, r)"
  shows "valid_unit t"
proof -
  obtain n q where h: "hex4 s = Some (n, q)" using assms by (auto simp: unicode_escape_def split: option.splits)
  show ?thesis
  proof (cases "0xD800 \<le> n \<and> n < 0xE000")
    case True
    then show ?thesis using assms h low_surrogate_valid valid_unit_replacement
      by (auto simp: unicode_escape_def split: option.splits)
  next
    case False
    then show ?thesis using assms h hex4_less [OF h] valid_unit_encode [of n] by (auto simp: unicode_escape_def)
  qed
qed

lemma simple_escape_ascii: "simple_escape e = Some x \<Longrightarrow> is_ascii x"
  by (auto simp: simple_escape_def is_ascii_def dquote_def backslash_def split: if_splits)

lemma string_char_valid:
  assumes "string_char s = Some (t, r)"
  shows "valid_unit t"
proof (cases s)
  case (Cons c q)
  show ?thesis
  proof (cases "c = backslash")
    case True
    then show ?thesis using assms Cons unicode_escape_valid simple_escape_ascii valid_unit_ascii
      by (auto split: list.splits if_splits option.splits)
  next
    case False
    show ?thesis
    proof (cases "rune_width (c # q)")
      case None
      then show ?thesis using assms Cons False valid_unit_replacement
        by (auto simp del: rune_width.simps split: if_splits)
    next
      case (Some n)
      then have "t = take n (c # q)" using assms Cons False by (auto simp del: rune_width.simps split: if_splits)
      then show ?thesis using rune_width_take [OF Some, of "[]"] rune_width_range [OF Some] by (simp add: valid_unit_def)
    qed
  qed
qed (use assms in simp)

section \<open>Values\<close>

lemma parse_str_clean: "parse_str s = Some (t, r) \<Longrightarrow> clean t"
proof (induction s arbitrary: t rule: parse_str.induct)
  case (2 c s)
  show ?case
  proof (cases "c = dquote")
    case True
    then show ?thesis using 2 by simp
  next
    case False
    then obtain u q where u: "string_char (c # s) = Some (u, q)"
      using 2 by (auto simp del: string_char.simps split: option.splits)
    then obtain t' where "parse_str q = Some (t', r)" "t = u @ t'"
      using 2(2) False by (auto simp del: string_char.simps)
    then show ?thesis using 2(1) [OF False u refl] clean_unit [OF string_char_valid [OF u]] by simp
  qed
qed simp

fun clean_json :: "json \<Rightarrow> bool" where
  "clean_json (JStr s) = clean s"
| "clean_json (JArr vs) = list_all clean_json vs"
| "clean_json (JObj ms) = list_all (\<lambda>m. clean_json (snd m)) ms"
| "clean_json v = True"

lemma parse_scalar_clean: "parse_scalar s = Some (v, r) \<Longrightarrow> clean_json v"
  by (cases s) (auto simp: parse_scalar_def literal_def split: if_splits dest: parse_str_clean)

lemma parse_clean:
  "(\<forall>d s v r. parse_value n d s = Some (v, r) \<longrightarrow> clean_json v) \<and>
   (\<forall>d s vs r. parse_elems n d s = Some (vs, r) \<longrightarrow> list_all clean_json vs) \<and>
   (\<forall>d s ms r. parse_members n d s = Some (ms, r) \<longrightarrow> list_all (\<lambda>m. clean_json (snd m)) ms)"
proof (induction n)
  case (Suc n)
  then have v: "parse_value n d s = Some (v, r) \<Longrightarrow> clean_json v"
    and e: "parse_elems n d s = Some (vs, r) \<Longrightarrow> list_all clean_json vs"
    and m: "parse_members n d s = Some (ms, r) \<Longrightarrow> list_all (\<lambda>m. clean_json (snd m)) ms" for d s v r vs ms
    by blast+
  have "clean_json v" if "parse_value (Suc n) d s = Some (v, r)" for d s v r
    using that by (cases rule: parse_value_cases) (auto dest: e m parse_scalar_clean)
  moreover have "list_all clean_json vs" if "parse_elems (Suc n) d s = Some (vs, r)" for d s vs r
    using that by (cases rule: parse_elems_cases) (auto dest: v e)
  moreover have "list_all (\<lambda>m. clean_json (snd m)) ms" if "parse_members (Suc n) d s = Some (ms, r)" for d s ms r
    using that by (cases rule: parse_members_cases) (auto dest: v m)
  ultimately show ?case by blast
qed simp

theorem json_unmarshal_clean: "json_unmarshal s = Some v \<Longrightarrow> clean_json v"
  using parse_clean [THEN conjunct1, rule_format]
  by (auto simp: json_unmarshal_def parse_first_def simp del: parse_value.simps split: option.splits if_splits)

section \<open>Decoding\<close>

definition clean_strings :: "string list \<Rightarrow> bool" where
  "clean_strings xs \<longleftrightarrow> list_all clean xs"

lemma clean_strings_fix: "clean_strings xs \<Longrightarrow> map utf8_fix xs = xs"
  by (induction xs) (auto simp: clean_strings_def clean_def)

lemma decode_string_clean: "decode_string v old = Some s \<Longrightarrow> clean_json v \<Longrightarrow> clean old \<Longrightarrow> clean s"
  by (cases v) (auto simp: decode_string_def)

lemma decode_elems_clean:
  "decode_elems decode_string [] vs old = Some xs \<Longrightarrow> list_all clean_json vs \<Longrightarrow> list_all clean old \<Longrightarrow> list_all clean xs"
proof (induction vs arbitrary: old xs)
  case (Cons v vs)
  let ?o = "case old of [] \<Rightarrow> [] | x # _ \<Rightarrow> x"
  obtain x ys where x: "decode_string v ?o = Some x" "decode_elems decode_string [] vs (tl old) = Some ys" "xs = x # ys"
    using Cons.prems(1) by (auto split: option.splits)
  have "clean ?o" "list_all clean (tl old)" using Cons.prems(3) by (cases old; simp)+
  then show ?case using Cons.IH [OF x(2)] decode_string_clean [OF x(1)] Cons.prems(2) x(3) by simp
qed simp

definition clean_slice :: "string slice \<Rightarrow> bool" where
  "clean_slice s \<longleftrightarrow> clean_strings (fst s) \<and> clean_strings (snd s)"

lemma decode_strings_clean:
  assumes "decode_strings v s = Some s'" "clean_json v" "clean_slice s"
  shows "clean_slice s'"
proof (cases v)
  case (JArr vs)
  have old: "list_all clean (fst s @ snd s)" using assms(3) by (simp add: clean_slice_def clean_strings_def)
  show ?thesis
  proof (cases vs)
    case Nil
    then show ?thesis using assms(1) JArr by (auto simp: decode_strings_def decode_slice_def clean_slice_def clean_strings_def)
  next
    case (Cons w ws)
    then obtain xs where "decode_elems decode_string [] vs (fst s @ snd s) = Some xs" "s' = (xs, drop (length xs) (fst s @ snd s))"
      using assms(1) JArr by (auto simp: decode_strings_def decode_slice_def simp del: decode_elems.simps)
    then show ?thesis using decode_elems_clean [OF _ _ old, of vs xs] assms(2) JArr old
      by (auto simp: clean_slice_def clean_strings_def list_all_iff dest: in_set_dropD)
  qed
qed (use assms in \<open>auto simp: decode_strings_def decode_slice_def clean_slice_def clean_strings_def\<close>)

lemma find_in: "find P xs = Some x \<Longrightarrow> x \<in> set xs"
  by (auto simp: find_Some_iff)

lemma lookup_field_in: "lookup_field key fields = Some dec \<Longrightarrow> \<exists>name. (name, dec) \<in> set fields"
  unfolding lookup_field_def by (cases "map_of fields key") (auto dest: find_in map_of_SomeD)

lemma decode_fields_inv:
  assumes "decode_fields fields ms a = Some b" "P a"
    and "\<And>name dec v x y. (name, dec) \<in> set fields \<Longrightarrow> v \<in> snd ` set ms \<Longrightarrow> dec v x = Some y \<Longrightarrow> P x \<Longrightarrow> P y"
  shows "P b"
  using assms
proof (induction ms arbitrary: a)
  case (Cons m ms)
  obtain key v where m: "m = (key, v)" by (cases m)
  have keep: "P z" if "(name, dec) \<in> set fields" "w \<in> snd ` set ms" "dec w y = Some z" "P y" for name dec w y z
    using Cons.prems(3) [of name dec w y z] that by simp
  show ?case
  proof (cases "lookup_field key fields")
    case None
    then have "decode_fields fields ms a = Some b" using Cons.prems(1) by (simp add: m)
    from Cons.IH [OF this Cons.prems(2) keep] show ?thesis .
  next
    case (Some dec)
    then obtain x where x: "dec v a = Some x" "decode_fields fields ms x = Some b"
      using Cons.prems(1) by (cases "dec v a") (simp_all add: m)
    obtain name where "(name, dec) \<in> set fields" using lookup_field_in [OF Some] by (rule exE)
    then have "P x" using Cons.prems(3) [of name dec v a x] x(1) Cons.prems(2) by (simp add: m)
    from Cons.IH [OF x(2) this keep] show ?thesis .
  qed
qed simp

end
