(* ===== verification/Store_Bytes.thy ===== *)
theory Store_Bytes
  imports Session Go_JSON_Clean
begin

text \<open>
  The store over files of bytes: a save encodes the list as indented JSON and writes it to the
  temporary file in one or several pieces, a load decodes whatever bytes it finds. \<open>read_disk\<close>
  reads a directory of bytes as a directory of documents; the operations of \<open>Store\<close> are what
  these operations do through it, also where a crash stops them within the write.
\<close>

section \<open>Directories of bytes\<close>

datatype byte_node = ByteDir | Bytes string

type_synonym byte_dir = "(string \<times> byte_node) list"

record byte_disk =
  byte_base :: byte_dir
  byte_users :: "byte_dir option"

definition byte_place :: "byte_disk \<Rightarrow> place \<Rightarrow> byte_dir option" where
  "byte_place d p = (case p of Base \<Rightarrow> Some (byte_base d) | Users \<Rightarrow> byte_users d)"

definition set_byte_place :: "byte_disk \<Rightarrow> place \<Rightarrow> byte_dir \<Rightarrow> byte_disk" where
  "set_byte_place d p es = (case p of Base \<Rightarrow> d\<lparr>byte_base := es\<rparr> | Users \<Rightarrow> d\<lparr>byte_users := Some es\<rparr>)"

definition byte_get :: "byte_disk \<Rightarrow> place \<times> string \<Rightarrow> byte_node option" where
  "byte_get d pn = (case byte_place d (fst pn) of None \<Rightarrow> None | Some es \<Rightarrow> map_of es (snd pn))"

definition byte_put :: "byte_disk \<Rightarrow> place \<times> string \<Rightarrow> byte_node \<Rightarrow> byte_disk" where
  "byte_put d pn v =
     (case byte_place d (fst pn) of None \<Rightarrow> d | Some es \<Rightarrow> set_byte_place d (fst pn) (AList.update (snd pn) v es))"

definition byte_del :: "byte_disk \<Rightarrow> place \<times> string \<Rightarrow> byte_disk" where
  "byte_del d pn =
     (case byte_place d (fst pn) of None \<Rightarrow> d | Some es \<Rightarrow> set_byte_place d (fst pn) (AList.delete (snd pn) es))"

definition byte_has :: "byte_disk \<Rightarrow> place \<Rightarrow> bool" where
  "byte_has d p \<longleftrightarrow> byte_place d p \<noteq> None"

section \<open>The store's operations on bytes\<close>

definition byte_new_store :: "byte_disk \<Rightarrow> byte_disk" where
  "byte_new_store d = (case byte_users d of None \<Rightarrow> d\<lparr>byte_users := Some []\<rparr> | Some _ \<Rightarrow> d)"

definition byte_load :: "store_io \<Rightarrow> byte_disk \<Rightarrow> scope \<Rightarrow> store_error + blocklist" where
  "byte_load io d s =
     (if read_fault io s then Inl (ReadError s)
      else (case byte_get d (path s) of
              None \<Rightarrow> Inr empty_blocklist
            | Some ByteDir \<Rightarrow> Inl (ReadError s)
            | Some (Bytes b) \<Rightarrow>
                (case unmarshal_blocklist b of
                   Garbage \<Rightarrow> Inl (ParseError s)
                 | Doc ds is \<Rightarrow> Inr (doc_blocklist ds is))))"

text \<open>
  \<open>saveLocked\<close>: \<open>ks\<close> are the numbers of bytes that are in the temporary file between two system
  calls of \<open>tmp.Write\<close>. The bytes are those of the sorted lists.
\<close>

definition byte_save ::
    "store_io \<Rightarrow> nat list \<Rightarrow> byte_disk \<Rightarrow> scope \<Rightarrow> blocklist \<Rightarrow> byte_disk list \<times> store_error option" where
  "byte_save io ks d s bl =
     (let data = marshal_blocklist \<lparr>Domains = sorted_unique (Domains bl), IPs = sorted_unique (IPs bl)\<rparr>;
          final = path s;
          tmp = (fst final, ''.tmp-'' @ temp_suffix io);
          created = byte_put d tmp (Bytes []);
          partial = map (\<lambda>k. byte_put created tmp (Bytes (take k data))) ks;
          written = byte_put created tmp (Bytes data);
          fail = (\<lambda>ds stage. (ds, Some (SaveError stage s)))
      in if \<not> byte_has d (fst final) then fail [] AtCreate
         else (case save_fault io s of
                 Some AtCreate \<Rightarrow> fail [] AtCreate
               | Some AtWrite \<Rightarrow> fail (created # partial @ [byte_del created tmp]) AtWrite
               | Some AtChmod \<Rightarrow> fail (created # partial @ [written, byte_del written tmp]) AtChmod
               | Some AtClose \<Rightarrow> fail (created # partial @ [written, byte_del written tmp]) AtClose
               | Some AtRename \<Rightarrow> fail (created # partial @ [written, byte_del written tmp]) AtRename
               | None \<Rightarrow>
                   if byte_get d final = Some ByteDir
                   then fail (created # partial @ [written, byte_del written tmp]) AtRename
                   else (created # partial @ [written, byte_put (byte_del written tmp) final (Bytes data)], None)))"

text \<open>\<open>Mutate\<close>, with the disks on the way\<close>

definition byte_mutate ::
    "store_io \<Rightarrow> nat list \<Rightarrow> byte_disk \<Rightarrow> scope \<Rightarrow> (blocklist \<Rightarrow> store_error + blocklist \<times> 'r) \<Rightarrow>
     byte_disk list \<times> (store_error + 'r)" where
  "byte_mutate io ks d s fn =
     (case byte_load io d s of
        Inl e \<Rightarrow> ([], Inl e)
      | Inr bl \<Rightarrow>
          (case fn bl of
             Inl e \<Rightarrow> ([], Inl e)
           | Inr (bl', r) \<Rightarrow>
               (case byte_save io ks d s bl' of
                  (ds, Some e) \<Rightarrow> (ds, Inl e)
                | (ds, None) \<Rightarrow> (ds, Inr r))))"

definition byte_uid_of_entry :: "string \<times> byte_node \<Rightarrow> int option" where
  "byte_uid_of_entry e =
     (if snd e = ByteDir then None
      else if \<not> has_suffix (fst e) ''.json'' then None
      else atoi (trim_suffix (fst e) ''.json''))"

definition byte_list_uids :: "store_io \<Rightarrow> byte_disk \<Rightarrow> store_error + int list" where
  "byte_list_uids io d =
     (if list_fault io then Inl ListError
      else (case byte_users d of
              None \<Rightarrow> Inr []
            | Some es \<Rightarrow> Inr (sort (List.map_filter byte_uid_of_entry es))))"

section \<open>Reading a directory of bytes as one of documents\<close>

fun read_node :: "byte_node \<Rightarrow> node" where
  "read_node ByteDir = Dir"
| "read_node (Bytes b) = File (unmarshal_blocklist b)"

definition read_dir :: "byte_dir \<Rightarrow> dir" where
  "read_dir es = map (apsnd read_node) es"

definition read_disk :: "byte_disk \<Rightarrow> disk" where
  "read_disk d = \<lparr>base = read_dir (byte_base d), users = map_option read_dir (byte_users d)\<rparr>"

lemma read_node_Dir [simp]: "read_node v = Dir \<longleftrightarrow> v = ByteDir"
  by (cases v) simp_all

lemma read_dir_simps [simp]:
  "map_of (read_dir es) n = map_option read_node (map_of es n)"
  "AList.update n (read_node v) (read_dir es) = read_dir (AList.update n v es)"
  "AList.delete n (read_dir es) = read_dir (AList.delete n es)"
  by (induction es) (auto simp: read_dir_def AList.delete_eq)

lemma read_place [simp]: "place_dir (read_disk d) p = map_option read_dir (byte_place d p)"
  by (cases p) (simp_all add: place_dir_def byte_place_def read_disk_def)

lemma read_set_place: "read_disk (set_byte_place d p es) = set_place_dir (read_disk d) p (read_dir es)"
  by (cases p) (simp_all add: set_place_dir_def set_byte_place_def read_disk_def)

lemma read_get [simp]: "disk_get (read_disk d) pn = map_option read_node (byte_get d pn)"
  by (simp add: disk_get_def byte_get_def split: option.split)

lemma read_put [simp]: "disk_put (read_disk d) pn (read_node v) = read_disk (byte_put d pn v)"
  by (simp add: disk_put_def byte_put_def read_set_place split: option.split)

lemma read_del [simp]: "disk_del (read_disk d) pn = read_disk (byte_del d pn)"
  by (simp add: disk_del_def byte_del_def read_set_place split: option.split)

lemma read_has_place [simp]: "has_place (read_disk d) p \<longleftrightarrow> byte_has d p"
  by (simp add: has_place_def byte_has_def)

lemma read_new_store: "read_disk (byte_new_store d) = new_store (read_disk d)"
  by (simp add: byte_new_store_def new_store_def read_disk_def read_dir_def split: option.split)

theorem byte_load_refines: "byte_load io d s = load_locked io (read_disk d) s"
  by (simp add: byte_load_def load_locked_def split: option.split byte_node.split json_file.split)

theorem byte_list_uids_refines: "byte_list_uids io d = list_user_uids io (read_disk d)"
proof -
  have "uid_of_entry (apsnd read_node e) = byte_uid_of_entry e" for e
    by (simp add: uid_of_entry_def byte_uid_of_entry_def)
  then have "List.map_filter uid_of_entry (read_dir es) = List.map_filter byte_uid_of_entry es" for es
    by (induction es) (simp_all add: read_dir_def List.map_filter_simps split: option.split)
  then show ?thesis by (simp add: byte_list_uids_def list_user_uids_def read_disk_def split: option.split)
qed

section \<open>Saving refines saving documents\<close>

definition clean_list :: "blocklist \<Rightarrow> bool" where
  "clean_list bl \<longleftrightarrow> clean_strings (Domains bl) \<and> clean_strings (IPs bl)"

lemma clean_sorted_unique: "clean_strings xs \<Longrightarrow> clean_strings (sorted_unique xs)"
  by (simp add: clean_strings_def list_all_iff)

lemma clean_empty [simp]: "clean_list empty_blocklist"
  by (simp add: clean_list_def clean_strings_def empty_blocklist_def)

text \<open>Whatever bytes a file holds, the list read from it is valid UTF-8.\<close>

lemma unmarshal_clean:
  assumes "unmarshal_blocklist b = Doc ds is"
  shows "clean_list (doc_blocklist ds is)"
proof -
  obtain v x y where v: "json_unmarshal b = Some v" "decode_struct blocklist_fields v (([], []), ([], [])) = Some (x, y)"
      "ds = Some (fst x)" "is = Some (fst y)"
    using assms by (auto simp: unmarshal_blocklist_def split: option.splits prod.splits)
  have c: "clean_json v" using json_unmarshal_clean [OF v(1)] .
  have "clean_slice x \<and> clean_slice y"
  proof (cases v)
    case (JObj ms)
    let ?P = "\<lambda>a. clean_slice (fst a) \<and> clean_slice (snd a)"
    have "decode_fields blocklist_fields ms (([], []), ([], [])) = Some (x, y)" using v(2) JObj by simp
    then have "?P (x, y)"
    proof (rule decode_fields_inv [where P = ?P])
      show "?P (([], []), ([], []))" by (simp add: clean_slice_def clean_strings_def)
      fix name dec w a b
      assume d: "(name, dec) \<in> set blocklist_fields" "w \<in> snd ` set ms" "dec w a = Some b" "?P a"
      then have "clean_json w" using c JObj by (auto simp: list_all_iff)
      then show "?P b" using d(1,3,4) decode_strings_clean [of w "fst a"] decode_strings_clean [of w "snd a"]
        by (auto simp: blocklist_fields_def field_def)
    qed
    then show ?thesis by simp
  qed (use v(2) in \<open>auto simp: decode_struct_def clean_slice_def clean_strings_def\<close>)
  then show ?thesis by (simp add: v clean_list_def clean_slice_def doc_blocklist_def)
qed

lemma byte_load_clean: "byte_load io d s = Inr bl \<Longrightarrow> clean_list bl"
  by (auto simp: byte_load_def unmarshal_clean split: if_splits option.splits byte_node.splits json_file.splits)

lemma read_saved:
  assumes "clean_list bl"
  shows "unmarshal_blocklist (marshal_blocklist \<lparr>Domains = sorted_unique (Domains bl), IPs = sorted_unique (IPs bl)\<rparr>) =
    Doc (Some (sorted_unique (Domains bl))) (Some (sorted_unique (IPs bl)))"
  using assms clean_sorted_unique clean_strings_fix by (simp add: file_roundtrip clean_list_def)

theorem byte_save_refines:
  assumes "clean_list bl" "byte_save io ks d s bl = (ds, r)"
  shows "\<exists>ds'. save_locked io (read_disk d) s bl = (ds', r) \<and> read_disk (last (d # ds)) = final_disk (read_disk d) ds'"
proof -
  have g: "File Garbage = read_node (Bytes [])" by (simp add: empty_file)
  have r: "File (Doc (Some (sorted_unique (Domains bl))) (Some (sorted_unique (IPs bl)))) =
      read_node (Bytes (marshal_blocklist \<lparr>Domains = sorted_unique (Domains bl), IPs = sorted_unique (IPs bl)\<rparr>))"
    using read_saved [OF assms(1)] by simp
  show ?thesis
  proof (cases "save_fault io s")
    case None
    then show ?thesis using assms(2)
      by (auto simp: byte_save_def save_locked_def Let_def final_disk_def g r simp del: read_node.simps split: if_splits)
  next
    case (Some stage)
    then show ?thesis using assms(2)
      by (cases stage) (auto simp: byte_save_def save_locked_def Let_def final_disk_def g r simp del: read_node.simps split: if_splits)
  qed
qed

text \<open>At every moment of a save the files of the store are as before, or the new one is complete.\<close>

lemma byte_get_put:
  "byte_has d (fst pn) \<Longrightarrow> byte_get (byte_put d pn v) qn = (if qn = pn then Some v else byte_get d qn)"
  by (cases "fst pn"; cases pn; cases qn; cases "fst qn")
    (auto simp: byte_get_def byte_put_def byte_has_def byte_place_def set_byte_place_def update_conv')

lemma byte_get_del: "byte_get (byte_del d pn) qn = (if qn = pn then None else byte_get d qn)"
  by (cases "fst pn"; cases pn; cases qn; cases "fst qn")
    (auto simp: byte_get_def byte_del_def byte_place_def set_byte_place_def delete_conv' split: option.splits)

lemma byte_has_put [simp]: "byte_has (byte_put d pn v) p = byte_has d p"
  using has_place_put [of "read_disk d" pn "read_node v" p] by simp

lemma byte_has_del [simp]: "byte_has (byte_del d pn) p = byte_has d p"
  using has_place_del [of "read_disk d" pn p] by simp

definition save_disks :: "store_io \<Rightarrow> nat list \<Rightarrow> byte_disk \<Rightarrow> scope \<Rightarrow> string \<Rightarrow> byte_disk list" where
  "save_disks io ks d s data =
     (let created = byte_put d (temp_path io s) (Bytes []) in
      created # map (\<lambda>k. byte_put created (temp_path io s) (Bytes (take k data))) ks
        @ [byte_put created (temp_path io s) (Bytes data)])"

lemma byte_save_shape:
  assumes "byte_save io ks d s bl = (ds, r)" "x \<in> set ds"
  defines "data \<equiv> marshal_blocklist \<lparr>Domains = sorted_unique (Domains bl), IPs = sorted_unique (IPs bl)\<rparr>"
  shows "byte_has d (fst (path s)) \<and>
    (\<exists>y \<in> set (save_disks io ks d s data). x = y \<or> x = byte_del y (temp_path io s) \<or>
      r = None \<and> x = byte_put (byte_del y (temp_path io s)) (path s) (Bytes data))"
proof -
  have "byte_has d (fst (path s))"
    using assms by (auto simp: byte_save_def Let_def split: if_splits)
  moreover have "\<exists>y \<in> set (save_disks io ks d s data). x = y \<or> x = byte_del y (temp_path io s) \<or>
      r = None \<and> x = byte_put (byte_del y (temp_path io s)) (path s) (Bytes data)"
  proof (cases "save_fault io s")
    case None
    then show ?thesis using assms(1,2)
      by (auto simp: byte_save_def Let_def temp_path_def save_disks_def data_def split: if_splits)
  next
    case (Some stage)
    then show ?thesis using assms(1,2)
      by (cases stage) (auto simp: byte_save_def Let_def temp_path_def save_disks_def data_def split: if_splits)
  qed
  ultimately show ?thesis by blast
qed

lemma byte_save_disks_get:
  assumes "byte_has d (fst (path s))" "y \<in> set (save_disks io ks d s data)" "pn \<noteq> temp_path io s"
  shows "byte_get y pn = byte_get d pn" "byte_has y (fst (path s))"
  using assms by (auto simp: save_disks_def Let_def byte_get_put)

lemma byte_save_get:
  assumes "byte_save io ks d s bl = (ds, r)" "x \<in> set (d # ds)"
  shows "byte_get x (path t) = byte_get d (path t) \<or> r = None \<and> same_scope s t \<and>
    byte_get x (path t) = Some (Bytes (marshal_blocklist \<lparr>Domains = sorted_unique (Domains bl), IPs = sorted_unique (IPs bl)\<rparr>))"
proof (cases "x = d")
  case False
  then have "x \<in> set ds" using assms(2) by simp
  note p = byte_save_shape [OF assms(1) this]
  then obtain y where "y \<in> set (save_disks io ks d s (marshal_blocklist \<lparr>Domains = sorted_unique (Domains bl), IPs = sorted_unique (IPs bl)\<rparr>))"
    and x: "x = y \<or> x = byte_del y (temp_path io s) \<or> r = None \<and> x = byte_put (byte_del y (temp_path io s)) (path s)
      (Bytes (marshal_blocklist \<lparr>Domains = sorted_unique (Domains bl), IPs = sorted_unique (IPs bl)\<rparr>))" by blast
  then have y: "byte_get y (path t) = byte_get d (path t)" "byte_has y (fst (path s))"
    using byte_save_disks_get [OF p [THEN conjunct1] _ temp_path_neq(1)] by blast+
  have "byte_get (byte_put (byte_del y (temp_path io s)) (path s) v) (path t) =
      (if path t = path s then Some v else byte_get y (path t))" for v
    using y(2) by (simp add: byte_get_put byte_get_del temp_path_neq)
  then show ?thesis using x y(1) path_eq_iff [of s t] by (auto simp: byte_get_del temp_path_neq)
qed simp

theorem byte_save_atomic:
  assumes "clean_list bl" "byte_save io ks d s bl = (ds, r)" "x \<in> set (d # ds)"
  shows "content (read_disk x) t = content (read_disk d) t \<or> r = None \<and> same_scope s t \<and> content (read_disk x) t = Some (tidy bl)"
  using byte_save_get [OF assms(2,3), of t] read_saved [OF assms(1)] by (auto simp: content_def)

section \<open>Mutating\<close>

text \<open>
  What the daemon does to a list keeps it valid UTF-8, and then a mutation of the bytes is the mutation
  of the documents.
\<close>

theorem byte_mutate_refines:
  assumes "\<And>bl bl' r. clean_list bl \<Longrightarrow> fn bl = Inr (bl', r) \<Longrightarrow> clean_list bl'"
    and "byte_mutate io ks d s fn = (ds, q)"
  shows "mutate io (read_disk d) s fn = (read_disk (last (d # ds)), q)"
proof (cases "byte_load io d s")
  case (Inl e)
  then show ?thesis using assms(2) by (auto simp: byte_mutate_def mutate_def byte_load_refines)
next
  case (Inr bl)
  show ?thesis
  proof (cases "fn bl")
    case (Inl e)
    then show ?thesis using assms(2) Inr by (auto simp: byte_mutate_def mutate_def byte_load_refines)
  next
    case f: (Inr p)
    obtain bl' r where p: "p = (bl', r)" by (cases p)
    then have c: "clean_list bl'" using assms(1) [OF byte_load_clean [OF Inr]] f by simp
    obtain xs e where x: "byte_save io ks d s bl' = (xs, e)" by (cases "byte_save io ks d s bl'")
    show ?thesis using byte_save_refines [OF c x] x assms(2) Inr f p
      by (auto simp: byte_mutate_def mutate_def byte_load_refines split: option.splits)
  qed
qed

theorem byte_mutate_atomic:
  assumes "\<And>bl bl' r. clean_list bl \<Longrightarrow> fn bl = Inr (bl', r) \<Longrightarrow> clean_list bl'"
    and "byte_mutate io ks d s fn = (ds, q)" "x \<in> set (d # ds)"
  shows "content (read_disk x) t = content (read_disk d) t \<or>
    (\<exists>r bl bl'. q = Inr r \<and> same_scope s t \<and> byte_load io d s = Inr bl \<and> fn bl = Inr (bl', r) \<and>
      content (read_disk x) t = Some (tidy bl'))"
proof (cases "x = d")
  case False
  then obtain bl bl' r e where "byte_load io d s = Inr bl" "fn bl = Inr (bl', r)" "byte_save io ks d s bl' = (ds, e)"
      "q = (case e of None \<Rightarrow> Inr r | Some x \<Rightarrow> Inl x)"
    using assms(2,3) by (auto simp: byte_mutate_def split: sum.splits prod.splits option.splits)
  moreover from this have "clean_list bl'" using assms(1) byte_load_clean by blast
  ultimately show ?thesis using byte_save_atomic [of bl' io ks d s ds e x t] assms(3) by auto
qed simp

section \<open>The functions the daemon mutates with\<close>

lemma clean_add_fn:
  assumes "clean_list bl" "clean_strings ds" "clean_strings as" "add_fn ds as bl = Inr (bl', r)"
  shows "clean_list bl'"
proof -
  obtain xs n ys m where x: "add_unique (Domains bl) ds = (xs, n)" "add_unique (IPs bl) as = (ys, m)"
    by (cases "add_unique (Domains bl) ds"; cases "add_unique (IPs bl) as")
  then have "Domains bl' = xs" "IPs bl' = ys" using assms(4) by (auto simp: add_fn_def AddDomains_def AddIPs_def)
  then show ?thesis using assms(1-3) add_unique_spec(1) [OF x(1)] add_unique_spec(1) [OF x(2)]
    by (auto simp: clean_list_def clean_strings_def list_all_iff)
qed

lemma clean_remove_fn:
  assumes "clean_list bl" "remove_fn ds as bl = Inr (bl', r)"
  shows "clean_list bl'"
proof -
  obtain xs n ys m where x: "remove_all (Domains bl) ds = (xs, n)" "remove_all (IPs bl) as = (ys, m)"
    by (cases "remove_all (Domains bl) ds"; cases "remove_all (IPs bl) as")
  then have "Domains bl' = xs" "IPs bl' = ys" using assms(2) by (auto simp: remove_fn_def RemoveDomains_def RemoveIPs_def)
  then show ?thesis using assms(1) remove_all_spec(1) [OF x(1)] remove_all_spec(1) [OF x(2)]
    by (auto simp: clean_list_def clean_strings_def list_all_iff)
qed

lemma accepted_clean:
  assumes "normalize_and_validate u raw_domains raw_ips = Inr (ds, as)"
  shows "clean_strings ds" "clean_strings as"
proof -
  note v = normalize_and_validate_ok [OF assms]
  show "clean_strings ds" using v(3) accepted_domain_text by (auto simp: clean_strings_def clean_def list_all_iff)
  show "clean_strings as" using v(5) addr_text_ascii clean_ascii
    by (auto simp: clean_strings_def list_all_iff canonical_ip_def)
qed

theorem accepted_change_on_bytes:
  assumes "normalize_and_validate u raw_domains raw_ips = Inr (ds, as)" "fn \<in> {add_fn ds as, remove_fn ds as}"
    and "byte_mutate io ks d s fn = (xs, q)"
  shows "mutate io (read_disk d) s fn = (read_disk (last (d # xs)), q) \<and>
    (\<forall>x \<in> set (d # xs). \<forall>t. content (read_disk x) t \<in> {content (read_disk d) t, content (read_disk (last (d # xs))) t})"
proof -
  have c: "clean_list bl'" if "clean_list bl" "fn bl = Inr (bl', r)" for bl bl' r
    using assms(2) that clean_add_fn clean_remove_fn accepted_clean [OF assms(1)] by blast
  have m: "mutate io (read_disk d) s fn = (read_disk (last (d # xs)), q)"
    by (rule byte_mutate_refines [OF c assms(3)])
  have "content (read_disk x) t \<in> {content (read_disk d) t, content (read_disk (last (d # xs))) t}"
    if "x \<in> set (d # xs)" for x t
    using byte_mutate_atomic [OF c assms(3) that, where t = t]
  proof
    assume "\<exists>r bl bl'. q = Inr r \<and> same_scope s t \<and> byte_load io d s = Inr bl \<and> fn bl = Inr (bl', r) \<and>
      content (read_disk x) t = Some (tidy bl')"
    then obtain r bl bl' where q: "q = Inr r" "same_scope s t" "byte_load io d s = Inr bl" "fn bl = Inr (bl', r)"
      "content (read_disk x) t = Some (tidy bl')" by blast
    obtain cl cl' where cl: "content (read_disk d) s = Some cl" "fn cl = Inr (cl', r)"
      "content (read_disk (last (d # xs))) t = (if same_scope s t then Some (tidy cl') else content (read_disk d) t)"
      using mutate_ok [OF m [unfolded q(1)]] by blast
    have "content (read_disk d) s = Some bl" using q(3) load_content by (simp add: byte_load_refines)
    then show ?thesis using q cl by simp
  next
    assume "content (read_disk x) t = content (read_disk d) t"
    then show ?thesis by simp
  qed
  with m show ?thesis by blast
qed

end
