(* ===== verification/Concurrent_Acks.thy ===== *)
theory Concurrent_Acks
  imports Concurrent_Daemon
begin

text \<open>
  What an answer of OK means while others run. Adding an address takes many steps, and other
  processes read lists and apply them in between, some of them lists that they read before the
  address was added. Still, once the call that added it has returned without an error the
  kernel blocks the address, and goes on to do so: whoever applies later has read a list with
  the address on it.
\<close>

section \<open>An address on its way to the kernel\<close>

definition has_ip :: "disk \<Rightarrow> scope \<Rightarrow> string \<Rightarrow> bool" where
  "has_ip d t a \<longleftrightarrow> (case content d t of None \<Rightarrow> False | Some bl \<Rightarrow> a \<in> set (IPs bl))"

text \<open>What the process has read of the list has the address on it.\<close>

definition has_read :: "scope \<Rightarrow> string \<Rightarrow> phase \<Rightarrow> bool" where
  "has_read t a ph \<longleftrightarrow> (case seen ph t of None \<Rightarrow> True | Some bl \<Rightarrow> a \<in> set (IPs bl))"

fun removes :: "job \<Rightarrow> scope \<Rightarrow> string \<Rightarrow> bool" where
  "removes (io, w, RemoveReq s ds as) t a \<longleftrightarrow> same_scope s t \<and> a \<in> set as"
| "removes q t a \<longleftrightarrow> False"

text \<open>The packets that the list is about and that go to the address\<close>

definition concerns :: "scope \<Rightarrow> string \<Rightarrow> packet \<Rightarrow> bool" where
  "concerns t a p \<longleftrightarrow> (Global t \<or> skuid p = UID t) \<and> daddr p = a \<and> addr_text (is_v6 p) a"

text \<open>
  The invariant about process \<open>k\<close>, which adds \<open>a\<close> to the list of \<open>t\<close>: as soon as it has entered
  its first critical section, nobody has read a list of \<open>t\<close> without \<open>a\<close>.
\<close>

definition acked :: "('b \<Rightarrow> packet \<Rightarrow> bool) \<Rightarrow> nat \<Rightarrow> scope \<Rightarrow> string \<Rightarrow> 'b sys \<Rightarrow> bool" where
  "acked verdict k t a s \<longleftrightarrow>
     (phase (procs s ! k) = Ready \<or> (\<exists>e. phase (procs s ! k) = Refused e)) \<or>
     has_ip (disk_of (eng_of s)) t a \<and>
     (phase (procs s ! k) = WantFirst \<or> (\<forall>p \<in> set (procs s). has_read t a (phase p))) \<and>
     (phase (procs s ! k) = Finished None \<longrightarrow>
        some_failed s \<or> (\<forall>p. concerns t a p \<longrightarrow> verdict (be_state (eng_of s)) p))"

lemma scope_ok_proper: "scope_ok t \<Longrightarrow> proper_scope t"
  by (cases t) (auto simp: scope_ok_def proper_scope_def GlobalScope_def UserScope_def kernel_uid_def go_int_def split: if_splits)

lemma not_reading: "\<not> in_section ph \<Longrightarrow> has_read t a ph"
  by (cases ph) (simp_all add: has_read_def)

lemma has_read_phases [simp]:
  "has_read t a (ReadGlobal p)"
  "has_read t a (ReadUids p g) \<longleftrightarrow> (Global t \<longrightarrow> a \<in> set (IPs g))"
  by (simp_all add: has_read_def)

text \<open>Whoever reads the list while the address is on it reads the address.\<close>

lemma turn_read:
  assumes "turn cfg i q ph eng m = Some (ph', eng', m')" "wf_disk (disk_of eng)" "proper_scope t"
    and "has_ip (disk_of eng) t a" "has_read t a ph"
  shows "has_read t a ph'"
proof (cases "(cfg, i, q, ph, eng, m)" rule: turn.cases)
  case (3 cfg0 i0 io w q0 p eng0 m0)
  have "a \<in> set (IPs g)" if "Global t" "load_locked (pass_io w p) (disk_of eng) GlobalScope = Inr g" for g
    using that assms(3,4) load_content [OF that(2)] by (auto simp: has_ip_def proper_scope_def UserScope_def)
  then show ?thesis using 3 assms(1) by (auto simp: not_reading split: sum.splits)
next
  case (4 cfg0 i0 io w q0 p g eng0 m0)
  have "UID t \<in> set us" if "\<not> Global t" "list_user_uids (pass_io w p) (disk_of eng) = Inr us" for us
    using that assms(3,4) list_user_uids_spec(3) [OF assms(2) that(2), of "UID t"]
    by (cases "UID t \<in> set us") (auto simp: has_ip_def proper_scope_def UserScope_def GlobalScope_def empty_blocklist_def)
  then show ?thesis using 4 assms(1,5) by (auto simp: has_read_def split: sum.splits)
next
  case (5 cfg0 i0 io w q0 p g u us acc eng0 m0)
  have "a \<in> set (IPs bl)"
    if "\<not> Global t" "u = UID t" "load_locked (pass_io w p) (disk_of eng) (UserScope u) = Inr bl" for bl
    using that assms(3,4) load_content [OF that(3)] by (auto simp: has_ip_def proper_scope_def UserScope_def GlobalScope_def)
  then show ?thesis using 5 assms(1,5)
    by (auto simp: has_read_def update_conv' split: sum.splits if_splits)
qed (use assms in \<open>auto simp: not_reading submit_phase conclude_phase split: prod.splits sum.splits if_splits\<close>)

text \<open>Mutations of others leave the address on the list, unless they remove it.\<close>

lemma wf_no_empty_ip: "wf_blocklist bl \<Longrightarrow> a \<in> set (IPs bl) \<Longrightarrow> a \<noteq> []"
  by (auto simp: wf_blocklist_def wf_list_def)

lemma tidy_ips: "set (IPs (tidy bl)) = set (IPs bl) - {[]}"
  by (simp add: tidy_def)

lemma content_same: "same_scope s t \<Longrightarrow> content d s = content d t"
  using path_eq_iff [of s t] by (simp add: content_def)

lemma submit_change_keeps:
  assumes "submit_change io s fn eng = (ph, eng')" "wf_disk (disk_of eng)" "has_ip (disk_of eng) t a"
    and "\<And>bl bl' r. wf_blocklist bl \<Longrightarrow> same_scope s t \<Longrightarrow> a \<in> set (IPs bl) \<Longrightarrow> fn bl = Inr (bl', r) \<Longrightarrow> a \<in> set (IPs bl')"
  shows "has_ip (disk_of eng') t a"
proof -
  obtain bl where bl: "content (disk_of eng) t = Some bl" "a \<in> set (IPs bl)"
    using assms(3) by (auto simp: has_ip_def split: option.splits)
  have wf: "wf_blocklist bl" using fs_store.get_inv [OF assms(2), of t] bl(1) by auto
  obtain d q where m: "mutate io (disk_of eng) s fn = (d, q)" by (cases "mutate io (disk_of eng) s fn")
  have d: "disk_of eng' = d" using assms(1) m by (auto simp: submit_change_def split: sum.splits)
  from fs_store.mutate_cases [OF m, of t] show ?thesis
  proof (elim disjE exE conjE)
    fix r b b' assume s: "same_scope s t" "content (disk_of eng) s = Some b" "fn b = Inr (b', r)" "content d t = Some (tidy b')"
    then have "b = bl" using bl(1) content_same by simp
    then have "a \<in> set (IPs b')" using assms(4) [OF wf s(1) bl(2)] s(3) by simp
    then show ?thesis using wf_no_empty_ip [OF wf bl(2)] by (simp add: has_ip_def d s(4) tidy_ips)
  qed (use bl d in \<open>simp add: has_ip_def\<close>)
qed

lemma submit_keeps:
  assumes "submit q eng = (ph, eng')" "wf_disk (disk_of eng)" "has_ip (disk_of eng) t a" "\<not> removes q t a"
  shows "has_ip (disk_of eng') t a"
proof (cases "(q, eng)" rule: submit.cases)
  case (1 io w s ds as eng0)
  have keep: "a \<in> set (IPs bl')" if "wf_blocklist bl" "a \<in> set (IPs bl)" "add_fn ds as bl = Inr (bl', r)" for bl bl' r
    using that add_fn_spec(2) [of ds as bl bl' "fst r" "snd r"] wf_no_empty_ip [OF that(1,2)] by simp
  have "submit_change io s (add_fn ds as) eng = (ph, eng')" using assms(1) 1 by simp
  from submit_change_keeps [OF this assms(2,3)] show ?thesis using keep by blast
next
  case (2 io w s ds as eng0)
  have keep: "a \<in> set (IPs bl')" if "wf_blocklist bl" "same_scope s t" "a \<in> set (IPs bl)" "remove_fn ds as bl = Inr (bl', r)" for bl bl' r
    using that remove_fn_spec(2) [of ds as bl bl' "fst r" "snd r"] assms(4) 2 by simp
  have "submit_change io s (remove_fn ds as) eng = (ph, eng')" using assms(1) 2 by simp
  from submit_change_keeps [OF this assms(2,3)] show ?thesis using keep by blast
qed (use assms in simp)

lemma submit_adds:
  assumes "submit (io, w, AddReq t ds as) eng = (ph, eng')" "a \<in> set as" "a \<noteq> []"
  shows "(\<exists>e. ph = Refused e) \<or> ph = WantFirst \<and> has_ip (disk_of eng') t a"
  using assms(1) [unfolded submit.simps]
proof (cases rule: submit_change_cases)
  case (1 d r)
  obtain bl bl' where bl: "add_fn ds as bl = Inr (bl', r)" "content d t = Some (tidy bl')"
    using fs_store.mutate_get [OF 1(1)] by auto
  then have "a \<in> set (IPs (tidy bl'))"
    using add_fn_spec(2) [of ds as bl bl' "fst r" "snd r"] assms(2,3) by (simp add: tidy_ips)
  then show ?thesis using 1 bl(2) by (simp add: has_ip_def)
qed simp

section \<open>The invariant\<close>

lemma ip_listed: "addr_text v6 a \<Longrightarrow> a \<in> set (IPs bl) \<Longrightarrow> listed c bl v6 a"
  by (force simp: listed_def addr_text_def split: option.splits)

text \<open>How a step can change what the kernel does\<close>

lemma conclude_backend:
  "conclude cfg q p g us eng = (ph, eng') \<Longrightarrow> ph = Finished None \<or> failed_phase ph \<or> be_state eng' = be_state eng"
  by (cases "(cfg, q, p, g, us, eng)" rule: conclude.cases)
    (auto simp: Let_def split: prod.splits if_splits elim: failed_phase.elims)

lemma submit_backend: "submit q eng = (ph, eng') \<Longrightarrow> be_state eng' = be_state eng"
  by (cases "(q, eng)" rule: submit.cases) (auto elim: submit_change_cases)

lemma turn_backend:
  assumes "turn cfg i q ph eng m = Some (ph', eng', m')"
  obtains "be_state eng' = be_state eng" | "failed_phase ph'"
  | p g us where "ph = ReadUsers p g [] us" "conclude cfg q p g us eng = (Finished None, eng')"
proof (cases "(cfg, i, q, ph, eng, m)" rule: turn.cases)
  case (6 cfg0 i0 q0 p g us eng0 m0)
  then have "conclude cfg q p g us eng = (ph', eng')" using assms by (auto split: prod.splits)
  from conclude_backend [OF this] this show ?thesis using that 6 by auto
next
  case (1 cfg0 i0 q0 eng0 m0)
  then have "submit q eng = (ph', eng')" using assms by (auto split: prod.splits)
  from submit_backend [OF this] show ?thesis by (rule that(1))
qed (use assms that in \<open>auto split: prod.splits sum.splits if_splits\<close>)

lemma turn_finished:
  assumes "turn cfg i q ph eng m = Some (Finished None, eng', m')"
  obtains p g us where "ph = ReadUsers p g [] us" "conclude cfg q p g us eng = (Finished None, eng')"
proof (cases "(cfg, i, q, ph, eng, m)" rule: turn.cases)
  case (1 cfg0 i0 q0 eng0 m0)
  then obtain e where "submit q eng = (Finished None, e)" using assms by (auto split: prod.splits)
  then show ?thesis using submit_result by fastforce
qed (use assms that in \<open>auto split: prod.splits sum.splits if_splits\<close>)

lemma some_failed_move: "move cfg i s = Some s' \<Longrightarrow> some_failed s \<Longrightarrow> some_failed s'"
proof -
  assume m: "move cfg i s = Some s'" and f: "some_failed s"
  obtain j where j: "j < length (procs s)" "failed_phase (phase (procs s ! j))" using f by (auto simp: some_failed_def some_at_nth)
  then have "done_phase (phase (procs s ! j))" by (auto elim: failed_phase.elims)
  then show ?thesis using extends_move [OF m] j unfolding some_failed_def some_at_nth extends_def by (metis order_less_le_trans)
qed

context engine_parts
begin

text \<open>Whoever applies with success blocks what it has read.\<close>

lemma conclude_blocks:
  assumes "conclude cfg q p g us eng = (Finished None, eng')" "engine_inv inv eng" "phase_ok (ReadUsers p g [] us)"
    and "has_read t a (ReadUsers p g [] us)" "concerns t a x"
  shows "verdict (be_state eng') x"
proof -
  obtain e where e: "build_and_apply cfg g us e = (eng', None)" "engine_inv inv e"
    using assms(1,2)
    by (cases "(cfg, q, p, g, us, eng)" rule: conclude.cases)
      (auto simp: Let_def engine_inv_def split: prod.splits if_splits)
  have d: "distinct (map fst us)" "\<forall>(u, bl) \<in> set us. bl = empty_blocklist \<or> kernel_uid u" using assms(3) by auto
  have x: "Global t \<or> skuid x = UID t" "daddr x = a" "addr_text (is_v6 x) a" using assms(5) by (auto simp: concerns_def)
  have "listed (cache eng') g (is_v6 x) (daddr x) \<or>
      (\<exists>bl. map_of us (skuid x) = Some bl \<and> listed (cache eng') bl (is_v6 x) (daddr x))"
    using assms(4) x ip_listed [OF x(3)]
    by (cases "Global t") (auto simp: has_read_def empty_blocklist_def split: option.splits)
  then show ?thesis
    using build_and_apply_any(3) [OF e(2) d e(1)] by (simp add: build_state_blocked [OF order d(1)])
qed

lemma move_acked:
  assumes "sys_ok inv s" "acked verdict k t a s" "move cfg i s = Some s'"
    and "k < length (procs s)" "job_of (procs s ! k) = (io, w, AddReq t ds as)" "a \<in> set as" "a \<noteq> []"
    and "proper_scope t" "\<forall>p \<in> set (procs s). \<not> removes (job_of p) t a"
  shows "acked verdict k t a s'"
  using assms(3)
proof (cases rule: move_SomeE)
  case (1 p ph eng m)
  let ?k = "phase (procs s ! k)" and ?k' = "phase (procs s' ! k)"
  have inv: "wf_disk (disk_of (eng_of s))" "engine_inv inv (eng_of s)" "phase_ok (phase p)"
    using assms(1) 1(1,2) by (auto simp: sys_ok_def engine_inv_def)
  have k': "?k' = (if k = i then ph else ?k)" using 1 by (simp add: nth_list_update)
  have i: "p \<in> set (procs s)" using 1(1,2) by simp
  consider (start) "?k' = Ready \<or> (\<exists>e. ?k' = Refused e)"
    | (submitted) "k = i" "?k = Ready" "ph = WantFirst" "has_ip (disk_of eng) t a"
    | (later) "\<not> (?k = Ready \<or> (\<exists>e. ?k = Refused e))"
  proof (cases "?k = Ready \<or> (\<exists>e. ?k = Refused e)")
    case True
    show ?thesis
    proof (cases "k = i")
      case True
      then have "?k = Ready" using 1 \<open>?k = Ready \<or> (\<exists>e. ?k = Refused e)\<close> by (auto split: prod.splits)
      then have "submit (io, w, AddReq t ds as) (eng_of s) = (ph, eng)"
        using 1(2,3) True assms(5) by (auto split: prod.splits)
      from submit_adds [OF this assms(6,7)] show ?thesis using start submitted True k' \<open>?k = Ready\<close> by auto
    qed (use start k' \<open>?k = Ready \<or> (\<exists>e. ?k = Refused e)\<close> in simp)
  qed (rule later)
  then show ?thesis
  proof cases
    case start
    then show ?thesis by (simp add: acked_def)
  next
    case submitted
    then show ?thesis using k' by (simp add: acked_def 1(4))
  next
    case later
    then have listed: "has_ip (disk_of (eng_of s)) t a" and
      read: "?k = WantFirst \<or> (\<forall>p \<in> set (procs s). has_read t a (phase p))" and
      was: "?k = Finished None \<longrightarrow> some_failed s \<or> (\<forall>x. concerns t a x \<longrightarrow> verdict (be_state (eng_of s)) x)"
      using assms(2) by (simp_all add: acked_def)
    have listed': "has_ip (disk_of eng) t a"
    proof (cases "phase p = Ready")
      case True
      then have "submit (job_of p) (eng_of s) = (ph, eng)" using 1(3) by (auto split: prod.splits)
      then show ?thesis using submit_keeps [OF _ inv(1) listed] assms(9) i by blast
    next
      case False
      then show ?thesis using turn_disk [OF 1(3)] listed by simp
    qed
    note new = turn_read [OF 1(3) inv(1) assms(8) listed]
    have read': "\<forall>p \<in> set (procs s'). has_read t a (phase p)" if "?k' \<noteq> WantFirst"
    proof (cases "?k = WantFirst")
      case False
      then have "\<forall>p \<in> set (procs s). has_read t a (phase p)" using read by blast
      then show ?thesis using new i by (auto simp: 1(4) dest!: set_update_subset_insert [THEN subsetD])
    next
      case True
      then have ki: "k = i" and ph: "ph = ReadGlobal First" "mu s = None"
        using that k' 1(2,3) by (auto split: if_splits)
      have "\<not> in_section (phase q)" if "q \<in> set (procs s)" for q
        using assms(1) ph(2) that by (auto simp: sys_ok_def exclusive_def in_set_conv_nth)
      then have "\<forall>q \<in> set (procs s). has_read t a (phase q)" using not_reading by blast
      then show ?thesis by (auto simp: 1(4) ph(1) dest!: set_update_subset_insert [THEN subsetD])
    qed
    have "some_failed s' \<or> (\<forall>x. concerns t a x \<longrightarrow> verdict (be_state eng) x)" if fin: "?k' = Finished None"
    proof -
      have applied: "\<forall>x. concerns t a x \<longrightarrow> verdict (be_state eng) x"
        if c: "phase p = ReadUsers r g [] us" "conclude cfg (job_of p) r g us (eng_of s) = (Finished None, eng)" for r g us
      proof -
        have "?k \<noteq> WantFirst"
        proof
          assume w: "?k = WantFirst"
          then have "k = i" using fin k' by (auto split: if_splits)
          then show False using w c(1) 1(2) by simp
        qed
        then have "has_read t a (phase p)" using read i by blast
        then show ?thesis using conclude_blocks [OF c(2) inv(2)] inv(3) c(1) by simp
      qed
      show ?thesis
      proof (cases "k = i")
        case True
        then have "turn cfg i (job_of p) (phase p) (eng_of s) (mu s) = Some (Finished None, eng, m)" using fin k' 1(3) by simp
        then show ?thesis using applied by (elim turn_finished) blast
      next
        case False
        then have old: "some_failed s \<or> (\<forall>x. concerns t a x \<longrightarrow> verdict (be_state (eng_of s)) x)" using fin k' was by simp
        from 1(3) show ?thesis
        proof (cases rule: turn_backend)
          case 1
          then show ?thesis using old some_failed_move [OF assms(3)] by auto
        next
          case 2
          then have "some_at failed_phase s'" using \<open>i < length (procs s)\<close> 1(4) by (auto simp: some_at_nth intro!: exI [of _ i])
          then show ?thesis by (simp add: some_failed_def)
        next
          case (3 r g us)
          then show ?thesis using applied by blast
        qed
      qed
    qed
    then show ?thesis using listed' read' by (auto simp: acked_def 1(4))
  qed
qed

end

section \<open>An answer of OK\<close>

lemma spawn_acked: "acked verdict k t a s \<Longrightarrow> k < length (procs s) \<Longrightarrow> acked verdict k t a (spawn q s)"
  using not_reading [of Ready t a] by (auto simp: acked_def nth_append some_failed_def spawn_some_at)

lemma new_acked: "acked verdict (length (procs s)) t a (spawn q s)"
  by (simp add: acked_def)

fun adds :: "job \<Rightarrow> scope \<Rightarrow> string \<Rightarrow> bool" where
  "adds (io, w, AddReq s ds as) t a \<longleftrightarrow> s = t \<and> a \<in> set as"
| "adds q t a \<longleftrightarrow> False"

lemma addsE: "adds q t a \<Longrightarrow> (\<And>io w ds as. q = (io, w, AddReq t ds as) \<Longrightarrow> a \<in> set as \<Longrightarrow> P) \<Longrightarrow> P"
  by (cases "(q, t, a)" rule: adds.cases) auto

definition all_acked :: "('b \<Rightarrow> packet \<Rightarrow> bool) \<Rightarrow> scope \<Rightarrow> string \<Rightarrow> 'b sys \<Rightarrow> bool" where
  "all_acked verdict t a s \<longleftrightarrow> (\<forall>k < length (procs s). adds (job_of (procs s ! k)) t a \<longrightarrow> acked verdict k t a s)"

context engine_parts
begin

lemma step_all_acked:
  assumes "daemon_inv sv s" "eng_cfg sv = cfg" "daemon_step sv i s = Some s'"
    and "jobs_in sv (\<lambda>q. \<not> removes q t a) s" "a \<noteq> []" "proper_scope t" "all_acked verdict t a (dm_sys s)"
  shows "all_acked verdict t a (dm_sys s')"
proof -
  have ok: "gos_ok sv s" "sys_ok inv (dm_sys s)" using assms(1) by (auto simp: daemon_inv_def reached_def)
  show ?thesis
    using assms(3) ok(1) [unfolded gos_ok_def]
  proof (cases rule: daemon_step_cases)
    case (begins q)
    have "acked verdict k t a (dm_sys s')"
      if "k < length (procs (dm_sys s'))" "adds (job_of (procs (dm_sys s') ! k)) t a" for k
    proof (cases "k = length (procs (dm_sys s))")
      case True
      then show ?thesis unfolding begins(1) by (simp only: new_acked)
    next
      case False
      then have "acked verdict k t a (dm_sys s)" "k < length (procs (dm_sys s))"
        using that assms(7) by (auto simp: all_acked_def begins(1) nth_append)
      then show ?thesis unfolding begins(1) by (rule spawn_acked)
    qed
    then show ?thesis by (simp add: all_acked_def)
  next
    case (moves k0)
    have m: "move cfg k0 (dm_sys s) = Some (dm_sys s')" using moves assms(2) by simp
    have jobs: "map job_of (procs (dm_sys s')) = map job_of (procs (dm_sys s))" by (rule move_jobs [OF m])
    then have len: "length (procs (dm_sys s')) = length (procs (dm_sys s))" by (rule map_eq_imp_length_eq)
    have no: "\<forall>p \<in> set (procs (dm_sys s)). \<not> removes (job_of p) t a" using assms(4) by (simp add: jobs_in_def)
    have "acked verdict k t a (dm_sys s')"
      if k: "k < length (procs (dm_sys s'))" "adds (job_of (procs (dm_sys s') ! k)) t a" for k
    proof -
      have k': "k < length (procs (dm_sys s))" using k(1) len by simp
      then have same: "job_of (procs (dm_sys s) ! k) = job_of (procs (dm_sys s') ! k)"
        using arg_cong [OF jobs, of "\<lambda>xs. xs ! k"] len by simp
      have ack: "acked verdict k t a (dm_sys s)" using assms(7) k(2) k' by (simp add: all_acked_def same)
      from k(2) show ?thesis
        by (rule addsE) (rule move_acked [OF ok(2) ack m k' _ _ assms(5,6) no], simp_all add: same)
    qed
    then show ?thesis by (simp add: all_acked_def)
  qed (use assms(7) in simp)
qed

lemma run_all_acked:
  assumes "daemon_inv sv s" "eng_cfg sv = cfg" "jobs_in sv (\<lambda>q. \<not> removes q t a) s" "a \<noteq> []" "proper_scope t"
    and "all_acked verdict t a (dm_sys s)"
  shows "all_acked verdict t a (dm_sys (run_daemon sv is s))"
proof -
  let ?P = "\<lambda>s. daemon_inv sv s \<and> jobs_in sv (\<lambda>q. \<not> removes q t a) s \<and> all_acked verdict t a (dm_sys s)"
  have step: "?P s'" if "?P x" "daemon_step sv i x = Some s'" for x i s'
    using that step_daemon_inv [OF _ assms(2)] step_all_acked [OF _ assms(2) _ _ assms(4,5)]
      daemon_step_jobs_in [of sv _ x i s'] unfolding daemon_inv_def reached_def by blast
  have "?P (run_daemon sv is s)"
    by (rule run_daemon_keeps [where P = ?P]) (use step assms(1,3,6) in blast)+
  then show ?thesis by blast
qed

text \<open>
  Once a connection that adds an address was answered with OK, the address is on the list and
  the kernel blocks it, as long as nobody removes it and no call fails.
\<close>

theorem acknowledged_address:
  assumes "daemon_inv sv s0" "eng_cfg sv = cfg" "procs (dm_sys s0) = []"
    and "jobs_in sv (\<lambda>q. \<not> removes q t a) s0" "run_daemon sv is s0 = s"
    and "Serve c (Answered resp) \<in> set (dm_gos s)" "resp_ok resp"
    and "asks sv c (Change True t domains ips)" "a \<in> set ips" "a \<noteq> []" "scope_ok t"
  shows "has_ip (disk_of (eng_of (dm_sys s))) t a \<and>
    (\<not> some_failed (dm_sys s) \<longrightarrow> concerns t a p \<longrightarrow> verdict (be_state (eng_of (dm_sys s))) p)"
proof -
  have "all_acked verdict t a (dm_sys s)"
    using run_all_acked [OF assms(1,2,4,10) scope_ok_proper [OF assms(11)]] assms(3,5)
    by (auto simp: all_acked_def)
  moreover have "go_ok sv (procs (dm_sys s)) (Serve c (Answered resp))"
    using run_daemon_inv [OF assms(1,2), of "is"] assms(5,6) by (auto simp: daemon_inv_def reached_def gos_ok_def)
  then obtain k where "k < length (procs (dm_sys s))" "job_of (procs (dm_sys s) ! k) = change_job c True t domains ips"
    "phase (procs (dm_sys s) ! k) = Finished None"
    using assms(7,8) unfolding go_ok.simps by blast
  ultimately show ?thesis using assms(9) by (auto simp: all_acked_def change_job_def acked_def)
qed

end

end
