(* ===== verification/Concurrent_Answers.thy ===== *)
theory Concurrent_Answers
  imports Concurrent_Daemon
begin

text \<open>
  What callers are told while others run: \<open>show\<close> gives lists that were stored at moments while
  it ran, the limiter counts requests in the order in which they come to it, and a connection
  that nobody interrupts is answered as \<open>serve\<close> in \<open>Server\<close> answers it.
\<close>

section \<open>Lists that were stored\<close>

text \<open>The list of a scope after the first steps of a schedule\<close>

definition list_at :: "'b service \<Rightarrow> 'b daemon \<Rightarrow> nat list \<Rightarrow> nat \<Rightarrow> scope \<Rightarrow> blocklist option" where
  "list_at sv s is n t = content (disk_of (eng_of (dm_sys (run_daemon sv (take n is) s)))) t"

lemma list_at_snoc: "n \<le> length is \<Longrightarrow> list_at sv s (is @ js) n t = list_at sv s is n t"
  by (simp add: list_at_def)

lemma list_at_end: "list_at sv s is (length is) t = content (disk_of (eng_of (dm_sys (run_daemon sv is s)))) t"
  by (simp add: list_at_def)

text \<open>
  The moments at which goroutine \<open>i\<close> is at work on its request: it has read it, and has not answered it yet.
\<close>

definition working :: "'b service \<Rightarrow> 'b daemon \<Rightarrow> nat list \<Rightarrow> nat \<Rightarrow> nat \<Rightarrow> bool" where
  "working sv s is i n \<longleftrightarrow>
     (case dm_gos (run_daemon sv (take n is) s) ! i of
        Serve c a \<Rightarrow> a \<noteq> Arrived \<and> (\<forall>resp. a \<noteq> Answered resp)
      | Refresh ws k es \<Rightarrow> False)"

lemma working_snoc: "n \<le> length is \<Longrightarrow> working sv s (is @ js) i n = working sv s is i n"
  by (simp add: working_def)

lemma working_end:
  "working sv s (is @ js) i (length is) \<longleftrightarrow>
     (case dm_gos (run_daemon sv is s) ! i of
        Serve c a \<Rightarrow> a \<noteq> Arrived \<and> (\<forall>resp. a \<noteq> Answered resp)
      | Refresh ws k es \<Rightarrow> False)"
  by (simp add: working_def)

text \<open>
  The two views of a user in the answer of goroutine \<open>i\<close>: its own list at one moment while the goroutine was at
  work, and the global list at a later one.
\<close>

definition stored_views :: "'b service \<Rightarrow> 'b daemon \<Rightarrow> nat list \<Rightarrow> nat \<Rightarrow> int \<Rightarrow> scope_view list \<Rightarrow> bool" where
  "stored_views sv s is i u views \<longleftrightarrow>
     (\<exists>m n own global. m < n \<and> n < length is \<and> working sv s is i m \<and> working sv s is i n \<and>
        list_at sv s is m (UserScope u) = Some own \<and> list_at sv s is n GlobalScope = Some global \<and>
        views = own_views own global)"

text \<open>How far \<open>show\<close> has come for the user \<open>u\<close>, and what it has read\<close>

fun show_so_far :: "'b service \<Rightarrow> 'b daemon \<Rightarrow> nat list \<Rightarrow> nat \<Rightarrow> conn \<Rightarrow> int \<Rightarrow> activity \<Rightarrow> bool" where
  "show_so_far sv s is i c u Arrived \<longleftrightarrow> True"
| "show_so_far sv s is i c u (Dispatching cred req) \<longleftrightarrow> conn_cred c = Some cred \<and> conn_request c = Some req"
| "show_so_far sv s is i c u (ShowOwn v) \<longleftrightarrow> v = u"
| "show_so_far sv s is i c u (ShowOwnGlobal own) \<longleftrightarrow>
     (\<exists>m < length is. working sv s is i m \<and> list_at sv s is m (UserScope u) = Some own)"
| "show_so_far sv s is i c u (Answered resp) \<longleftrightarrow> (resp_ok resp \<longrightarrow> stored_views sv s is i u (resp_views resp))"
| "show_so_far sv s is i c u a \<longleftrightarrow> False"

lemma stored_views_snoc:
  assumes "stored_views sv s is i u views"
  shows "stored_views sv s (is @ js) i u views"
proof -
  obtain m n own global where "m < n" "n < length is" "working sv s is i m" "working sv s is i n"
    "list_at sv s is m (UserScope u) = Some own" "list_at sv s is n GlobalScope = Some global" "views = own_views own global"
    using assms by (auto simp: stored_views_def)
  then show ?thesis unfolding stored_views_def
    by (intro exI [of _ m] exI [of _ n] exI [of _ own] exI [of _ global]) (simp add: list_at_snoc working_snoc)
qed

lemma show_so_far_snoc:
  assumes "show_so_far sv s is i c u a"
  shows "show_so_far sv s (is @ js) i c u a"
proof (cases a)
  case (ShowOwnGlobal own)
  then obtain m where "m < length is" "working sv s is i m" "list_at sv s is m (UserScope u) = Some own" using assms by auto
  then show ?thesis by (auto simp: ShowOwnGlobal list_at_snoc working_snoc intro!: exI [of _ m])
next
  case (Answered resp)
  then show ?thesis using assms stored_views_snoc [of sv s "is" i u "resp_views resp" js] by auto
qed (use assms in simp_all)

lemma conn_step_show:
  assumes "conn_step sv c a (dm_sys (run_daemon sv is s)) l = Some (a', sys, l')" "dm_gos (run_daemon sv is s) ! i = Serve c a"
    and "show_so_far sv s is i c u a" "asks sv c (ShowUser u)"
  shows "show_so_far sv s (is @ [i]) i c u a'"
proof (cases a)
  case (Dispatching cred req)
  then have "begin_dispatch sv cred req = ShowUser u" using assms(3,4) by (simp add: asks_def)
  then show ?thesis using assms(1) by (auto simp: Dispatching)
next
  case (ShowOwn v)
  then have v: "v = u" using assms(3) by simp
  show ?thesis
  proof (cases "load_locked (call_io (conn_call c)) (disk_of (eng_of (dm_sys (run_daemon sv is s)))) (UserScope u)")
    case (Inr own)
    then have "list_at sv s (is @ [i]) (length is) (UserScope u) = Some own"
      using load_content by (simp add: list_at_snoc list_at_end)
    moreover have "working sv s (is @ [i]) i (length is)" unfolding working_end by (simp add: assms(2) ShowOwn)
    ultimately show ?thesis using assms(1) Inr v by (auto simp: ShowOwn intro!: exI [of _ "length is"])
  qed (use assms(1) v in \<open>auto simp: ShowOwn\<close>)
next
  case (ShowOwnGlobal own)
  then obtain m where m: "m < length is" "working sv s is i m" "list_at sv s is m (UserScope u) = Some own"
    using assms(3) by auto
  show ?thesis
  proof (cases "load_locked (call_io (conn_call c)) (disk_of (eng_of (dm_sys (run_daemon sv is s)))) GlobalScope")
    case (Inr global)
    then have "list_at sv s (is @ [i]) (length is) GlobalScope = Some global"
      using load_content by (simp add: list_at_snoc list_at_end)
    moreover have "working sv s (is @ [i]) i (length is)" unfolding working_end by (simp add: assms(2) ShowOwnGlobal)
    ultimately have "stored_views sv s (is @ [i]) i u (own_views own global)" unfolding stored_views_def using m
      by (intro exI [of _ m] exI [of _ "length is"] exI [of _ own] exI [of _ global]) (simp add: list_at_snoc working_snoc)
    then show ?thesis using assms(1) Inr by (auto simp: ShowOwnGlobal)
  qed (use assms(1) in \<open>auto simp: ShowOwnGlobal\<close>)
next
  case Arrived
  then show ?thesis using assms(1) by (auto split: option.splits prod.splits bool.splits)
qed (use assms(1,3) in auto)

theorem show_was_stored:
  assumes "i < length (dm_gos s)" "dm_gos s ! i = Serve c Arrived" "asks sv c (ShowUser u)"
    and "dm_gos (run_daemon sv is s) ! i = Serve c' (Answered resp)" "resp_ok resp"
  shows "stored_views sv s is i u (resp_views resp)"
proof -
  have "i < length (dm_gos (run_daemon sv is s)) \<and>
    (\<exists>a. dm_gos (run_daemon sv is s) ! i = Serve c a \<and> show_so_far sv s is i c u a)" for "is"
  proof (induction "is" rule: rev_induct)
    case Nil
    then show ?case using assms(1,2) by simp
  next
    case (snoc j js)
    let ?s = "run_daemon sv js s"
    from snoc obtain a where a: "i < length (dm_gos ?s)" "dm_gos ?s ! i = Serve c a" "show_so_far sv s js i c u a" by blast
    have run: "run_daemon sv (js @ [j]) s = (case daemon_step sv j ?s of None \<Rightarrow> ?s | Some s' \<Rightarrow> s')"
      by (simp add: run_daemon_append)
    show ?case
    proof (cases "daemon_step sv j ?s")
      case None
      then show ?thesis using a show_so_far_snoc by (auto simp: run)
    next
      case (Some s')
      from Some show ?thesis
      proof (cases rule: daemon_stepE)
        case (1 g sys l)
        show ?thesis
        proof (cases "j = i")
          case True
          then obtain a' where "conn_step sv c a (dm_sys ?s) (dm_limiter ?s) = Some (a', sys, l)" "g = Serve c a'"
            using 1(2) a(2) by (auto split: option.splits)
          then have "show_so_far sv s (js @ [j]) i c u a'" "dm_gos s' ! i = Serve c a'"
            using conn_step_show [OF _ a(2,3) assms(3)] a(1) 1(3) True by simp_all
          then show ?thesis using a(1) 1(3) Some by (auto simp: run)
        next
          case False
          then show ?thesis using a show_so_far_snoc 1(3) Some by (auto simp: run)
        qed
      qed
    qed
  qed
  from this [of "is"] show ?thesis using assms(4,5) by auto
qed

section \<open>The limiter\<close>

text \<open>A connection of the user that has come through the limiter\<close>

fun admitted :: "32 word \<Rightarrow> goroutine \<Rightarrow> bool" where
  "admitted u (Serve c a) \<longleftrightarrow>
     (case conn_cred c of
        None \<Rightarrow> False
      | Some cred \<Rightarrow> cred_uid cred = u \<and> conn_request c \<noteq> None \<and> a \<noteq> Arrived \<and> a \<noteq> Answered (error_response RateLimited))"
| "admitted u (Refresh ws k es) \<longleftrightarrow> False"

definition admitted_count :: "32 word \<Rightarrow> 'b daemon \<Rightarrow> nat" where
  "admitted_count u s = length (filter (admitted u) (dm_gos s))"

lemma error_response_inj: "error_response e = error_response e' \<longleftrightarrow> e = e'"
  by (metis option.inject response_sel(2))

lemma begin_not_limited:
  assumes "begin_dispatch sv cred req = Reply resp"
  shows "resp \<noteq> error_response RateLimited"
proof -
  have r: "ok_response\<lparr>resp_status := x\<rparr> \<noteq> error_response e" for x e
    by (simp add: ok_response_def error_response_def)
  have "e \<noteq> RateLimited" if "ResolveScope db t c = Inl e" for db t c e
    using that by (auto simp: ResolveScope_def lookup_uid_def split: if_splits sum.splits option.splits)
  moreover have "e \<noteq> RateLimited" if "normalize_and_validate u ds as = Inl e" for u ds as e
    using that by (auto simp: normalize_and_validate_def split: if_splits sum.splits)
  ultimately show ?thesis using assms r
    by (auto simp: begin_dispatch_def begin_table_def begin_mutate_def begin_show_def begin_status_def error_response_inj
        split: if_splits option.splits sum.splits)
qed

lemma ok_not_limited: "ok_response\<lparr>resp_views := v\<rparr> \<noteq> error_response e" "change_reply add t ds as nm r \<noteq> error_response RateLimited"
  by (simp_all add: ok_response_def error_response_def change_reply_def split: option.split)

lemma go_step_limiter:
  assumes "go_step sv g s l = Some (g', s', l')"
  obtains (other) "l' = l" "\<And>u. admitted u g' \<longleftrightarrow> admitted u g"
  | (checked) c and cred :: peer_cred and b where "g = Serve c Arrived" "allow (cred_uid cred) (conn_time c) l = (l', b)"
      "\<And>u. admitted u g' \<longleftrightarrow> b \<and> cred_uid cred = u"
proof (cases g)
  case (Serve c a)
  then obtain a' where step: "conn_step sv c a s l = Some (a', s', l')" "g' = Serve c a'"
    using assms by (auto split: option.splits)
  show ?thesis
  proof (cases a)
    case Arrived
    show ?thesis
    proof (cases "conn_cred c = None \<or> conn_request c = None")
      case True
      then show ?thesis using step Serve Arrived other by (auto split: option.splits)
    next
      case False
      then obtain cred req where c: "conn_cred c = Some cred" "conn_request c = Some req" by auto
      obtain l1 b where "allow (cred_uid cred) (conn_time c) l = (l1, b)" by (cases "allow (cred_uid cred) (conn_time c) l")
      then show ?thesis using step Serve Arrived c checked [of c cred b] by (cases b) auto
    qed
  next
    case (Dispatching cred req)
    have "a' \<noteq> Arrived \<and> a' \<noteq> Answered (error_response RateLimited)" "l' = l"
      using step begin_not_limited [of sv cred req] Dispatching by (cases "begin_dispatch sv cred req"; auto)+
    then show ?thesis using step(2) Serve Dispatching other by (auto split: option.splits)
  next
    case (Mutating k add t domains ips nm)
    then show ?thesis using step Serve other
      by (cases "done_phase (phase (procs s ! k))") (auto simp: waiting_steps ok_not_limited split: option.splits)
  next
    case (ShowUsers gl us vs)
    then show ?thesis using step Serve other
      by (cases us) (auto simp: ok_not_limited error_response_inj split: sum.splits option.splits)
  qed (use step Serve other in \<open>auto simp: ok_not_limited error_response_inj split: option.splits sum.splits\<close>)
next
  case (Refresh ws ko es)
  show ?thesis
  proof (cases "(sv, ws, ko, es, s)" rule: refresh_step.cases)
    case (3 sv' ws' k es' s0)
    then show ?thesis using assms Refresh other
      by (cases "done_phase (phase (procs s ! k))") (auto simp: waiting_steps split: option.splits)
  qed (use assms Refresh other in auto)
qed

lemma allow_all_snoc: "fst (allow_all (qs @ [(v, t)]) r) = fst (allow v t (fst (allow_all qs r)))"
  by (induction qs r rule: allow_all.induct) (auto split: prod.splits)

lemma passed_snoc:
  "passed u (qs @ [(v, t)]) r = passed u qs r + (if snd (allow v t (fst (allow_all qs r))) \<and> v = u then 1 else 0)"
  by (induction qs r rule: allow_all.induct) (auto split: prod.splits)

lemma length_filter_update:
  "i < length xs \<Longrightarrow> length (filter P (xs[i := x])) + (if P (xs ! i) then 1 else 0) = length (filter P xs) + (if P x then 1 else 0)"
proof (induction xs arbitrary: i)
  case (Cons y ys)
  then show ?case using Cons.IH [of "i - 1"] by (cases i) simp_all
qed simp

text \<open>The limiter has seen the connections in some order, and let as many through as were admitted.\<close>

definition limiter_saw :: "limiter \<Rightarrow> int \<Rightarrow> int \<Rightarrow> 'b daemon \<Rightarrow> bool" where
  "limiter_saw l t0 t1 s \<longleftrightarrow>
     (\<forall>c a. Serve c a \<in> set (dm_gos s) \<longrightarrow> t0 \<le> conn_time c \<and> conn_time c \<le> t1) \<and>
     (\<exists>qs. dm_limiter s = fst (allow_all qs l) \<and> (\<forall>u. admitted_count u s = passed u qs l) \<and>
        (\<forall>(v, t) \<in> set qs. t0 \<le> t \<and> t \<le> t1))"

lemma go_step_conn: "go_step sv g s l = Some (Serve c a, s', l') \<Longrightarrow> \<exists>a0. g = Serve c a0"
proof (cases g)
  case (Refresh ws ko es)
  assume step: "go_step sv g s l = Some (Serve c a, s', l')"
  show ?thesis
  proof (cases "(sv, ws, ko, es, s)" rule: refresh_step.cases)
    case (3 sv' ws' k es' s0)
    then show ?thesis using step Refresh
      by (cases "done_phase (phase (procs s ! k))") (auto simp: waiting_steps split: option.splits)
  qed (use step Refresh in auto)
qed (auto split: option.splits)

lemma step_limiter_saw:
  assumes "limiter_saw l t0 t1 s" "daemon_step sv i s = Some s'"
  shows "limiter_saw l t0 t1 s'"
  using assms(2)
proof (cases rule: daemon_stepE)
  case (1 g sys l')
  have in_gos: "dm_gos s ! i \<in> set (dm_gos s)" using 1(1) by simp
  have times: "t0 \<le> conn_time c \<and> conn_time c \<le> t1" if "Serve c a \<in> set (dm_gos s')" for c a
  proof -
    have "Serve c a \<in> insert g (set (dm_gos s))" using that set_update_subset_insert by (fastforce simp: 1(3))
    moreover have "\<exists>a0. Serve c a0 \<in> set (dm_gos s)" if "g = Serve c a"
      using go_step_conn 1(2) in_gos that by metis
    ultimately show ?thesis using assms(1) by (auto simp: limiter_saw_def)
  qed
  obtain qs where qs: "dm_limiter s = fst (allow_all qs l)" "\<And>u. admitted_count u s = passed u qs l"
    "\<forall>(v, t) \<in> set qs. t0 \<le> t \<and> t \<le> t1"
    using assms(1) by (auto simp: limiter_saw_def)
  note count = length_filter_update [OF 1(1), of "admitted u" g for u]
  from 1(2) show ?thesis
  proof (cases rule: go_step_limiter)
    case other
    then have "admitted_count u s' = passed u qs l" for u
      using count [of u] qs(2) [of u] by (simp add: admitted_count_def 1(3) split: if_splits)
    then show ?thesis unfolding limiter_saw_def
      using times qs(1,3) other(1) by (intro conjI exI [of _ qs]) (auto simp: 1(3))
  next
    case (checked c cred b)
    let ?q = "(cred_uid cred, conn_time c)"
    have "admitted_count u s' = passed u (qs @ [?q]) l" for u
      using count [of u] qs(2) [of u] checked(1,2) checked(3) [of u]
      by (auto simp: admitted_count_def 1(3) passed_snoc qs(1) [symmetric] split: option.splits if_splits)
    moreover have "dm_limiter s' = fst (allow_all (qs @ [?q]) l)"
      using checked(2) by (simp add: allow_all_snoc qs(1) [symmetric] 1(3))
    moreover have "t0 \<le> conn_time c \<and> conn_time c \<le> t1" using assms(1) in_gos checked(1) by (auto simp: limiter_saw_def)
    ultimately show ?thesis unfolding limiter_saw_def
      using times qs(3) by (intro conjI exI [of _ "qs @ [?q]"]) auto
  qed
qed

theorem admitted_bound:
  assumes "\<forall>c \<in> set cs. t0 \<le> conn_time c \<and> conn_time c \<le> t0 + rate_window cfg" "0 \<le> rate_window cfg" "1 \<le> rate_limit cfg"
    and "limiter_ok cfg (srv_limiter s0)" "run_daemon sv is (serving cs ws s0) = s"
  shows "admitted_count u s \<le> 2 * nat (rate_limit cfg)"
proof -
  let ?l = "srv_limiter s0" and ?t1 = "t0 + rate_window cfg"
  have w: "window ?l = rate_window cfg" "limit ?l = rate_limit cfg" using assms(4) by (simp_all add: limiter_ok_def)
  have "admitted_count v (serving cs ws s0) = 0" for v
    by (simp add: admitted_count_def serving_def filter_empty_conv split: option.split)
  then have "limiter_saw ?l t0 ?t1 (serving cs ws s0)"
    using assms(1) by (auto simp: limiter_saw_def serving_def intro!: exI [of _ "[]"])
  then have "limiter_saw ?l t0 ?t1 s"
    using run_daemon_keeps [where P = "limiter_saw ?l t0 ?t1"] step_limiter_saw assms(5) by blast
  then obtain qs where qs: "admitted_count u s = passed u qs ?l" "\<forall>(v, t) \<in> set qs. t0 \<le> t \<and> t \<le> ?t1"
    by (auto simp: limiter_saw_def)
  have "passed u qs ?l \<le> 2 * nat (limit ?l)"
  proof (rule limiter_bound)
    show "\<forall>wc. map_of (counts ?l) u = Some wc \<longrightarrow> 0 \<le> count wc" using assms(4) by (fastforce simp: limiter_ok_def)
  qed (use assms qs w in auto)
  then show ?thesis by (simp add: qs(1) w)
qed

section \<open>A connection on its own\<close>

text \<open>Scheduling goroutine \<open>i\<close> some number of times leads from one state to the other.\<close>

definition by_itself :: "'b service \<Rightarrow> nat \<Rightarrow> 'b daemon \<Rightarrow> 'b daemon \<Rightarrow> bool" where
  "by_itself sv i s s' \<longleftrightarrow> (\<exists>n. run_daemon sv (replicate n i) s = s')"

lemma by_itself_refl: "by_itself sv i s s"
  unfolding by_itself_def by (intro exI [of _ 0]) simp

lemma by_itself_trans: "by_itself sv i s s1 \<Longrightarrow> by_itself sv i s1 s2 \<Longrightarrow> by_itself sv i s s2"
  unfolding by_itself_def by (metis replicate_add run_daemon_append)

text \<open>Goroutine \<open>i\<close> is the connection \<open>c\<close>, at the given place.\<close>

definition conn_at :: "'b daemon \<Rightarrow> nat \<Rightarrow> conn \<Rightarrow> activity \<Rightarrow> 'b sys \<Rightarrow> limiter \<Rightarrow> 'b daemon" where
  "conn_at s i c a sys l = \<lparr>dm_sys = sys, dm_limiter = l, dm_gos = (dm_gos s)[i := Serve c a]\<rparr>"

lemma by_itself_step:
  assumes "i < length (dm_gos s)" "conn_step sv c a sys l = Some (a', sys', l')"
  shows "by_itself sv i (conn_at s i c a sys l) (conn_at s i c a' sys' l')"
proof -
  have "daemon_step sv i (conn_at s i c a sys l) = Some (conn_at s i c a' sys' l')"
    using assms by (simp add: daemon_step_def conn_at_def)
  then show ?thesis unfolding by_itself_def by (intro exI [of _ 1]) simp
qed

lemma rank_le: "ph \<noteq> Ready \<Longrightarrow> rank ph < 10"
  by (cases ph rule: rank.cases) simp_all

lemma replicate_stuck: "move cfg k s = None \<Longrightarrow> run_schedule cfg (replicate n k) s = s"
  by (induction n) simp_all

text \<open>A call that runs alone, seen from its goroutine: the counts are those of the first step.\<close>

lemma by_itself_calls:
  assumes "i < length (dm_gos s)" "done_phase (phase (procs (run_schedule (eng_cfg sv) (replicate n k) sys) ! k))"
  shows "by_itself sv i (conn_at s i c (Mutating k add t ds as nm) sys l)
      (conn_at s i c (Mutating k add t ds as
         (if phase (procs sys ! k) = Ready then job_counts (job_of (procs sys ! k)) (disk_of (eng_of sys)) else nm))
       (run_schedule (eng_cfg sv) (replicate n k) sys) l)"
  using assms(2)
proof (induction n arbitrary: sys nm)
  case 0
  then have "phase (procs sys ! k) \<noteq> Ready" by auto
  then show ?case by (simp add: by_itself_refl)
next
  case (Suc n)
  show ?case
  proof (cases "move (eng_cfg sv) k sys")
    case None
    then have same: "run_schedule (eng_cfg sv) (replicate (Suc n) k) sys = sys" using replicate_stuck by metis
    then have "phase (procs sys ! k) \<noteq> Ready" using Suc.prems by auto
    then show ?thesis by (simp only: same if_False by_itself_refl)
  next
    case (Some sys')
    let ?nm = "if phase (procs sys ! k) = Ready then job_counts (job_of (procs sys ! k)) (disk_of (eng_of sys)) else nm"
    have "\<not> done_phase (phase (procs sys ! k))" by (rule move_done [OF Some])
    then have step: "by_itself sv i (conn_at s i c (Mutating k add t ds as nm) sys l) (conn_at s i c (Mutating k add t ds as ?nm) sys' l)"
      by (intro by_itself_step [OF assms(1)]) (simp add: waiting_steps Some)
    have run: "run_schedule (eng_cfg sv) (replicate (Suc n) k) sys = run_schedule (eng_cfg sv) (replicate n k) sys'"
      using Some by simp
    have "phase (procs sys' ! k) \<noteq> Ready"
      using Some
    proof (cases rule: move_SomeE)
      case (1 p ph eng m)
      then have "(ph, phase p) \<in> closer" using turn_closer by blast
      then have "ph \<noteq> Ready" using rank_le [of "phase p"] by (cases "phase p = Ready") (auto simp: closer_def)
      then show ?thesis using 1 by simp
    qed
    then have "by_itself sv i (conn_at s i c (Mutating k add t ds as ?nm) sys' l)
        (conn_at s i c (Mutating k add t ds as ?nm) (run_schedule (eng_cfg sv) (replicate n k) sys') l)"
      using Suc.IH [of sys' ?nm] Suc.prems by (simp only: run if_False)
    from by_itself_trans [OF step this] show ?thesis by (simp only: run)
  qed
qed

text \<open>The dispatcher of \<open>Handlers\<close>, in terms of what a goroutine does\<close>

lemma change_counts:
  assumes "change_entries cfg (call_io (conn_call c)) (call_world (conn_call c)) t (if add then add_fn ds as else remove_fn ds as) eng = (eng', n, m, r)"
  shows "job_counts (change_job c add t ds as) (disk_of eng) = (n, m)"
    "run_request cfg (change_job c add t ds as) eng = (eng', r)"
  using assms
  by (auto simp: change_job_def change_entries_def add_entries_def remove_entries_def split: prod.splits sum.splits if_splits)

definition finish :: "'b service \<Rightarrow> conn \<Rightarrow> begin_result \<Rightarrow> 'b engine \<Rightarrow> 'b engine \<times> response" where
  "finish sv c b eng =
     (case b of
        Reply resp \<Rightarrow> (eng, resp)
      | Change add t ds as \<Rightarrow>
          (case change_entries (eng_cfg sv) (call_io (conn_call c)) (call_world (conn_call c)) t
             (if add then add_fn ds as else remove_fn ds as) eng of
             (eng', n, m, r) \<Rightarrow> (eng', change_reply add t ds as (n, m) r))
      | ShowRoot \<Rightarrow> (eng, show_as_root (user_names sv) (call_io (conn_call c)) (disk_of eng))
      | ShowUser u \<Rightarrow> (eng, show_as_user (call_io (conn_call c)) (disk_of eng) u))"

lemma mutate_finish:
  "mutate_handle add sv (conn_call c) cred req eng = finish sv c (begin_mutate add sv cred req) eng"
  by (auto simp: mutate_handle_def begin_mutate_def finish_def change_reply_def add_entries_def remove_entries_def
      split: sum.splits prod.splits option.splits)

lemma dispatch_finish:
  "dispatch handler_table sv (conn_call c) cred req eng = finish sv c (begin_dispatch sv cred req) eng"
proof -
  have "show_handle sv (conn_call c) cred req eng = finish sv c (begin_show sv cred req) eng"
    "status_handle sv (conn_call c) cred req eng = finish sv c (begin_status sv cred req) eng"
    by (simp_all add: show_handle_def begin_show_def status_handle_def begin_status_def finish_def)
  then show ?thesis
    by (auto simp: dispatch_def begin_dispatch_def handler_table_def begin_table_def mutate_finish)
      (simp_all add: finish_def)
qed

lemma shows_users_alone:
  assumes "i < length (dm_gos s)"
  shows "by_itself sv i (conn_at s i c (ShowUsers g us vs) sys l)
    (conn_at s i c (Answered
      (case user_views (user_names sv) (call_io (conn_call c)) (disk_of (eng_of sys)) us of
         Inl e \<Rightarrow> error_response ApplyFailed
       | Inr vs' \<Rightarrow> ok_response\<lparr>resp_views := global_view g # vs @ vs'\<rparr>)) sys l)"
proof (induction us arbitrary: vs)
  case Nil
  show ?case by (rule by_itself_step [OF assms]) simp
next
  case (Cons u us)
  show ?case
  proof (cases "load_locked (call_io (conn_call c)) (disk_of (eng_of sys)) (UserScope u)")
    case (Inl e)
    then show ?thesis using by_itself_step [OF assms, of sv c "ShowUsers g (u # us) vs" sys l] by simp
  next
    case (Inr bl)
    have step: "by_itself sv i (conn_at s i c (ShowUsers g (u # us) vs) sys l)
        (conn_at s i c (ShowUsers g us (vs @ [user_view (user_names sv) u bl])) sys l)"
      by (rule by_itself_step [OF assms]) (simp add: Inr)
    from by_itself_trans [OF step Cons.IH] show ?thesis
      by (simp add: Inr user_view_def split: sum.splits)
  qed
qed

lemma shows_alone:
  assumes "i < length (dm_gos s)"
  shows "by_itself sv i (conn_at s i c ShowGlobal sys l)
      (conn_at s i c (Answered (show_as_root (user_names sv) (call_io (conn_call c)) (disk_of (eng_of sys)))) sys l)"
    and "by_itself sv i (conn_at s i c (ShowOwn u) sys l)
      (conn_at s i c (Answered (show_as_user (call_io (conn_call c)) (disk_of (eng_of sys)) u)) sys l)"
proof -
  let ?io = "call_io (conn_call c)" and ?d = "disk_of (eng_of sys)"
  note step = by_itself_step [OF assms, of sv c]
  show "by_itself sv i (conn_at s i c ShowGlobal sys l)
      (conn_at s i c (Answered (show_as_root (user_names sv) ?io ?d)) sys l)"
  proof (cases "load_locked ?io ?d GlobalScope")
    case (Inl e)
    then show ?thesis using step [of ShowGlobal sys l] by (simp add: show_as_root_def)
  next
    case g: (Inr g)
    have 1: "by_itself sv i (conn_at s i c ShowGlobal sys l) (conn_at s i c (ShowUids g) sys l)"
      by (rule step) (simp add: g)
    show ?thesis
    proof (cases "list_user_uids ?io ?d")
      case (Inl e)
      then have "by_itself sv i (conn_at s i c (ShowUids g) sys l) (conn_at s i c (Answered (error_response ApplyFailed)) sys l)"
        by (intro step) simp
      from by_itself_trans [OF 1 this] show ?thesis by (simp add: show_as_root_def g Inl)
    next
      case (Inr us)
      then have "by_itself sv i (conn_at s i c (ShowUids g) sys l) (conn_at s i c (ShowUsers g us []) sys l)"
        by (intro step) simp
      from by_itself_trans [OF by_itself_trans [OF 1 this] shows_users_alone [OF assms]] show ?thesis
        by (simp add: show_as_root_def g Inr global_view_def cong: sum.case_cong)
    qed
  qed
  show "by_itself sv i (conn_at s i c (ShowOwn u) sys l) (conn_at s i c (Answered (show_as_user ?io ?d u)) sys l)"
  proof (cases "load_locked ?io ?d (UserScope u)")
    case (Inl e)
    then show ?thesis using step [of "ShowOwn u" sys l] by (simp add: show_as_user_def)
  next
    case (Inr own)
    then have "by_itself sv i (conn_at s i c (ShowOwn u) sys l) (conn_at s i c (ShowOwnGlobal own) sys l)"
      by (intro step) simp
    moreover have "by_itself sv i (conn_at s i c (ShowOwnGlobal own) sys l)
        (conn_at s i c (Answered (show_as_user ?io ?d u)) sys l)"
      by (rule step) (simp add: show_as_user_def Inr own_views_def split: sum.split)
    ultimately show ?thesis by (rule by_itself_trans)
  qed
qed

lemma changes_alone:
  assumes "i < length (dm_gos s)" "mu sys = None"
    and "finish sv c (Change add t ds as) (eng_of sys) = (eng', resp)"
  shows "\<exists>sys'. by_itself sv i (conn_at s i c (Mutating (length (procs sys)) add t ds as (0, 0)) (spawn (change_job c add t ds as) sys) l)
      (conn_at s i c (Answered resp) sys' l) \<and> eng_of sys' = eng' \<and> mu sys' = None"
proof -
  let ?q = "change_job c add t ds as" and ?k = "length (procs sys)"
  let ?s1 = "spawn ?q sys"
  obtain n m r where c: "change_entries (eng_cfg sv) (call_io (conn_call c)) (call_world (conn_call c)) t
      (if add then add_fn ds as else remove_fn ds as) (eng_of sys) = (eng', n, m, r)"
    and resp: "resp = change_reply add t ds as (n, m) r"
    using assms(3) by (auto simp: finish_def split: prod.splits)
  note counts = change_counts [OF c]
  have "ends_as (eng_cfg sv) ?k ?s1 ?s1 (eng', r)"
    using alone_is_sequential [of ?k ?s1 "eng_cfg sv"] assms(2) counts(2) by simp
  then obtain ph j where ph: "run_schedule (eng_cfg sv) (replicate j ?k) ?s1 = placed ?s1 ?k ph eng' None"
    "done_phase ph" "result_of ph = r"
    by (auto simp: ends_as_def alone_def)
  let ?s2 = "placed ?s1 ?k ph eng' None"
  have at: "phase (procs ?s2 ! ?k) = ph" by (simp add: placed_def)
  have run: "by_itself sv i (conn_at s i c (Mutating ?k add t ds as (0, 0)) ?s1 l) (conn_at s i c (Mutating ?k add t ds as (n, m)) ?s2 l)"
    using by_itself_calls [OF assms(1), of sv j ?k ?s1 c add t ds as "(0, 0)" l] ph(2) at
    by (simp add: ph(1) counts(1))
  have "by_itself sv i (conn_at s i c (Mutating ?k add t ds as (n, m)) ?s2 l) (conn_at s i c (Answered resp) ?s2 l)"
    by (rule by_itself_step [OF assms(1)]) (simp add: waiting_steps at ph(2,3) resp)
  from by_itself_trans [OF run this] show ?thesis by (intro exI [of _ ?s2]) (simp add: placed_def)
qed

theorem alone_is_served:
  assumes "i < length (dm_gos s)" "dm_gos s ! i = Serve c Arrived" "mu (dm_sys s) = None"
    and "serve handler_table sv c \<lparr>srv_limiter = dm_limiter s, srv_engine = eng_of (dm_sys s)\<rparr> = (s', resp)"
  shows "\<exists>sys. by_itself sv i s (conn_at s i c (Answered resp) sys (srv_limiter s')) \<and>
    eng_of sys = srv_engine s' \<and> mu sys = None"
proof -
  let ?sys = "dm_sys s" and ?l = "dm_limiter s"
  have start: "conn_at s i c Arrived ?sys ?l = s" using assms(1,2) by (cases s) (simp add: conn_at_def list_update_same_conv)
  note step = by_itself_step [OF assms(1), of sv c]
  have quick: "?thesis" if "conn_step sv c Arrived ?sys ?l = Some (Answered resp, ?sys, srv_limiter s')" "srv_engine s' = eng_of ?sys"
    using step [OF that(1)] that(2) assms(3) start by auto
  show ?thesis
  proof (cases "conn_cred c = None \<or> conn_request c = None")
    case True
    then show ?thesis using assms(4) quick by (auto simp: serve_def split: option.splits)
  next
    case False
    then obtain cred req where c: "conn_cred c = Some cred" "conn_request c = Some req" by auto
    obtain l b where a: "allow (cred_uid cred) (conn_time c) ?l = (l, b)" by (cases "allow (cred_uid cred) (conn_time c) ?l")
    show ?thesis
    proof (cases b)
      case False
      then show ?thesis using assms(4) quick c a by (auto simp: serve_def)
    next
      case True
      have first: "by_itself sv i s (conn_at s i c (Dispatching cred req) ?sys l)"
        using step [of Arrived ?sys ?l "Dispatching cred req" ?sys l] c a True start by simp
      obtain eng where f: "finish sv c (begin_dispatch sv cred req) (eng_of ?sys) = (eng, resp)"
        and s': "srv_limiter s' = l" "srv_engine s' = eng"
        using assms(4) c a True by (auto simp: serve_def dispatch_finish split: prod.splits)
      have "\<exists>sys. by_itself sv i (conn_at s i c (Dispatching cred req) ?sys l) (conn_at s i c (Answered resp) sys l) \<and>
        eng_of sys = eng \<and> mu sys = None"
      proof (cases "begin_dispatch sv cred req")
        case (Reply r)
        then show ?thesis using f assms(3) step [of "Dispatching cred req" ?sys l]
          by (intro exI [of _ ?sys]) (simp add: finish_def)
      next
        case (Change add t ds as)
        have "by_itself sv i (conn_at s i c (Dispatching cred req) ?sys l)
            (conn_at s i c (Mutating (length (procs ?sys)) add t ds as (0, 0)) (spawn (change_job c add t ds as) ?sys) l)"
          by (rule step) (simp add: Change)
        then show ?thesis
          using changes_alone [OF assms(1,3) f [unfolded Change]] by_itself_trans by blast
      next
        case ShowRoot
        have "by_itself sv i (conn_at s i c (Dispatching cred req) ?sys l) (conn_at s i c ShowGlobal ?sys l)"
          by (rule step) (simp add: ShowRoot)
        then have "by_itself sv i (conn_at s i c (Dispatching cred req) ?sys l) (conn_at s i c (Answered resp) ?sys l)"
          using by_itself_trans [OF _ shows_alone(1) [OF assms(1)]] f by (auto simp: finish_def ShowRoot)
        then show ?thesis using f assms(3) by (auto simp: finish_def ShowRoot)
      next
        case (ShowUser u)
        have "by_itself sv i (conn_at s i c (Dispatching cred req) ?sys l) (conn_at s i c (ShowOwn u) ?sys l)"
          by (rule step) (simp add: ShowUser)
        then have "by_itself sv i (conn_at s i c (Dispatching cred req) ?sys l) (conn_at s i c (Answered resp) ?sys l)"
          using by_itself_trans [OF _ shows_alone(2) [OF assms(1)]] f by (auto simp: finish_def ShowUser)
        then show ?thesis using f assms(3) by (auto simp: finish_def ShowUser)
      qed
      then obtain sys where "by_itself sv i (conn_at s i c (Dispatching cred req) ?sys l) (conn_at s i c (Answered resp) sys l)"
        "eng_of sys = eng" "mu sys = None" by blast
      then show ?thesis using by_itself_trans [OF first] s' by (intro exI [of _ sys]) simp
    qed
  qed
qed

end
