(* ===== verification/Examples.thy ===== *)
theory Examples
  imports Daemon_Drift Daemon_Log Store_Bytes Concurrent_Acks Concurrent_Answers
begin

text \<open>
  Concrete data on which the theorems of the root theory are applied: an empty store, a
  firewall that does what it is told, a normal user and an administrator, and their requests.
\<close>

definition empty_disk :: disk where
  "empty_disk = \<lparr>base = [], users = Some []\<rparr>"

text \<open>The name service knows two names.\<close>

definition ex_answers :: "string \<Rightarrow> string + resolved" where
  "ex_answers d =
     (if d = ''ads.example.net'' then Inr \<lparr>RV4 = [''192.0.2.1''], RV6 = [''2001:db8::1'']\<rparr>
      else if d = ''t.example.org'' then Inr \<lparr>RV4 = [''192.0.2.7''], RV6 = []\<rparr>
      else Inl ''no such host'')"

definition ex_world :: world where
  "ex_world = \<lparr>io_first = no_faults, io_second = no_faults, now_first = 5, now_second = 6, answers = ex_answers\<rparr>"

definition ex_call :: call where
  "ex_call = \<lparr>call_io = no_faults, call_world = ex_world\<rparr>"

definition alice :: peer_cred where
  "alice = \<lparr>cred_uid = 1000, cred_gid = 1000, cred_pid = 17\<rparr>"

definition admin :: peer_cred where
  "admin = \<lparr>cred_uid = 0, cred_gid = 0, cred_pid = 18\<rparr>"

definition no_users :: user_db where
  "no_users = \<lparr>by_name = (\<lambda>_. None), by_id = (\<lambda>_. None)\<rparr>"

text \<open>
  The recording backend of the integration test (\<open>fakeBackend\<close> in
  \<open>integration_linux_test.go\<close>): it keeps the last state and never fails.
\<close>

definition fake_apply :: "fw_state \<Rightarrow> fw_state \<Rightarrow> fw_state \<times> backend_error option" where
  "fake_apply b st = (st, None)"

definition fake_cfg :: "fw_state engine_cfg" where
  "fake_cfg = \<lparr>be_apply = fake_apply, map_order = (\<lambda>xs. xs), concurrency = 4, ttl = minute\<rparr>"

interpretation fake: engine_parts fake_cfg blocked "\<lambda>_. True"
  by unfold_locales (auto simp: fake_cfg_def fake_apply_def)

definition ex_service :: "fw_state service" where
  "ex_service =
     \<lparr>eng_cfg = fake_cfg, eng_backend_name = ''fake'', user_names = no_users, unicode_lower = id\<rparr>"

definition fake_ops :: "fw_state backend_ops" where
  "fake_ops = \<lparr>op_name = ''fake'', op_apply = fake_apply, op_teardown = (\<lambda>b. (b, None))\<rparr>"

interpretation fake_daemon: engine_parts "daemon_cfg fake_ops id default_config" blocked "\<lambda>_. True"
  by unfold_locales (auto simp: fake_ops_def fake_apply_def)

definition no_state :: fw_state where
  "no_state = \<lparr>GlobalSet = empty_ipset, PerUser = []\<rparr>"

definition ex_engine :: "fw_state engine" where
  "ex_engine = \<lparr>disk_of = empty_disk, be_state = no_state, cache = [], log = []\<rparr>"

definition add_request :: request where
  "add_request =
     \<lparr>req_version = 1, req_action = ''add'', req_domains = [''ads.example.net''], req_ips = [''10.0.0.5''],
      target_user = []\<rparr>"

definition ex_conn :: "peer_cred \<Rightarrow> request \<Rightarrow> conn" where
  "ex_conn cred req = \<lparr>conn_cred = Some cred, conn_request = Some req, conn_time = 0, conn_call = ex_call\<rparr>"

text \<open>A run of the client by the user \<open>alice\<close>\<close>

definition ex_args :: "string list" where
  "ex_args = [''--add'', ''--name=https://ads.example.net/x'', ''--ip'', ''10.0.0.5'']"

definition ex_options :: options where
  "ex_options =
     \<lparr>opt_add = True, opt_remove = False, opt_show = False, opt_status = False, json_out = False, opt_name = ''https://ads.example.net/x'',
      opt_ip = ''10.0.0.5'', opt_user = [], opt_socket = socket_path\<rparr>"

definition alice_conn :: conn where
  "alice_conn = ex_conn alice add_request\<lparr>conn_request := None\<rparr>"

lemma alice_conn_cred: "conn_cred alice_conn = Some alice"
  by (simp add: alice_conn_def ex_conn_def)

lemma ex_args_parsed: "parse_args ex_args = Parsed ex_options"
  by code_simp

lemma ex_session_ok:
  "exit_code (client_main id (send (daemon_socket ex_service (\<lambda>_. True) alice_conn (new_server default_config ex_engine))) ex_args) = 0"
proof -
  let ?s = "new_server default_config ex_engine"
  let ?r = "serve handler_table ex_service (alice_conn\<lparr>conn_request := Some (fix_request add_request)\<rparr>) ?s"
  have b: "build_request id ex_options = Inr add_request" by code_simp
  have ok: "resp_ok (snd ?r)" by code_simp
  have "go_int (req_version add_request)" by (simp add: add_request_def go_int_def)
  from ask_daemon(1) [OF this, of ex_service alice_conn ?s "fst ?r" "snd ?r"]
  have "send (daemon_socket ex_service (\<lambda>_. True) alice_conn ?s) socket add_request
      = Some (fix_reply (reply_of (\<lambda>_. True) (snd ?r)))" for socket by simp
  then show ?thesis using ok b by (simp add: client_main_def ex_args_parsed exit_code_def fixed_reply_ok)
qed

lemma ex_world_ok: "world_ok ex_world"
proof -
  have "wf_resolved \<lparr>RV4 = [''192.0.2.1''], RV6 = [''2001:db8::1'']\<rparr>" by code_simp
  moreover have "wf_resolved \<lparr>RV4 = [''192.0.2.7''], RV6 = []\<rparr>" by code_simp
  ultimately show ?thesis by (auto simp: world_ok_def ex_world_def ex_answers_def)
qed

lemma ex_call_ok: "call_ok ex_call"
  using ex_world_ok by (simp add: call_ok_def ex_call_def temp_digits_def no_faults_def is_digit_def)

text \<open>A life of the daemon: a request, a tick of the refresh loop, and a signal\<close>

definition sound_io :: listen_io where
  "sound_io = \<lparr>remove_fails = False, listen_fails = False, chmod_fails = False\<rparr>"

definition ex_life :: "event list" where
  "ex_life = [Connection (ex_conn alice add_request), RefreshTick ex_world, Cancelled]"

lemma ex_life_ok: "\<forall>e \<in> set ex_life. event_ok ex_service e"
proof -
  have "request_in_range ex_service alice add_request"
    by (rule user_in_range) (simp add: IsRoot_def alice_def)
  then show ?thesis using ex_call_ok ex_world_ok by (simp add: ex_life_def conn_ok_def ex_conn_def)
qed

lemma disk_get_empty: "disk_get empty_disk pn = None"
  by (cases "fst pn") (simp_all add: disk_get_def empty_disk_def place_dir_def)

lemma content_empty_disk: "content empty_disk s = Some empty_blocklist"
  by (simp add: content_def disk_get_empty)

lemma wf_empty_disk: "wf_disk empty_disk"
  by (auto simp: wf_disk_def content_empty_disk wf_users_def) (simp_all add: empty_disk_def)

lemma empty_disk_uids: "disk_uids_ok empty_disk"
  by (simp add: disk_uids_ok_def user_list_def content_empty_disk)

lemma ex_engine_inv: "engine_inv (\<lambda>_. True) ex_engine"
  by (simp add: engine_inv_def ex_engine_def wf_empty_disk empty_disk_uids wf_cache_def)

text \<open>A disk with a global list of one domain\<close>

definition ex_list :: blocklist where
  "ex_list = \<lparr>Domains = [''ads.example.net''], IPs = []\<rparr>"

definition listed_disk :: disk where
  "listed_disk = fst (mutate no_faults empty_disk GlobalScope (add_fn [''ads.example.net''] []))"

lemma wf_listed_disk: "wf_disk listed_disk" and listed_disk_uids: "disk_uids_ok listed_disk"
proof -
  obtain d q where m: "mutate no_faults empty_disk GlobalScope (add_fn [''ads.example.net''] []) = (d, q)"
    by (cases "mutate no_faults empty_disk GlobalScope (add_fn [''ads.example.net''] [])")
  have "wf_disk d \<and> disk_uids_ok d"
    using fake.mutate_disk_inv [OF m wf_empty_disk empty_disk_uids]
    by (simp add: scope_ok_def temp_digits_def no_faults_def is_digit_def)
  then show "wf_disk listed_disk" "disk_uids_ok listed_disk" by (simp_all add: listed_disk_def m)
qed

definition listed_engine :: "fw_state engine" where
  "listed_engine = \<lparr>disk_of = listed_disk, be_state = no_state, cache = [], log = []\<rparr>"

text \<open>The same disk after the domain was resolved, and a name service that does not answer\<close>

definition cached_engine :: "fw_state engine" where
  "cached_engine = listed_engine\<lparr>cache := [(''ads.example.net'',
     \<lparr>res = \<lparr>RV4 = [''192.0.2.1''], RV6 = [''2001:db8::1'']\<rparr>, expires = 0\<rparr>)]\<rparr>"

definition down_world :: world where
  "down_world = ex_world\<lparr>answers := (\<lambda>d. Inl ''timeout'')\<rparr>"

lemma cached_engine_inv: "engine_inv (\<lambda>_. True) cached_engine"
proof -
  have "wf_resolved \<lparr>RV4 = [''192.0.2.1''], RV6 = [''2001:db8::1'']\<rparr>" by code_simp
  then show ?thesis
    using wf_listed_disk listed_disk_uids by (simp add: engine_inv_def cached_engine_def listed_engine_def wf_cache_def)
qed

text \<open>A firewall state with addresses for everyone and for one user\<close>

definition ex_state :: fw_state where
  "ex_state =
     \<lparr>GlobalSet = \<lparr>V4 = [''10.0.0.5''], V6 = [''2001:db8::1'']\<rparr>,
      PerUser = [(1000, \<lparr>V4 = [''192.0.2.7''], V6 = []\<rparr>)]\<rparr>"

lemma wf_ex_state: "wf_state ex_state"
  by (simp add: wf_state_def ex_state_def) code_simp

lemma wf_no_state: "wf_state no_state"
  by (simp add: wf_state_def no_state_def)

definition no_view :: ipt_view where
  "no_view = \<lparr>ipsets = (\<lambda>_. None), chain = (\<lambda>_. None), jumps = (\<lambda>_. 0)\<rparr>"

text \<open>The machine on which every command of the iptables backend works\<close>

abbreviation good_ipt :: "ipt_view tool" where
  "good_ipt \<equiv> ipt_reference (\<lambda>prog args inp. False)"

text \<open>Listing sets, for a machine on which only sets of the given names can exist\<close>

definition list_reference :: "string list \<Rightarrow> ipt_view \<Rightarrow> string option" where
  "list_reference names w =
     (if list_all clean_name names \<and> {n. ipsets w n \<noteq> None} \<subseteq> set names
      then Some (name_lines (filter (\<lambda>n. ipsets w n \<noteq> None) names)) else None)"

lemma list_reference_doc: "list_doc (list_reference names) (\<lambda>w. w)"
proof -
  have "set (filter (\<lambda>n. ipsets w n \<noteq> None) names) = dom (ipsets w) \<and>
      list_all clean_name (filter (\<lambda>n. ipsets w n \<noteq> None) names)"
    if "list_all clean_name names" "{n. ipsets w n \<noteq> None} \<subseteq> set names" for w
    using that by (auto simp: list_all_iff)
  then show ?thesis unfolding list_doc_def list_reference_def by (metis option.distinct(1) option.inject)
qed

text \<open>
  Two ways in which the \<open>iptables\<close> backend falls short of what the interface documents. When the second
  \<open>iptables-restore\<close> fails, the new rules are in force for one family only, and the caller is told that nothing was
  applied. And when no command of \<open>Teardown\<close> works, it reports success all the same.
\<close>

lemma iptables_apply_can_be_torn:
  "let tool = ipt_reference (\<lambda>prog args inp. prog = ''ip6tables-restore'');
       st = \<lparr>GlobalSet = \<lparr>V4 = [''10.0.0.5''], V6 = [''2001:db8::1'']\<rparr>, PerUser = []\<rparr>;
       (b, r) = ipt_apply tool (None, no_view) st
   in r = Some IptablesFailed \<and>
      ipt_verdict (snd b) \<lparr>skuid = 7, is_v6 = False, daddr = ''10.0.0.5''\<rparr> \<and>
      \<not> ipt_verdict (snd b) \<lparr>skuid = 7, is_v6 = True, daddr = ''2001:db8::1''\<rparr> \<and>
      \<not> ipt_verdict no_view \<lparr>skuid = 7, is_v6 = False, daddr = ''10.0.0.5''\<rparr>"
  by code_simp

lemma iptables_apply_not_atomic:
  "\<exists>tool. ipt_kernel tool (\<lambda>w. w) \<and>
     (\<forall>teardown. \<not> whole_backend (ipt_apply tool) (\<lambda>b. ipt_verdict (snd b)) (ipt_inv (\<lambda>w. w)) teardown)"
proof (intro exI conjI allI notI)
  let ?tool = "ipt_reference (\<lambda>prog args inp. prog = ''ip6tables-restore'')"
  let ?st = "\<lparr>GlobalSet = \<lparr>V4 = [''10.0.0.5''], V6 = [''2001:db8::1'']\<rparr>, PerUser = []\<rparr>"
    and ?p = "\<lparr>skuid = 7, is_v6 = False, daddr = ''10.0.0.5''\<rparr>"
  show "ipt_kernel ?tool (\<lambda>w. w)" by (rule ipt_ref.ipt_kernel_axioms)
  fix teardown
  assume whole: "whole_backend (ipt_apply ?tool) (\<lambda>b. ipt_verdict (snd b)) (ipt_inv (\<lambda>w. w)) teardown"
  obtain b r where a: "ipt_apply ?tool (None, no_view) ?st = (b, r)" by (cases "ipt_apply ?tool (None, no_view) ?st")
  have t: "r = Some IptablesFailed" "ipt_verdict (snd b) ?p" "\<not> ipt_verdict no_view ?p"
    using iptables_apply_can_be_torn a by (simp_all add: Let_def)
  have "wf_state ?st" by code_simp
  then have "ipt_verdict (snd b) ?p \<longleftrightarrow> ipt_verdict (snd (None, no_view)) ?p"
    using whole_backend.apply_retains [OF whole _ _ a [unfolded t(1)]] by (simp add: ipt_inv_def)
  then show False using t by simp
qed

definition blocking_view :: ipt_view where
  "blocking_view =
     \<lparr>ipsets = [set_name family4 ''g'' \<mapsto> (default_kind False, {''10.0.0.5''})],
      chain = (\<lambda>v. if v then None else Some [SetDrop (set_name family4 ''g'')]), jumps = (\<lambda>v. if v then 0 else 1)\<rparr>"

definition foreign_view :: ipt_view where
  "foreign_view = blocking_view\<lparr>ipsets := (ipsets blocking_view)(''mine'' \<mapsto> (default_kind False, {''10.9.9.9''}))\<rparr>"

lemma blocking_view_blocks: "ipt_verdict blocking_view \<lparr>skuid = 7, is_v6 = False, daddr = ''10.0.0.5''\<rparr>"
  by code_simp

lemma iptables_teardown_is_silent:
  "ipt_teardown (ipt_reference (\<lambda>prog args inp. True)) (list_reference [set_name family4 ''g'']) (None, blocking_view) =
     ((None, blocking_view), None)"
proof -
  have run: "ipt_reference (\<lambda>prog args inp. True) prog args inp w = (w, False)" for prog args inp w
    by (simp add: ipt_reference_def)
  have "destroy_sets (ipt_reference (\<lambda>prog args inp. True)) ns w = w" for ns w by (induction ns) (simp_all add: run)
  moreover have "clean_name (set_name family4 ''g'')" by code_simp
  then have "list_reference [set_name family4 ''g''] blocking_view = Some (name_lines [set_name family4 ''g''])"
    by (simp add: list_reference_def blocking_view_def)
  then have "list_ipsets (list_reference [set_name family4 ''g'']) blocking_view = Some [set_name family4 ''g'']"
    using \<open>clean_name (set_name family4 ''g'')\<close> by (intro list_ipsets_lines) simp_all
  ultimately show ?thesis by (simp add: ipt_teardown_def Let_def drop_chain_def run)
qed

lemma iptables_teardown_not_reported:
  "\<exists>tool list_out w p. ipt_kernel tool (\<lambda>w. w) \<and> list_doc list_out (\<lambda>w. w) \<and> ipt_verdict w p \<and>
     ipt_teardown tool list_out (None, w) = ((None, w), None)"
  using ipt_ref.ipt_kernel_axioms list_reference_doc blocking_view_blocks iptables_teardown_is_silent by blast

section \<open>Two requests at the same time\<close>

text \<open>
  Root adds an address for everyone while a user adds another. Root's mutation falls between
  the loads of the user's process, which applies what it read and so misses the new address; root's process then applies both.
\<close>

definition ex_jobs :: "job list" where
  "ex_jobs =
     [(no_faults, ex_world, AddReq (UserScope 1000) [] [''192.0.2.9'']),
      (no_faults, ex_world, AddReq GlobalScope [] [''10.0.0.5''])]"

definition ex_schedule :: "nat list" where
  "ex_schedule = [0, 0, 0, 1, 0, 0, 0, 1, 1, 1, 1, 1]"

lemma ex_jobs_ok: "\<forall>q \<in> set ex_jobs. request_ok q"
  using ex_world_ok by (simp add: ex_jobs_def scope_ok_def kernel_uid_def temp_digits_def no_faults_def is_digit_def)

lemma ex_start_right: "blocked (be_state ex_engine) x \<longleftrightarrow> desired (disk_of ex_engine) (cache ex_engine) x"
  by (simp add: ex_engine_def no_state_def blocked_def family_of_def empty_ipset_def ipset_at_def desired_def
      global_list_def user_list_def content_empty_disk)

section \<open>A daemon at work\<close>

text \<open>
  A user adds an address to its list, root adds one for everyone, the user asks for its lists, and
  the refresh loop has one tick: each in its goroutine, taking turns.
\<close>

definition ip_request :: "string \<Rightarrow> string \<Rightarrow> request" where
  "ip_request target ip =
     \<lparr>req_version = 1, req_action = ''add'', req_domains = [], req_ips = [ip], target_user = target\<rparr>"

definition show_request :: request where
  "show_request = (ip_request [] [])\<lparr>req_action := ''show'', req_ips := []\<rparr>"

definition busy_conns :: "conn list" where
  "busy_conns =
     [ex_conn alice (ip_request [] ''192.0.2.9''), ex_conn admin (ip_request ''global'' ''10.0.0.5''),
      ex_conn alice show_request]"

definition busy_start :: "fw_state daemon" where
  "busy_start = serving busy_conns [ex_world] (new_server default_config ex_engine)"

definition busy_turns :: "nat list" where
  "busy_turns = concat (replicate 13 [1, 2, 3]) @ replicate 10 0"

definition busy_end :: "fw_state daemon" where
  "busy_end = run_daemon ex_service busy_turns busy_start"

text \<open>All is well at the end: nothing failed, and the connections 1 to 3 were answered with success.\<close>

definition answered_ok :: "goroutine \<Rightarrow> bool" where
  "answered_ok g = (case g of Serve c (Answered resp) \<Rightarrow> resp_ok resp | _ \<Rightarrow> False)"

definition went_well :: "fw_state daemon \<Rightarrow> bool" where
  "went_well s \<longleftrightarrow> daemon_done s \<and> no_complaint s \<and> \<not> some_failed (dm_sys s) \<and>
     list_all answered_ok (tl (dm_gos s))"

lemma busy_went_well: "went_well busy_end"
  by code_simp

lemma busy_conns_ok: "\<forall>c \<in> set busy_conns. conn_ok ex_service c"
proof -
  have "request_in_range ex_service alice r" for r by (rule user_in_range) (simp add: IsRoot_def alice_def)
  moreover have "request_in_range ex_service admin (ip_request ''global'' ''10.0.0.5'')"
    by (simp add: request_in_range_def ResolveScope_def IsRoot_def admin_def ip_request_def scope_ok_def)
  ultimately show ?thesis using ex_call_ok by (simp add: busy_conns_def conn_ok_def ex_conn_def)
qed

lemma ex_service_cfg: "eng_cfg ex_service = fake_cfg"
  by (simp add: ex_service_def)

lemma busy_run:
  "run_daemon ex_service busy_turns (serving busy_conns [ex_world] (new_server default_config ex_engine)) = busy_end"
  by (simp add: busy_end_def busy_start_def)

lemma answered_ok_Serve: "answered_ok (Serve c a) \<Longrightarrow> \<exists>resp. a = Answered resp \<and> resp_ok resp"
  by (cases a) (simp_all add: answered_ok_def)

lemma busy_answer:
  assumes "j < length busy_conns"
  obtains resp where "dm_gos busy_end ! Suc j = Serve (busy_conns ! j) (Answered resp)" "resp_ok resp"
proof -
  obtain a where a: "dm_gos busy_end ! Suc j = Serve (busy_conns ! j) a" "Suc j < length (dm_gos busy_end)"
    using run_daemon_conn [OF serving_conn [OF assms], of ex_service busy_turns "[ex_world]"] busy_run by metis
  have "j < length (tl (dm_gos busy_end))" "tl (dm_gos busy_end) ! j = Serve (busy_conns ! j) a"
    using a by (simp_all add: nth_tl)
  then have "answered_ok (Serve (busy_conns ! j) a)"
    using busy_went_well unfolding went_well_def list_all_length by metis
  then show ?thesis using answered_ok_Serve a that by blast
qed

lemma busy_no_removal: "c \<in> set busy_conns \<Longrightarrow> \<not> asks ex_service c (Change False t ds as)"
  by (auto simp: busy_conns_def asks_def ex_conn_def begin_dispatch_def begin_table_def begin_mutate_def begin_show_def
      ip_request_def show_request_def action_add_def action_remove_def action_show_def split: sum.splits if_splits)

section \<open>A host\<close>

definition ex_machine :: "(nft_tbl option \<times> ipt_view) machine" where
  "ex_machine = \<lparr>disks = (\<lambda>dir. if dir = ''/srv/lists'' then listed_disk else empty_disk), kernel = (None, no_view)\<rparr>"

lemma ex_machine_ok: "machine_ok ex_machine"
  using wf_listed_disk listed_disk_uids wf_empty_disk empty_disk_uids
  by (simp add: machine_ok_def ex_machine_def new_store_wf)

definition ex_process :: "conn list \<Rightarrow> nat list \<Rightarrow> process_io" where
  "ex_process cs is =
     \<lparr>detected = Some Nftables, can_mkdir = (\<lambda>dir. True), first_world = ex_world, listening = sound_io,
      connections = cs, ticks = [ex_world], turns = is, accept_end = None\<rparr>"

lemma ex_process_ok: "process_ok h (ex_process [] is)" "process_ok h (ex_process [ex_conn alice add_request] is)"
proof -
  have "request_in_range (daemon_service h kind c) alice add_request" for kind c
    by (rule user_in_range) (simp add: IsRoot_def alice_def)
  then show "process_ok h (ex_process [] is)" "process_ok h (ex_process [ex_conn alice add_request] is)"
    using ex_call_ok ex_world_ok by (simp_all add: process_ok_def ex_process_def conn_ok_def ex_conn_def)
qed

lemma process_ok_detected: "process_ok h io \<Longrightarrow> process_ok h (io\<lparr>detected := k\<rparr>)"
  by (simp add: process_ok_def)

text \<open>A command line with the forms that flags can have\<close>

definition ex_flags :: "(flag_form \<times> string \<times> string) list" where
  "ex_flags =
     [(Separate True, ''store'', ''/srv/lists''), (Joined False, ''refresh'', ''1h30m''),
      (Separate False, ''resolve-concurrency'', ''0x10''), (Bare False, ''teardown'', ''true'')]"

text \<open>A host with both: the tools act on their own parts of the kernel\<close>

definition on_fst :: "'a tool \<Rightarrow> ('a \<times> 'b) tool" where
  "on_fst tool prog args inp k = (case tool prog args inp (fst k) of (a, ok) \<Rightarrow> ((a, snd k), ok))"

definition on_snd :: "'b tool \<Rightarrow> ('a \<times> 'b) tool" where
  "on_snd tool prog args inp k = (case tool prog args inp (snd k) of (b, ok) \<Rightarrow> ((fst k, b), ok))"

lemma on_fst_eq: "on_fst tool prog args inp k = (k', ok) \<longleftrightarrow> tool prog args inp (fst k) = (fst k', ok) \<and> snd k' = snd k"
  by (cases k') (auto simp: on_fst_def split: prod.splits)

lemma on_snd_eq: "on_snd tool prog args inp k = (k', ok) \<longleftrightarrow> tool prog args inp (snd k) = (snd k', ok) \<and> fst k' = fst k"
  by (cases k') (auto simp: on_snd_def split: prod.splits)

lemma nft_on_fst: "nft_doc tool rules \<Longrightarrow> nft_kernel (on_fst tool) (\<lambda>k. rules (fst k))"
  by unfold_locales (simp add: nft_doc_def run_nft_def on_fst_eq)

lemma ipt_on_snd:
  assumes "ipt_kernel tool view"
  shows "ipt_kernel (on_snd tool) (\<lambda>k. view (snd k))"
proof unfold_locales
  show "ipset_doc (on_snd tool) (\<lambda>k. view (snd k))"
    using ipt_kernel.ipset_documented [OF assms] unfolding ipset_doc_def on_snd_eq by blast
  show "chain_doc (on_snd tool) (\<lambda>k. view (snd k))"
    using ipt_kernel.chain_documented [OF assms] unfolding chain_doc_def on_snd_eq by blast
  show "jump_doc (on_snd tool) (\<lambda>k. view (snd k))"
    using ipt_kernel.jump_documented [OF assms] unfolding jump_doc_def on_snd_eq by blast
  show "removal_doc (on_snd tool) (\<lambda>k. view (snd k))"
    using ipt_kernel.removal_documented [OF assms] unfolding removal_doc_def on_snd_eq by blast
qed

lemma full_nft: "nft_kernel (on_fst (nft_reference (\<lambda>_. False))) fst"
  by (rule nft_on_fst [OF nft_kernel.nft_documented [OF nft_ref.nft_kernel_axioms]])

lemma full_ipt: "ipt_kernel (on_snd good_ipt) snd"
  by (rule ipt_on_snd [OF ipt_ref.ipt_kernel_axioms])

lemma full_list: "list_doc (\<lambda>k. list_reference [] (snd k)) snd"
  using list_reference_doc unfolding list_doc_def by blast

lemma full_apart: "tools_apart (on_fst nft) (on_snd ipt) fst snd"
  by (simp add: tools_apart_def run_nft_def on_fst_def on_snd_def split_beta)

definition host_with :: "(nft_tbl option \<times> ipt_view \<Rightarrow> string option) \<Rightarrow> (nft_tbl option \<times> ipt_view) host" where
  "host_with list_out = real_host (on_fst (nft_reference (\<lambda>_. False))) (on_snd good_ipt) list_out id no_users id"

definition full_host :: "(nft_tbl option \<times> ipt_view) host" where
  "full_host = host_with (\<lambda>k. list_reference [] (snd k))"

text \<open>
  A process that finds \<open>iptables\<close>, and to which a user adds an address, and one that finds \<open>nft\<close>, and starts
  with an empty directory. Neither lists the ipsets.
\<close>

definition serving_host :: "(nft_tbl option \<times> ipt_view) host" where
  "serving_host = host_with (\<lambda>k. None)"

definition iptables_process :: "process_io \<times> string list" where
  "iptables_process = (ex_process [ex_conn alice add_request] (replicate 20 1)\<lparr>detected := Some IptablesIpset\<rparr>, [])"

definition after_iptables :: "(nft_tbl option \<times> ipt_view) machine" where
  "after_iptables = run_processes serving_host [iptables_process] ex_machine"

lemma serving_host_eq: "serving_host = real_host (on_fst (nft_reference (\<lambda>_. False))) (on_snd good_ipt) (\<lambda>k. None) id no_users id"
  by (simp add: serving_host_def host_with_def)

lemma iptables_process_ok: "\<forall>(io, args) \<in> set [iptables_process]. process_ok h io"
  using process_ok_detected [OF ex_process_ok(2)] by (simp add: iptables_process_def)

text \<open>The second one serves, and the rules of the first are in force still.\<close>

lemma nft_serves_after_iptables:
  "snd (snd (daemon_process serving_host (ex_process [] []) [''-store=/tmp''] after_iptables)) = None"
  by code_simp

lemma after_iptables_blocks:
  "real_verdict fst snd IptablesIpset (kernel after_iptables) \<lparr>skuid = 1000, is_v6 = False, daddr = ''10.0.0.5''\<rparr>"
  by code_simp

definition ex_texts :: log_texts where
  "ex_texts =
     \<lparr>os_text = (\<lambda>e. ''input/output error''), exit_text = (\<lambda>e. ''exit status 1''), stderr_text = (\<lambda>e. ''Error''),
      iptables_command = (''iptables-restore'', [''--noflush'']),
      cred_text = ''bad file descriptor'', printable_rune = (\<lambda>_. True)\<rparr>"

section \<open>A firewall that is removed behind the daemon\<close>

abbreviation full_nft_tool :: "(nft_tbl option \<times> ipt_view) tool" where
  "full_nft_tool \<equiv> on_fst (nft_reference (\<lambda>_. False))"

definition ex_kernel :: "nft_tbl option \<times> ipt_view" where
  "ex_kernel = (Some (table_of no_state), no_view)"

definition ex_running :: "(nft_tbl option \<times> ipt_view) backend_state engine" where
  "ex_running = \<lparr>disk_of = empty_disk, be_state = (Some no_state, ex_kernel), cache = [], log = []\<rparr>"

abbreviation ex_global_add :: "store_io \<times> world \<times> operation" where
  "ex_global_add \<equiv> (no_faults, ex_world, AddReq GlobalScope [] [''10.0.0.5''])"

abbreviation full_nft_cfg :: "(nft_tbl option \<times> ipt_view) backend_state engine_cfg" where
  "full_nft_cfg \<equiv> daemon_cfg (nft_ops full_nft_tool) id default_config"

lemma full_host_nft: "host_backends full_host Nftables = nft_ops full_nft_tool"
  by (simp add: full_host_def host_with_def)

lemma ex_running_inv: "engine_inv (real_inv fst snd Nftables) ex_running"
  using ex_engine_inv
  by (simp add: engine_inv_def ex_running_def ex_engine_def real_inv_def nft_inv_def ex_kernel_def no_state_def wf_state_def
      wf_ipset_def empty_ipset_def)

lemma ex_teardown: "nft_teardown full_nft_tool (None, ex_kernel) = ((None, (None, no_view)), None)"
  by (simp add: nft_teardown_def on_fst_def run_nft_def nft_reference_def parse_script_text table_of_def ex_kernel_def)

lemma full_teardown: "nft_teardown full_nft_tool (None, (Some (table_of st), no_view)) = ((None, (None, no_view)), None)"
  by (simp add: nft_teardown_def on_fst_def run_nft_def nft_reference_def parse_script_text table_of_def)

lemma ex_after_removal:
  "case run_request full_nft_cfg ex_global_add (ex_running\<lparr>be_state := (Some no_state, (None, no_view))\<rparr>) of
     (eng', r) \<Rightarrow> r = None \<and> global_list (disk_of eng') = \<lparr>Domains = [], IPs = [''10.0.0.5'']\<rparr> \<and>
       \<not> ipt_verdict (snd (snd (be_state eng'))) \<lparr>skuid = 1000, is_v6 = False, daddr = ''10.0.0.5''\<rparr>"
  by code_simp

section \<open>A directory of bytes\<close>

definition ex_bytes :: byte_disk where
  "ex_bytes = \<lparr>byte_base = [], byte_users = Some [(''8.json'', Bytes ''{''), (''9.json'', Bytes ''null'')]\<rparr>"

end
