(* ===== verification/Spec2Isabelle.thy ===== *)
theory Spec2Isabelle
  imports Conformance
begin

text \<open>
  webblock: a website and IP blocker for Linux, modelled and verified.

  The program. A privileged daemon (\<open>cmd/webblockd\<close>) keeps blocklists, one global and one for
  each user, and makes the kernel drop outgoing packets to the listed addresses and to the
  addresses that listed domains resolve to. An unprivileged client (\<open>cmd/webblock\<close>) sends it one
  request per connection over a Unix socket; the kernel says who the caller is. A request runs
  through the rate limiter (\<open>ratelimit.go\<close>) and the dispatcher (\<open>dispatch.go\<close>) to a handler
  (\<open>handlers.go\<close>), which asks \<open>authz.go\<close> for the scope, validates (\<open>internal/validate\<close>) and calls
  the engine (\<open>engine.go\<close>). The engine changes the list in the store (\<open>internal/store\<close>), looks up
  the names it has no addresses for (\<open>internal/resolver\<close>), and hands the complete desired state
  to a backend (\<open>internal/backend\<close>): \<open>nftables\<close>, or \<open>iptables\<close> with \<open>ipset\<close>.

  The theories, in the order in which they build on each other:
  \<^item> \<open>Prelude\<close>, \<open>Go_Strings\<close>, \<open>Go_IP\<close>: conventions, Go's \<open>strings\<close> and \<open>strconv\<close> functions on byte
    strings, and \<open>net.ParseIP\<close> with \<open>IP.String\<close>, as far as the program uses them;
  \<^item> \<open>Go_UTF8\<close>, \<open>Go_JSON\<close>, \<open>Go_JSON_Roundtrip\<close>, \<open>Go_JSON_Decode\<close>, \<open>Go_JSON_Clean\<close>: \<open>encoding/json\<close>, that is the
    printer, the parser of arbitrary bytes, the theorem that the latter reads back what the former printed,
    the decoding of values into Go variables, and that what is decoded is valid UTF-8;
  \<^item> \<open>Validate\<close>: \<open>NormalizeDomain\<close>, \<open>ValidateDomain\<close>, \<open>NormalizeIP\<close>, and the grammar of host names;
  \<^item> \<open>Store\<close>: scopes, lists, and the directory tree. Every system call that can fail has a fault
    in the record \<open>store_io\<close>; a save is the list of the disks it passes through. The locale
    \<open>blocklist_store\<close> is the contract of the store, interpreted on the model;
  \<^item> \<open>Backend\<close>: the desired state, \<open>diff.go\<close>, \<open>Detect\<close>, what a state blocks, and the contract
    of the Go interface: \<open>backend\<close>, what the daemon relies on, and \<open>whole_backend\<close>, all that is documented, with
    atomic \<open>Apply\<close> and \<open>Teardown\<close>;
  \<^item> \<open>Nft\<close>, \<open>Nft_Text\<close>, \<open>Nft_Backend\<close>: the scripts of \<open>nft.go\<close> as commands and as text, their
    effect, and the contract over any \<open>nft\<close> that behaves as documented (\<open>nft_kernel\<close>);
  \<^item> \<open>Iptables\<close>, \<open>Iptables_Sets\<close>, \<open>Iptables_Text\<close>, \<open>Iptables_Backend\<close>, \<open>Iptables_Tools\<close>: the same for
    \<open>iptables.go\<close>; \<open>ipt_kernel\<close> holds the documented behaviour of \<open>ipset\<close>, \<open>iptables-restore\<close> and
    \<open>iptables\<close>, and a reference machine shows that it can be met. Each documented behaviour is assumed of the
    inputs that the program writes only. A set holds at most 65536 entries, the default, and any removing command may fail;
  \<^item> \<open>Resolver\<close>: \<open>Resolve\<close>, \<open>ResolveMany\<close>, and the goroutines and channels of the latter as a step
    relation \<open>pool_step\<close>;
  \<^item> \<open>Engine\<close>, \<open>Engine_Spec\<close>, \<open>Engine_Contract\<close>: every method of the engine, the specification of
    what should be blocked (\<open>desired\<close>), and the locale \<open>engine_parts\<close>, the engine over any backend
    that keeps its contract, interpreted on both backends;
  \<^item> \<open>Concurrent\<close>, \<open>Concurrent_Lists\<close>: the engine's methods as processes that share the store and
    the mutex, for every schedule;
  \<^item> \<open>Concurrent_Server\<close>, \<open>Concurrent_Daemon\<close>, \<open>Concurrent_Acks\<close>, \<open>Concurrent_Answers\<close>: the goroutines of
    the daemon, one for each connection and one for the refresh loop, which share limiter, store
    and engine: their steps; strangers, progress and the kernel's state at the end; what an OK is
    worth; what \<open>show\<close> and the limiter do, and goroutines that are not interrupted;
  \<^item> \<open>Proto\<close>, \<open>Authz\<close>, \<open>Ratelimit\<close>, \<open>Handlers\<close>, \<open>Server\<close>: the daemon from the connection to the
    engine, with the contract \<open>request_handler\<close> that all handlers and the dispatcher keep, and
    the part of \<open>main\<close> from the backend to serving;
  \<^item> \<open>Noninterference\<close>: runs of the server with and without the connections of other users;
  \<^item> \<open>Error_Text\<close>, \<open>Wire\<close>: the texts of the daemon's errors, and requests, responses and the store's
    files as JSON text;
  \<^item> \<open>Store_Bytes\<close>: the store over files of bytes, with writes in pieces, as a refinement of \<open>Store\<close>;
  \<^item> \<open>Daemon_Log\<close>: the lines that the daemon logs, with the texts of the errors in them;
  \<^item> \<open>Client\<close>: arguments, requests, output and exit codes of the client; \<open>Session\<close>: a run of the
    client against the daemon, with nothing but bytes between them;
  \<^item> \<open>Two_Backends\<close>: the two backends over one kernel, which drops a packet if the rules of either do
    (\<open>kernel_drops\<close>), and what it means that the tools of one leave alone what the other made (\<open>tools_apart\<close>);
  \<^item> \<open>Daemon\<close>: the life of the daemon, with the accept loop, the refresh loop, crash and restart;
  \<^item> \<open>Go_Duration\<close>, \<open>Go_Flag\<close>: \<open>time.ParseDuration\<close> and the package \<open>flag\<close>; \<open>Daemon_Main\<close>: all of the
    daemon's \<open>main\<close>, from the command line to the exit status, and one process after the other on
    a machine that keeps the directories and the kernel;
  \<^item> \<open>Drift\<close>, \<open>Daemon_Drift\<close>: the backends and the daemon after something else has removed the firewall
    behind them: what a backend believes to be in force, when it heals, and when it does not notice;
  \<^item> \<open>Examples\<close>: the concrete data on which the theorems below are applied; \<open>Conformance\<close>: the test suite
    of the program, run on the model.

  Correspondence. A Go struct is a record with the fields of the source, a Go error a
  constructor of an error type and an error return a sum or an option; the texts of the errors
  that reach the client are functions of these constructors. A \<open>string\<close> is a list of bytes. \<open>int\<close> is
  \<open>int\<close>, with the 64-bit range where it decides (\<open>Atoi\<close>, \<open>go_int\<close>), a uid from the kernel is a
  \<open>32 word\<close>. A Go map is an association list; wherever the source ranges over a map the order is
  the parameter \<open>map_order\<close>, any permutation. State is passed explicitly. What lies outside (the
  firewall tools, the name service, the user database, the clock, faults of system calls, Go's
  Unicode tables for lower case and printable runes) is an argument of the definitions that use it.

  What is shown. C1 to C13: the daemon as a whole, over any backend that keeps the contract it relies on
  (C3: both do, and \<open>nftables\<close> also the rest that the interface documents, which \<open>iptables\<close> does not), C2 with the client and the wire, C9 and C10 over its whole life and
  beyond a crash, C8, C11, C12 and C13 from the command line on and over several processes.
  C14 to C18: concurrent requests, as are C5 and C38. C19: failing lookups. C20 to C23: the engine
  and the resolver. C24 and C25: persistence. C26 to C32: the backends. C33: the wire. C34:
  validation. C35 to C40: serving, with the noninterference of users in C36 and the log in
  C39 and C40. The last section states what modelling showed about the code where it does not do
  what its comments or its users expect.

  Bounds and fuel. Every function is total. \<open>nat_digits\<close> and \<open>hex_digits\<close> recurse on a smaller
  number; \<open>utf8_units\<close> and \<open>parse_str\<close> on a shorter rest; \<open>parse6_loop\<close> recurses on the number of
  groups left, which the source's loop bounds too; the JSON parser has fuel for twice the length of
  the text, and \<open>parse_fuel\<close> shows that more makes no difference; \<open>duration_loop\<close> recurses on a shorter
  rest; everything else recurses on a list. Schedules (\<open>run_daemon\<close>, \<open>run_schedule\<close>) and runs of
  the resolver's goroutines (\<open>pool_run\<close>) have no bound; C17 and C22 show that they end.

  Abstractions. In \<open>Store\<close> a file is the two lists of its document or garbage, not bytes;
  \<open>Store_Bytes\<close> has the operations on bytes and C25 that reading a directory of bytes as one
  of documents commutes with them. Entries that pass validation are ASCII
  (\<open>accepted_domain_text\<close>, \<open>addr_text_ascii\<close>), so the repair of invalid UTF-8 does not touch them.
  Saving does not sync, neither in the source nor here: a crash is one of the process, not of the
  machine.

  Two directories with different paths are different directories, and nobody else writes to them.
  In \<open>Daemon\<close> the events of a life come one after the other; in the goroutine theories, and in
  \<open>Daemon_Main\<close>, they interleave. C18 connects the two.

  Not modelled: deadlines of connections (a connection brings its bytes, or \<open>exchange\<close> fails); the
  texts of errors of the operating system, of the firewall tools and of the JSON decoder, which are
  parameters of the log; how a signal reaches the daemon, which is the event \<open>Cancelled\<close> of \<open>Daemon\<close> and the end of the
  accept loop in \<open>Daemon_Main\<close>; the log
  lines of \<open>main\<close> itself and the usage text of its flags; cancellation, which is a failing lookup here.
\<close>

section \<open>The whole daemon\<close>

text \<open>C1: an address that a caller adds with success is blocked at once, for everyone if the
  list is the global one and for the user of the list otherwise. This holds over any firewall
  backend that keeps its contract, for any well-formed store, cache and name service.\<close>

theorem added_address_is_blocked:
  assumes "engine_parts cfg verdict be_inv" "eng_cfg sv = cfg" "engine_inv be_inv eng" "call_ok call"
    and "request_in_range sv caller req"
    and "mutate_handle True sv call caller req eng = (eng', resp)" "resp_ok resp"
    and "ResolveScope (user_names sv) (target_user req) caller = Inr s" "Global s \<or> skuid p = UID s"
    and "ip \<in> set (req_ips req)" "canon_ip ip = Inr (daddr p)" "addr_text (is_v6 p) (daddr p)"
  shows "verdict (be_state eng') p"
  by (rule engine_parts.add_blocks [OF assms(1,6,7,2,3,4,5,8-12)])

theorem added_address_is_blocked_witness:
  "blocked (be_state (fst (mutate_handle True ex_service ex_call alice add_request ex_engine)))
     \<lparr>skuid = 1000, is_v6 = False, daddr = ''10.0.0.5''\<rparr>"
proof (rule added_address_is_blocked [OF fake.engine_parts_axioms _ ex_engine_inv])
  show "eng_cfg ex_service = fake_cfg" by (simp add: ex_service_def)
  show "call_ok ex_call" by (simp add: ex_call_ok)
  show "request_in_range ex_service alice add_request"
    by (rule user_in_range) (simp add: IsRoot_def alice_def)
  show "mutate_handle True ex_service ex_call alice add_request ex_engine =
      (fst (mutate_handle True ex_service ex_call alice add_request ex_engine),
       snd (mutate_handle True ex_service ex_call alice add_request ex_engine))" by simp
  show "resp_ok (snd (mutate_handle True ex_service ex_call alice add_request ex_engine))" by code_simp
  show "ResolveScope (user_names ex_service) (target_user add_request) alice = Inr (UserScope 1000)" by code_simp
qed (simp_all add: UserScope_def add_request_def, code_simp+)

text \<open>C2: the promise of the command line. When \<open>webblock --add\<close> or \<open>--remove\<close> ends with
  exit code 0, the daemon that answered it has the named entries on the list, or has them no
  more, and the kernel drops exactly what the lists ask for; after \<open>--add\<close> every address named
  with \<open>--ip\<close> is blocked, for everyone if the request was about the global list and for the user
  of the list otherwise. Between the two ends lie only bytes: the arguments, the request and the
  answer as JSON text, and the daemon's own checks.\<close>

theorem exit_code_zero_means_done:
  assumes "engine_parts cfg verdict be_inv" "eng_cfg sv = cfg" "engine_inv be_inv (srv_engine s)"
    and "call_ok (conn_call c)" "conn_cred c = Some cred"
    and "parse_args args = Parsed opts" "opt_add opts \<or> opt_remove opts"
    and "exit_code (client_main u (send (daemon_socket sv printable c s)) args) = 0"
    and "ResolveScope (user_names sv) (utf8_fix (opt_user opts)) cred = Inr scope" "scope_ok scope"
  shows "\<exists>req s' bl. build_request u opts = Inr req \<and>
    s' = fst (serve_bytes handler_table sv printable c (encode_request req) s) \<and>
    content (disk_of (srv_engine s')) scope = Some bl \<and>
    (if opt_add opts then set (req_domains req) \<subseteq> set (Domains bl) \<and> set (req_ips req) \<subseteq> set (IPs bl)
     else set (req_domains req) \<inter> set (Domains bl) = {} \<and> set (req_ips req) \<inter> set (IPs bl) = {}) \<and>
    (\<forall>p. verdict (be_state (srv_engine s')) p \<longleftrightarrow> desired (disk_of (srv_engine s')) (cache (srv_engine s')) p) \<and>
    (\<forall>p t. opt_add opts \<and> (Global scope \<or> skuid p = UID scope) \<and> t \<in> set (split_list (opt_ip opts)) \<and>
       canon_ip t = Inr (daddr p) \<and> addr_text (is_v6 p) (daddr p) \<longrightarrow> verdict (be_state (srv_engine s')) p)"
  using assms by (rule session_done)

theorem exit_code_zero_means_done_witness:
  "\<exists>(s' :: fw_state server) bl. content (disk_of (srv_engine s')) (UserScope 1000) = Some bl \<and>
     blocked (be_state (srv_engine s')) \<lparr>skuid = 1000, is_v6 = False, daddr = ''10.0.0.5''\<rparr>"
proof -
  let ?p = "\<lparr>skuid = 1000, is_v6 = False, daddr = ''10.0.0.5''\<rparr>"
  have cfg: "eng_cfg ex_service = fake_cfg" by (simp add: ex_service_def)
  have inv: "engine_inv (\<lambda>_. True) (srv_engine (new_server default_config ex_engine))"
    using ex_engine_inv by (simp add: new_server_def)
  have call: "call_ok (conn_call alice_conn)" using ex_call_ok by (simp add: alice_conn_def ex_conn_def)
  have add: "opt_add ex_options \<or> opt_remove ex_options" by (simp add: ex_options_def)
  have scope: "ResolveScope (user_names ex_service) (utf8_fix (opt_user ex_options)) alice = Inr (UserScope 1000)"
    by code_simp
  have ok: "scope_ok (UserScope 1000)" by (simp add: scope_ok_def kernel_uid_def UserScope_def)
  from exit_code_zero_means_done [OF fake.engine_parts_axioms cfg inv call alice_conn_cred ex_args_parsed add
      ex_session_ok scope ok]
  obtain s' :: "fw_state server" and bl where bl: "content (disk_of (srv_engine s')) (UserScope 1000) = Some bl"
    and named: "\<forall>p t. opt_add ex_options \<and> (Global (UserScope 1000) \<or> skuid p = UID (UserScope 1000)) \<and>
      t \<in> set (split_list (opt_ip ex_options)) \<and> canon_ip t = Inr (daddr p) \<and> addr_text (is_v6 p) (daddr p) \<longrightarrow>
      blocked (be_state (srv_engine s')) p"
    by (elim exE conjE) (erule that, assumption)
  have "opt_add ex_options" "skuid ?p = UID (UserScope 1000)" by (simp_all add: ex_options_def UserScope_def)
  moreover have "''10.0.0.5'' \<in> set (split_list (opt_ip ex_options))" by code_simp
  moreover have "canon_ip ''10.0.0.5'' = Inr (daddr ?p)" "addr_text (is_v6 ?p) (daddr ?p)" by (simp_all, code_simp+)
  ultimately have "blocked (be_state (srv_engine s')) ?p"
    using named [THEN spec, of ?p, THEN spec, of "''10.0.0.5''"] by simp
  then show ?thesis using bl by blast
qed

text \<open>C3: which part of the contract of the interface \<open>Backend\<close> each backend keeps, over any \<open>nft\<close>,
  \<open>ipset\<close> and \<open>iptables\<close> that behave as documented, and none of which changes what the other
  programs keep. \<open>nftables\<close> keeps all of it: an \<open>Apply\<close> that succeeds makes the kernel drop exactly what it asks
  for, one that fails changes nothing, and after a \<open>Teardown\<close> without an error nothing is dropped. Both keep
  what the daemon relies on: success means that the state is in force, the invariant survives whatever fails, and each
  leaves in force what the other has. \<open>iptables\<close> does not keep the rest, against the comments of the interface:
  there are documented tools with which a failed \<open>Apply\<close> has changed what is dropped, and documented tools with
  which \<open>Teardown\<close> reports success and changes nothing.\<close>

theorem backends_keep_the_contract:
  assumes "nft_kernel nft rules" "ipt_kernel ipt view" "tools_apart nft ipt rules view" "iteration_order ord"
  shows "whole_backend (nft_apply nft) (\<lambda>b. nft_verdict (rules (snd b))) (nft_inv rules) (nft_teardown nft) \<and>
    backend (ipt_apply ipt) (\<lambda>b. ipt_verdict (view (snd b))) (ipt_inv view) \<and>
    host_ok (real_host nft ipt list_out ord db u) (real_verdict rules view) (real_inv rules view) \<and>
    (\<exists>tool. ipt_kernel tool (\<lambda>w. w) \<and>
       (\<forall>teardown. \<not> whole_backend (ipt_apply tool) (\<lambda>b. ipt_verdict (snd b)) (ipt_inv (\<lambda>w. w)) teardown)) \<and>
    (\<exists>tool list_out w p. ipt_kernel tool (\<lambda>w. w) \<and> list_doc list_out (\<lambda>w. w) \<and> ipt_verdict w p \<and>
       ipt_teardown tool list_out (None, w) = ((None, w), None))"
  using nft_kernel.whole_contract [OF assms(1)] ipt_kernel.contract [OF assms(2)] real_host_ok [OF assms]
    iptables_apply_not_atomic iptables_teardown_not_reported by blast

theorem backends_keep_the_contract_witness:
  "host_ok full_host (real_verdict fst snd) (real_inv fst snd) \<and>
   whole_backend (nft_apply full_nft_tool) (\<lambda>b. nft_verdict (fst (snd b))) (nft_inv fst) (nft_teardown full_nft_tool)"
proof -
  have "iteration_order id" by (simp add: iteration_order_def)
  from backends_keep_the_contract [OF full_nft full_ipt full_apart this] show ?thesis
    unfolding full_host_def host_with_def by blast
qed

text \<open>C4: whatever requests and refreshes came before, and whichever of them failed, after
  one that succeeds the kernel drops a packet exactly if its address is on the global list or
  on the list of the packet's owner, directly or as a cached address of a listed domain.\<close>

theorem success_enforces_the_lists:
  assumes "engine_parts cfg verdict be_inv" "engine_inv be_inv eng" "\<forall>q \<in> set (qs @ [q]). request_ok q"
    and "run_request cfg q (run_requests cfg qs eng) = (eng', None)"
  shows "verdict (be_state eng') p \<longleftrightarrow> desired (disk_of eng') (cache eng') p"
  using assms by (rule engine_parts.requests_enforce)

theorem success_enforces_the_lists_witness:
  "\<exists>eng'. run_request fake_cfg (no_faults, ex_world, RefreshReq ResolveAll) ex_engine = (eng', None) \<and>
     (\<forall>p. blocked (be_state eng') p \<longleftrightarrow> desired (disk_of eng') (cache eng') p)"
proof -
  let ?q = "(no_faults, ex_world, RefreshReq ResolveAll)"
  obtain eng' r where q: "run_request fake_cfg ?q ex_engine = (eng', r)" by (cases "run_request fake_cfg ?q ex_engine")
  have "snd (run_request fake_cfg ?q ex_engine) = None" by code_simp
  then have "run_request fake_cfg ?q (run_requests fake_cfg [] ex_engine) = (eng', None)" using q by simp
  moreover have "\<forall>q \<in> set ([] @ [?q]). request_ok q" using ex_world_ok by simp
  ultimately have "blocked (be_state eng') p \<longleftrightarrow> desired (disk_of eng') (cache eng') p" for p
    using success_enforces_the_lists [OF fake.engine_parts_axioms ex_engine_inv] by blast
  moreover have "r = None" using \<open>snd (run_request fake_cfg ?q ex_engine) = None\<close> q by simp
  ultimately show ?thesis using q by blast
qed

text \<open>C5: connections of callers who are neither root nor the owner of a list never change it,
  whatever they send, however their goroutines and the refresh loop interleave, and whether or
  not anything fails.\<close>

theorem strangers_never_change_a_list:
  assumes "\<forall>c \<in> set cs. stranger t c" "run_daemon sv is (serving cs ws s) = s'"
  shows "content (disk_of (eng_of (dm_sys s'))) t = content (disk_of (srv_engine s)) t"
  using assms by (rule strangers_concurrently)

theorem strangers_never_change_a_list_witness:
  "content (disk_of (eng_of (dm_sys (run_daemon ex_service [1, 2, 1, 2, 1]
     (serving [ex_conn alice add_request, ex_conn alice (ip_request ''global'' ''10.0.0.5'')] [ex_world]
       (new_server default_config ex_engine)))))) GlobalScope = Some empty_blocklist"
proof -
  let ?cs = "[ex_conn alice add_request, ex_conn alice (ip_request ''global'' ''10.0.0.5'')]"
  have "\<forall>c \<in> set ?cs. stranger GlobalScope c" by (simp add: stranger_def ex_conn_def alice_def IsRoot_def)
  note strangers_never_change_a_list [OF this refl, of ex_service "[1, 2, 1, 2, 1]" "[ex_world]" "new_server default_config ex_engine"]
  moreover have "content (disk_of (srv_engine (new_server default_config ex_engine))) GlobalScope = Some empty_blocklist"
    by (simp add: new_server_def ex_engine_def content_empty_disk)
  ultimately show ?thesis by (rule trans)
qed

text \<open>C6: lists change as asked or not at all. A mutating operation either stores nothing,
  touches neither cache nor firewall and reports an error, or stores exactly the changed list
  in the scope it is about and reports the counts of that change; the second also when the
  firewall then fails.\<close>

theorem lists_change_as_asked:
  assumes "change_entries cfg io w s fn eng = (eng', n, m, r)"
  shows "((\<forall>t. content (disk_of eng') t = content (disk_of eng) t) \<and> n = 0 \<and> m = 0 \<and> r \<noteq> None \<and>
      cache eng' = cache eng \<and> be_state eng' = be_state eng) \<or>
    (\<exists>bl bl'. content (disk_of eng) s = Some bl \<and> fn bl = Inr (bl', n, m) \<and>
      (\<forall>t. content (disk_of eng') t = (if same_scope s t then Some (tidy bl') else content (disk_of eng) t)))"
  using assms by (rule change_entries_cases)

theorem lists_change_as_asked_witness:
  "\<exists>eng' n m r. change_entries fake_cfg no_faults ex_world (UserScope 7) (add_fn [''a.example.org''] []) ex_engine = (eng', n, m, r) \<and>
     content (disk_of eng') (UserScope 8) = Some empty_blocklist"
proof -
  let ?x = "change_entries fake_cfg no_faults ex_world (UserScope 7) (add_fn [''a.example.org''] []) ex_engine"
  obtain eng' n m r where x: "?x = (eng', n, m, r)" by (cases ?x)
  have e: "content (disk_of ex_engine) t = Some empty_blocklist" for t by (simp add: ex_engine_def content_empty_disk)
  from lists_change_as_asked [OF x] have "content (disk_of eng') (UserScope 8) = Some empty_blocklist"
    by (auto simp: e)
  then show ?thesis using x by blast
qed

text \<open>C7: adding yields the union of the old list and the new entries and counts the new
  ones; removing yields the difference and counts what was there. Both lists are sorted and
  free of repetitions afterwards.\<close>

theorem list_arithmetic:
  assumes "wf_blocklist bl" "add_fn ds is bl = Inr (bl1, n1, m1)" "remove_fn ds is bl = Inr (bl2, n2, m2)"
  shows "set (Domains bl1) = (set (Domains bl) \<union> set ds) - {[]} \<and> set (IPs bl1) = (set (IPs bl) \<union> set is) - {[]} \<and>
      n1 = card (set ds - set (Domains bl)) \<and> m1 = card (set is - set (IPs bl)) \<and> wf_blocklist bl1 \<and>
      set (Domains bl2) = set (Domains bl) - set ds \<and> set (IPs bl2) = set (IPs bl) - set is \<and>
      n2 = card (set (Domains bl) \<inter> set ds) \<and> m2 = card (set (IPs bl) \<inter> set is) \<and> wf_blocklist bl2"
  using add_fn_spec [OF assms(2)] remove_fn_spec [OF assms(3,1)] by simp

theorem list_arithmetic_witness:
  "\<exists>bl1 n1 m1. add_fn [''a.b'', ''c.d''] [] ex_list = Inr (bl1, n1, m1) \<and>
     set (Domains bl1) = {''ads.example.net'', ''a.b'', ''c.d''}"
proof -
  obtain bl1 n1 m1 where a: "add_fn [''a.b'', ''c.d''] [] ex_list = Inr (bl1, n1, m1)"
    using list_fns_total(1) by blast
  obtain bl2 n2 m2 where r: "remove_fn [''a.b'', ''c.d''] [] ex_list = Inr (bl2, n2, m2)"
    using list_fns_total(2) by blast
  have "wf_blocklist ex_list" by (simp add: ex_list_def wf_blocklist_def wf_list_def strict_sorted_def)
  from list_arithmetic [OF this a r] show ?thesis using a by (auto simp: ex_list_def)
qed

text \<open>C8: every start repairs what its backend has in the kernel. Take any processes of the daemon, one after
  the other, however they were started, whichever backend each of them found, however their goroutines took turns, and
  whatever became of them (help, a usage error, teardown, a failure, or a signal or kill that the goroutines
  did not outlive), and then one that gets as far as serving. The kernel then drops exactly what the
  lists in its directory ask for, with the addresses the name service gives for their domains, and
  besides only what the rules of the other backend drop, which no start removes; if none of the earlier processes found
  the other backend these are the rules that were there at the beginning. No list of any directory has changed.\<close>

theorem every_start_repairs:
  assumes "nft_kernel nft rules" "ipt_kernel ipt view" "tools_apart nft ipt rules view" "iteration_order ord"
    and "h = real_host nft ipt list_out ord db u" "machine_ok m" "\<forall>(io, args) \<in> set ps. process_ok h io" "run_processes h ps m = m1"
    and "process_ok h io2" "turns io2 = []" "daemon_process h io2 args2 m1 = (m2, rs2, None)" "started_in args2 dir"
  shows "\<exists>kind. detected io2 = Some kind \<and> disks m2 = (disks m1)(dir := new_store (disks m1 dir)) \<and>
    (\<forall>t. content (disks m2 dir) t = content (new_store (disks m1 dir)) t) \<and>
    (\<forall>p. kernel_drops (real_verdict rules view) (kernel m2) p \<longleftrightarrow>
       asked (answers (first_world io2)) (disks m2 dir) p \<or> real_verdict rules view (other_kind kind) (kernel m1) p) \<and>
    ((\<forall>(io, args) \<in> set ps. detected io \<noteq> Some (other_kind kind)) \<longrightarrow>
       real_verdict rules view (other_kind kind) (kernel m1) = real_verdict rules view (other_kind kind) (kernel m))"
  using assms by (rule real_restart_enforces)

theorem every_start_repairs_witness:
  "\<forall>p. kernel_drops (real_verdict fst snd) (kernel (fst (daemon_process serving_host (ex_process [] []) [''-store=/tmp''] after_iptables))) p \<longleftrightarrow>
     asked ex_answers (disks (fst (daemon_process serving_host (ex_process [] []) [''-store=/tmp''] after_iptables)) ''/tmp'') p \<or>
     ipt_verdict (snd (kernel after_iptables)) p"
proof -
  let ?x = "daemon_process serving_host (ex_process [] []) [''-store=/tmp''] after_iptables"
  have x: "?x = (fst ?x, fst (snd ?x), None)" using nft_serves_after_iptables by (metis prod.collapse)
  have "iteration_order id" by (simp add: iteration_order_def)
  moreover have "started_in [''-store=/tmp''] ''/tmp''" by code_simp
  moreover have "turns (ex_process [] []) = []" "answers (first_world (ex_process [] [])) = ex_answers" "detected (ex_process [] []) = Some Nftables"
    by (simp_all add: ex_process_def ex_world_def)
  ultimately show ?thesis
    using every_start_repairs [OF full_nft full_ipt full_apart _ serving_host_eq ex_machine_ok iptables_process_ok
        after_iptables_def [symmetric] ex_process_ok(1) _ x, of "''/tmp''"]
    by (simp add: id_def)
qed

text \<open>C9: the engine's invariant (a readable store with well-formed lists, no entries for
  uids the kernel cannot have, a cache of well-formed addresses, and the backend's own
  invariant) survives any life of the daemon: any sequence of connections, whose requests name
  uids in range, ticks of the refresh loop, and the end by an error or a signal.\<close>

theorem server_keeps_invariant:
  assumes "engine_parts cfg verdict be_inv" "run_server handler_table sv io es s = (s', rs, stop)" "eng_cfg sv = cfg"
    and "engine_inv be_inv (srv_engine s)" "\<forall>e \<in> set es. event_ok sv e"
  shows "engine_inv be_inv (srv_engine s')"
  using assms by (rule engine_parts.run_server_inv)

theorem server_keeps_invariant_witness:
  "engine_inv (\<lambda>_. True) (srv_engine (fst (run_server handler_table ex_service sound_io ex_life (new_server default_config ex_engine))))"
proof (rule server_keeps_invariant [OF fake.engine_parts_axioms])
  show "run_server handler_table ex_service sound_io ex_life (new_server default_config ex_engine) =
    (fst (run_server handler_table ex_service sound_io ex_life (new_server default_config ex_engine)),
     fst (snd (run_server handler_table ex_service sound_io ex_life (new_server default_config ex_engine))),
     snd (snd (run_server handler_table ex_service sound_io ex_life (new_server default_config ex_engine))))"
    by simp
  show "\<forall>e \<in> set ex_life. event_ok ex_service e" by (rule ex_life_ok)
qed (simp_all add: ex_service_def new_server_def ex_engine_inv)

text \<open>C10: a crash loses nothing. Whenever the process dies, also between two system calls of a
  save, and whatever the firewall then holds: a daemon that serves after the next start blocks
  exactly what the lists on disk ask for, and these are the old ones, but for the one that was
  being saved, which may be the new one.\<close>

theorem crash_loses_nothing:
  assumes "engine_parts (daemon_cfg (backends kind) ord c) verdict be_inv" "engine_inv be_inv (srv_engine s)"
    and "save_locked io (disk_of (srv_engine s)) scope bl = (ds, r)" "scope_ok scope" "temp_digits io"
    and "x \<in> set (disk_of (srv_engine s) # ds)"
    and "daemon_main (Some kind) backends teardown mkdir_ok ord c w x b = Serving s2" "be_inv b" "world_ok w"
  shows "(content (disk_of (srv_engine s2)) t = content (disk_of (srv_engine s)) t \<or>
      same_scope scope t \<and> content (disk_of (srv_engine s2)) t = Some (tidy bl)) \<and>
    (verdict (be_state (srv_engine s2)) p \<longleftrightarrow> desired (disk_of (srv_engine s2)) (cache (srv_engine s2)) p)"
proof -
  have start: "start_daemon (daemon_cfg (backends kind) ord c) c w x b = Some s2"
    using daemon_serves(2) [OF assms(7)] by simp
  show ?thesis using engine_parts.crash_and_restart [OF assms(1-6) start assms(8,9)] by blast
qed

theorem crash_loses_nothing_witness:
  "\<exists>s2. daemon_main (Some Nftables) (\<lambda>kind. fake_ops) False True id default_config ex_world
       (final_disk empty_disk (fst (save_locked no_faults empty_disk (UserScope 7) ex_list))) no_state = Serving s2 \<and>
     content (disk_of (srv_engine s2)) GlobalScope = Some empty_blocklist"
proof -
  let ?save = "save_locked no_faults empty_disk (UserScope 7) ex_list"
  let ?s = "new_server default_config ex_engine"
  let ?x = "daemon_main (Some Nftables) (\<lambda>kind. fake_ops) False True id default_config ex_world
       (final_disk empty_disk (fst ?save)) no_state"
  have "case ?x of Serving s \<Rightarrow> True | _ \<Rightarrow> False" by code_simp
  then obtain s2 where s2: "?x = Serving s2" by (auto split: daemon_end.splits)
  have d: "disk_of (srv_engine ?s) = empty_disk" by (simp add: new_server_def ex_engine_def)
  have i: "engine_inv (\<lambda>_. True) (srv_engine ?s)" using ex_engine_inv by (simp add: new_server_def)
  have "temp_digits no_faults" by (simp add: temp_digits_def no_faults_def is_digit_def)
  moreover have "scope_ok (UserScope 7)" by (simp add: scope_ok_def kernel_uid_def)
  moreover have "final_disk empty_disk (fst ?save) \<in> set (disk_of (srv_engine ?s) # fst ?save)"
    unfolding d by (rule final_disk_in)
  ultimately have "content (disk_of (srv_engine s2)) GlobalScope = Some empty_blocklist"
    using crash_loses_nothing [OF fake_daemon.engine_parts_axioms i _ _ _ _ s2 _ ex_world_ok,
        of no_faults "UserScope 7" ex_list "fst ?save" "snd ?save" GlobalScope] by (simp add: d content_empty_disk)
  then show ?thesis using s2 by blast
qed

text \<open>C11: removal on request. The daemon was started with \<open>-teardown\<close> and ended with status 0. The lists on
  disk are as they were, nothing is blocked that was not blocked before, and what is still blocked is blocked by
  rules of the backend that it has not found, or by those of \<open>iptables\<close> because the command that empties their
  chain has failed, which the daemon does not look at.\<close>

theorem what_teardown_leaves:
  assumes "nft_kernel nft rules" "ipt_kernel ipt view" "tools_apart nft ipt rules view" "list_doc list_out view"
    and "daemon_process (real_host nft ipt list_out ord db u) io args m = (m', rs, Some e)" "exit_status e = 0"
    and "parse_flags daemon_formal [] args = FlagsSet vals rest" "option_value (daemon_config vals) ''teardown'' = Some (BoolVal True)"
  shows "\<exists>kind. detected io = Some kind \<and> disks m' = disks m \<and> rs = [] \<and>
    (\<forall>p. kernel_drops (real_verdict rules view) (kernel m') p \<longrightarrow>
       kernel_drops (real_verdict rules view) (kernel m) p \<and>
       (real_verdict rules view (other_kind kind) (kernel m) p \<or>
        kind = IptablesIpset \<and> (cmd (fam (is_v6 p)), [''-F'', ip_chain], False) \<in> set (teardown_outcomes ipt list_out (kernel m))))"
  using assms by (rule teardown_leaves)

theorem what_teardown_leaves_witness:
  "\<forall>p. \<not> kernel_drops (real_verdict fst snd) (kernel (fst (daemon_process full_host (ex_process [] []) [''-teardown'']
     \<lparr>disks = (\<lambda>dir. listed_disk), kernel = (Some (table_of ex_state), no_view)\<rparr>))) p"
proof -
  let ?io = "ex_process [] []" and ?m = "\<lparr>disks = (\<lambda>dir. listed_disk), kernel = (Some (table_of ex_state), no_view)\<rparr>"
  let ?vals = "[(''teardown'', BoolVal True)]"
  have v: "parse_flags daemon_formal [] [''-teardown''] = FlagsSet ?vals []" by code_simp
  have t: "daemon_config ?vals = (default_config, True)" by (simp add: daemon_config_def)
  have d: "detected ?io = Some Nftables" by (simp add: ex_process_def)
  have "daemon_run full_host ?io default_config True ?m = (?m\<lparr>kernel := (None, no_view)\<rparr>, [], Some (Removed nft_name))"
    using full_teardown [of ex_state] by (simp add: daemon_run_def Let_def d full_host_nft)
  then have p: "daemon_process full_host ?io [''-teardown''] ?m = (?m\<lparr>kernel := (None, no_view)\<rparr>, [], Some (Removed nft_name))"
    unfolding daemon_process_def v by (simp add: t)
  have "option_value (daemon_config ?vals) ''teardown'' = Some (BoolVal True)" by (simp add: t option_value_def)
  moreover have "\<not> ipt_verdict no_view q" for q by (simp add: ipt_verdict_def no_view_def)
  ultimately have "\<not> kernel_drops (real_verdict fst snd) (None, no_view) q" for q
    using what_teardown_leaves [OF full_nft full_ipt full_apart full_list p [unfolded full_host_def host_with_def] _ v] d by auto
  then show ?thesis unfolding p by simp
qed

text \<open>C12: removal behind the running daemon. While the daemon serves, another process ends with
  \<open>-teardown\<close> and status 0, which the README offers; over \<open>iptables\<close>, all commands that it ran have worked,
  which its status does not say. From then on a request or refresh that succeeds has the kernel
  drop again what the lists ask for (and what rules of the other backend drop, which were there before);
  except that as long as the lists ask for exactly what
  was in force before, the daemon finds nothing to do, and nothing else is dropped.\<close>

theorem removed_firewall_comes_back:
  assumes "nft_kernel nft rules" "ipt_kernel ipt view" "tools_apart nft ipt rules view" "iteration_order ord" "list_doc list_out view"
    and "engine_inv (real_inv rules view kind) eng" "fst (be_state eng) = Some st"
    and "kernel m = snd (be_state eng)" "detected io = Some kind"
    and "daemon_process (real_host nft ipt list_out ord db u) io args m = (m', rs, Some e)" "exit_status e = 0"
    and "parse_flags daemon_formal [] args = FlagsSet vals rest" "option_value (daemon_config vals) ''teardown'' = Some (BoolVal True)"
    and "kind = IptablesIpset \<Longrightarrow> \<forall>(prog, args, ok) \<in> set (teardown_outcomes ipt list_out (kernel m)). ok"
    and "cfg = daemon_cfg (host_backends (real_host nft ipt list_out ord db u) kind) ord c" "\<forall>q \<in> set (qs @ [q]). request_ok q"
    and "run_request cfg q (run_requests cfg qs (eng\<lparr>be_state := (Some st, kernel m')\<rparr>)) = (eng', None)"
  shows "(\<forall>p. kernel_drops (real_verdict rules view) (snd (be_state eng')) p \<longleftrightarrow>
      desired (disk_of eng') (cache eng') p \<or> real_verdict rules view (other_kind kind) (kernel m) p) \<or>
    (\<forall>p. kernel_drops (real_verdict rules view) (snd (be_state eng')) p \<longleftrightarrow> real_verdict rules view (other_kind kind) (kernel m) p) \<and>
      desired (disk_of eng') (cache eng') = blocked st"
  using assms by (rule removal_is_repaired)

theorem removed_firewall_comes_back_witness:
  "nft_verdict (fst (snd (be_state (fst (run_request full_nft_cfg ex_global_add
      (ex_running\<lparr>be_state := (Some no_state, kernel (fst (daemon_process full_host (ex_process [] []) [''-teardown'']
        \<lparr>disks = (\<lambda>dir. empty_disk), kernel = ex_kernel\<rparr>)))\<rparr>)))))) \<lparr>skuid = 1000, is_v6 = False, daddr = ''10.0.0.5''\<rparr>"
proof -
  let ?io = "ex_process [] []" and ?m = "\<lparr>disks = (\<lambda>dir. empty_disk), kernel = ex_kernel\<rparr>"
  let ?vals = "[(''teardown'', BoolVal True)]" and ?p = "\<lparr>skuid = 1000, is_v6 = False, daddr = ''10.0.0.5''\<rparr>"
  have v: "parse_flags daemon_formal [] [''-teardown''] = FlagsSet ?vals []" by code_simp
  have t: "daemon_config ?vals = (default_config, True)" by (simp add: daemon_config_def)
  have d: "detected ?io = Some Nftables" by (simp add: ex_process_def)
  have "daemon_run full_host ?io default_config True ?m = (?m\<lparr>kernel := (None, no_view)\<rparr>, [], Some (Removed nft_name))"
    using ex_teardown by (simp add: daemon_run_def Let_def d full_host_nft nft_ops_def)
  then have p: "daemon_process full_host ?io [''-teardown''] ?m = (?m\<lparr>kernel := (None, no_view)\<rparr>, [], Some (Removed nft_name))"
    unfolding daemon_process_def v by (simp add: t)
  let ?eng = "ex_running\<lparr>be_state := (Some no_state, (None, no_view))\<rparr>"
  obtain eng' r where x: "run_request full_nft_cfg ex_global_add ?eng = (eng', r)"
    by (cases "run_request full_nft_cfg ex_global_add ?eng")
  have c: "r = None \<and> global_list (disk_of eng') = \<lparr>Domains = [], IPs = [''10.0.0.5'']\<rparr> \<and> \<not> ipt_verdict (snd (snd (be_state eng'))) ?p"
    using ex_after_removal unfolding x prod.case .
  then have r: "run_request full_nft_cfg ex_global_add (run_requests full_nft_cfg [] ?eng) = (eng', None)"
    and g: "global_list (disk_of eng') = \<lparr>Domains = [], IPs = [''10.0.0.5'']\<rparr>"
    using x by (simp_all only: run_requests.simps simp_thms)
  have w: "\<not> ipt_verdict no_view q" for q by (simp add: ipt_verdict_def no_view_def)
  have "iteration_order id" by (simp add: iteration_order_def)
  moreover have "request_ok ex_global_add" using ex_world_ok by (simp add: scope_ok_def temp_digits_def no_faults_def is_digit_def)
  ultimately have "(\<forall>q. kernel_drops (real_verdict fst snd) (snd (be_state eng')) q \<longleftrightarrow> desired (disk_of eng') (cache eng') q) \<or>
      (\<forall>q. \<not> kernel_drops (real_verdict fst snd) (snd (be_state eng')) q) \<and> desired (disk_of eng') (cache eng') = blocked no_state"
    using removed_firewall_comes_back [OF full_nft full_ipt full_apart _ full_list ex_running_inv _ _ d p [unfolded full_host_def host_with_def] _ v,
        of no_state full_nft_cfg default_config "[]" ex_global_add eng'] r
    by (simp add: ex_running_def ex_kernel_def t w option_value_def)
  moreover have "desired (disk_of eng') (cache eng') ?p"
  proof -
    have "parse_ip ''10.0.0.5'' \<noteq> None \<and> to4 (the (parse_ip ''10.0.0.5'')) \<noteq> None \<and> ip_string (the (parse_ip ''10.0.0.5'')) = ''10.0.0.5''"
      by code_simp
    then show ?thesis by (auto simp: desired_def listed_def g)
  qed
  moreover have "\<not> blocked no_state ?p"
    by (simp add: no_state_def blocked_def family_of_def empty_ipset_def ipset_at_def)
  ultimately have "nft_verdict (fst (snd (be_state eng'))) ?p" using c by (auto simp: kernel_drops_def)
  then show ?thesis using x by (simp add: p)
qed

text \<open>C13: the command line of the daemon. Flags may be written with one dash or two, with their
  value after \<open>=\<close>, as the next argument if they are not boolean, or bare if they are boolean and true, in any order and
  repeatedly: each sets its field, the last one counts, and everything else is as \<open>DefaultConfig\<close> has it.
  The flags end with the arguments, at \<open>--\<close>, or at the first argument that is none; what follows is left over and
  sets nothing. So the argument \<open>false\<close> after \<open>-teardown\<close> is not its value, but ends the flags.\<close>

theorem flags_configure_the_daemon:
  assumes "\<forall>(f, n, v) \<in> set fs. \<exists>k. map_of daemon_formal n = Some k \<and> set_flag k v = Inr (val n v) \<and> form_fits k f v"
    and "flags_stop rest"
  shows "\<exists>vals. parse_flags daemon_formal [] (concat (map write_flag fs) @ rest) = FlagsSet vals (left_over rest) \<and>
    (\<forall>n. option_value (daemon_config vals) n =
      (case map_of (rev (map (\<lambda>(f, n, v). (n, val n v)) fs)) n of
         None \<Rightarrow> option_value (default_config, False) n | Some x \<Rightarrow> Some x)) \<and>
    fixed_fields (fst (daemon_config vals)) = fixed_fields default_config"
  using assms by (rule written_flags_configure)

theorem flags_configure_the_daemon_witness:
  "\<exists>vals. parse_flags daemon_formal []
      [''--store'', ''/srv/lists'', ''-refresh=1h30m'', ''-resolve-concurrency'', ''0x10'', ''-teardown'', ''false'', ''-store'', ''/x'']
      = FlagsSet vals [''false'', ''-store'', ''/x''] \<and>
     refresh_every (fst (daemon_config vals)) = 90 * minute \<and> snd (daemon_config vals) \<and>
     cfg_store_dir (fst (daemon_config vals)) = ''/srv/lists''"
proof -
  let ?val = "\<lambda>n v. case set_flag (the (map_of daemon_formal n)) v of Inr x \<Rightarrow> x | Inl e \<Rightarrow> BoolVal False"
  let ?rest = "[''false'', ''-store'', ''/x'']"
  have "\<forall>(f, n, v) \<in> set ex_flags. \<exists>k. map_of daemon_formal n = Some k \<and> set_flag k v = Inr (?val n v) \<and> form_fits k f v"
  proof -
    have "set_flag StringFlag ''/srv/lists'' = Inr (StringVal ''/srv/lists'')" "set_flag DurationFlag ''1h30m'' = Inr (DurationVal (90 * minute))"
      "set_flag IntFlag ''0x10'' = Inr (IntVal 16)" "set_flag BoolFlag ''true'' = Inr (BoolVal True)" by code_simp+
    then show ?thesis by (simp add: ex_flags_def daemon_formal_def)
  qed
  moreover have "flags_stop ?rest" by code_simp
  ultimately obtain vals where v: "parse_flags daemon_formal [] (concat (map write_flag ex_flags) @ ?rest) = FlagsSet vals (left_over ?rest)"
    "\<forall>n. option_value (daemon_config vals) n =
      (case map_of (rev (map (\<lambda>(f, n, v). (n, ?val n v)) ex_flags)) n of
         None \<Rightarrow> option_value (default_config, False) n | Some x \<Rightarrow> Some x)"
    using flags_configure_the_daemon [of ex_flags ?val ?rest] by blast
  have "map_of (rev (map (\<lambda>(f, n, v). (n, ?val n v)) ex_flags)) ''refresh'' = Some (DurationVal (90 * minute))"
    "map_of (rev (map (\<lambda>(f, n, v). (n, ?val n v)) ex_flags)) ''teardown'' = Some (BoolVal True)"
    "map_of (rev (map (\<lambda>(f, n, v). (n, ?val n v)) ex_flags)) ''store'' = Some (StringVal ''/srv/lists'')" by code_simp+
  then have "refresh_every (fst (daemon_config vals)) = 90 * minute" "snd (daemon_config vals)"
    "cfg_store_dir (fst (daemon_config vals)) = ''/srv/lists''"
    using v(2) [THEN spec, of "''refresh''"] v(2) [THEN spec, of "''teardown''"] v(2) [THEN spec, of "''store''"]
    by (cases "daemon_config vals"; simp add: option_value_def)+
  moreover have "concat (map write_flag ex_flags) @ ?rest =
      [''--store'', ''/srv/lists'', ''-refresh=1h30m'', ''-resolve-concurrency'', ''0x10'', ''-teardown'', ''false'', ''-store'', ''/x'']"
    "left_over ?rest = ?rest" by code_simp+
  ultimately show ?thesis using v(1) by auto
qed

section \<open>Concurrent requests\<close>

text \<open>C14: no concurrent change is lost. Connections and the refresh loop may interleave in any
  way, also so that one changes a list between the loads of another; when all are through,
  nobody was told that applying failed and the refresh loop has logged nothing, the kernel drops
  exactly the packets that the lists on disk and the cache ask for.\<close>

theorem no_change_is_lost:
  assumes "engine_parts cfg verdict be_inv" "eng_cfg sv = cfg" "engine_inv be_inv (srv_engine s0)"
    and "\<forall>c \<in> set cs. conn_ok sv c" "\<forall>w \<in> set ws. world_ok w"
    and "\<forall>x. verdict (be_state (srv_engine s0)) x \<longleftrightarrow> desired (disk_of (srv_engine s0)) (cache (srv_engine s0)) x"
    and "run_daemon sv is (serving cs ws s0) = s" "daemon_done s" "no_complaint s"
  shows "verdict (be_state (eng_of (dm_sys s))) x \<longleftrightarrow> desired (disk_of (eng_of (dm_sys s))) (cache (eng_of (dm_sys s))) x"
proof -
  note i = engine_parts.serving_daemon_inv [OF assms(1,3-6)]
  note engine_parts.run_daemon_inv [OF assms(1) i assms(2), of "is"]
  then show ?thesis using engine_parts.daemon_enforces [OF assms(1) _ assms(8,9)] assms(7) by simp
qed

theorem no_change_is_lost_witness:
  "\<forall>x. blocked (be_state (eng_of (dm_sys busy_end))) x =
     desired (disk_of (eng_of (dm_sys busy_end))) (cache (eng_of (dm_sys busy_end))) x"
proof
  fix x
  have "daemon_done busy_end" "no_complaint busy_end" using busy_went_well by (simp_all add: went_well_def)
  then show "blocked (be_state (eng_of (dm_sys busy_end))) x =
      desired (disk_of (eng_of (dm_sys busy_end))) (cache (eng_of (dm_sys busy_end))) x"
    using no_change_is_lost [OF fake.engine_parts_axioms ex_service_cfg _ busy_conns_ok _ _ busy_run]
      ex_world_ok ex_start_right ex_engine_inv by (simp add: new_server_def)
qed

text \<open>C15: an answer can be relied on. Once a connection that adds an address was answered with
  OK, the address is on the list on disk, whatever else is going on, and as long as no call of
  the engine fails the kernel drops the packets to it, also while other calls read, resolve and
  apply; provided that nobody asks for its removal.\<close>

theorem acknowledged_address_stays:
  assumes "engine_parts cfg verdict be_inv" "eng_cfg sv = cfg" "engine_inv be_inv (srv_engine s0)"
    and "\<forall>c \<in> set cs. conn_ok sv c" "\<forall>w \<in> set ws. world_ok w"
    and "\<forall>x. verdict (be_state (srv_engine s0)) x \<longleftrightarrow> desired (disk_of (srv_engine s0)) (cache (srv_engine s0)) x"
    and "\<forall>c \<in> set cs. \<forall>t' ds as. asks sv c (Change False t' ds as) \<longrightarrow> \<not> (same_scope t' t \<and> a \<in> set as)"
    and "run_daemon sv is (serving cs ws s0) = s"
    and "j < length cs" "asks sv (cs ! j) (Change True t domains ips)" "a \<in> set ips" "a \<noteq> []" "scope_ok t"
    and "dm_gos s ! Suc j = Serve c (Answered resp)" "resp_ok resp"
  shows "has_ip (disk_of (eng_of (dm_sys s))) t a \<and>
    (\<not> some_failed (dm_sys s) \<longrightarrow> concerns t a p \<longrightarrow> verdict (be_state (eng_of (dm_sys s))) p)"
proof -
  have none: "jobs_in sv (\<lambda>q. \<not> removes q t a) (serving cs ws s0)"
  proof (rule serving_jobs_in)
    fix c add t' ds as assume "c \<in> set cs" "asks sv c (Change add t' ds as)"
    then show "\<not> removes (change_job c add t' ds as) t a" using assms(7) by (cases add) (auto simp: change_job_def)
  qed simp
  have "Suc j < length (dm_gos s)" "c = cs ! j"
    using run_daemon_conn [OF serving_conn [OF assms(9)], of sv "is" ws s0] assms(8,14) by auto
  then have "Serve (cs ! j) (Answered resp) \<in> set (dm_gos s)" using assms(14) by (metis nth_mem)
  moreover have "procs (dm_sys (serving cs ws s0)) = []" by (simp add: serving_def start_sys_def)
  ultimately show ?thesis
    using engine_parts.acknowledged_address [OF assms(1) engine_parts.serving_daemon_inv [OF assms(1,3-6)] assms(2) _ none assms(8)]
      assms(10-13,15) by blast
qed

theorem acknowledged_address_stays_witness:
  "blocked (be_state (eng_of (dm_sys busy_end))) \<lparr>skuid = 7, is_v6 = False, daddr = ''10.0.0.5''\<rparr>"
proof -
  let ?p = "\<lparr>skuid = 7, is_v6 = False, daddr = ''10.0.0.5''\<rparr>"
  have len: "1 < length busy_conns" by (simp add: busy_conns_def)
  obtain resp where r: "dm_gos busy_end ! Suc 1 = Serve (busy_conns ! 1) (Answered resp)" "resp_ok resp"
    by (rule busy_answer [OF len])
  have asks: "asks ex_service (busy_conns ! 1) (Change True GlobalScope [] [''10.0.0.5''])" by code_simp
  have "concerns GlobalScope ''10.0.0.5'' ?p" by code_simp
  moreover have "\<not> some_failed (dm_sys busy_end)" using busy_went_well by (simp add: went_well_def)
  moreover have "scope_ok GlobalScope" by (simp add: scope_ok_def)
  ultimately show ?thesis
    using acknowledged_address_stays [OF fake.engine_parts_axioms ex_service_cfg _ busy_conns_ok _ _ _ busy_run len asks,
        of "''10.0.0.5''" "busy_conns ! 1" resp ?p] r busy_no_removal ex_world_ok ex_start_right ex_engine_inv
    by (simp add: new_server_def)
qed

text \<open>C16: what a user is shown was stored. Whatever else is going on, the answer to \<open>show\<close> for a
  normal user has its own list as it was at one moment while the goroutine of the connection was at work on the
  request (had read it, and not answered it), and the global list as it was at a later such moment.\<close>

theorem shown_lists_were_stored:
  assumes "j < length cs" "asks sv (cs ! j) (ShowUser u)" "run_daemon sv is (serving cs ws s0) = s"
    and "dm_gos s ! Suc j = Serve c (Answered resp)" "resp_ok resp"
  shows "stored_views sv (serving cs ws s0) is (Suc j) u (resp_views resp)"
  using show_was_stored [OF serving_conn [OF assms(1)] assms(2)] assms(3-5) by blast

theorem shown_lists_were_stored_witness:
  "\<exists>resp. dm_gos busy_end ! 3 = Serve (busy_conns ! 2) (Answered resp) \<and>
     stored_views ex_service busy_start busy_turns 3 1000 (resp_views resp)"
proof -
  have len: "2 < length busy_conns" by (simp add: busy_conns_def)
  obtain resp where r: "dm_gos busy_end ! Suc 2 = Serve (busy_conns ! 2) (Answered resp)" "resp_ok resp"
    by (rule busy_answer [OF len])
  have "asks ex_service (busy_conns ! 2) (ShowUser 1000)" by code_simp
  from shown_lists_were_stored [OF len this busy_run r] show ?thesis using r by (auto simp: busy_start_def numeral_3_eq_3)
qed

text \<open>C17: the locks are safe and live. In every state that a schedule can reach at most one
  call of the engine is in a critical section; unless all connections are answered and the
  refresh loop has handled its ticks some goroutine can move; and no schedule makes progress
  forever.\<close>

theorem schedules_make_progress:
  assumes "run_daemon sv is (serving cs ws s0) = s"
  shows "(\<forall>i j. i < length (procs (dm_sys s)) \<and> j < length (procs (dm_sys s)) \<and>
      in_section (phase (procs (dm_sys s) ! i)) \<and> in_section (phase (procs (dm_sys s) ! j)) \<longrightarrow> i = j) \<and>
    (\<not> daemon_done s \<longrightarrow> (\<exists>i s'. daemon_step sv i s = Some s')) \<and>
    wfp (\<lambda>s' s. \<exists>i. daemon_step sv i s = Some s')"
proof -
  have r: "reached sv s" using run_reached [OF serving_reached] assms by blast
  then have "exclusive (dm_sys s)" by (simp add: reached_def)
  then have "\<forall>i j. i < length (procs (dm_sys s)) \<and> j < length (procs (dm_sys s)) \<and>
      in_section (phase (procs (dm_sys s) ! i)) \<and> in_section (phase (procs (dm_sys s) ! j)) \<longrightarrow> i = j"
    unfolding exclusive_def by (metis option.inject)
  then show ?thesis using daemon_progress [OF r] daemon_schedules_end by blast
qed

theorem schedules_make_progress_witness:
  "\<exists>i s'. daemon_step ex_service i (run_daemon ex_service [1, 2, 1, 2, 1] busy_start) = Some s'"
proof -
  let ?s = "run_daemon ex_service [1, 2, 1, 2, 1] busy_start"
  have "\<not> daemon_done ?s" by code_simp
  then show ?thesis using schedules_make_progress [of ex_service "[1, 2, 1, 2, 1]" busy_conns "[ex_world]" _ ?s]
    by (simp add: busy_start_def)
qed

text \<open>C18: the daemon that works on one connection after the other is the daemon whose goroutines
  are not interrupted: if only the goroutine of a connection is scheduled, and the lock is free,
  it ends with the answer of \<open>serve\<close>, and leaves engine and limiter as \<open>serve\<close> does.\<close>

theorem connections_alone_are_served:
  assumes "i < length (dm_gos s)" "dm_gos s ! i = Serve c Arrived" "mu (dm_sys s) = None"
    and "serve handler_table sv c \<lparr>srv_limiter = dm_limiter s, srv_engine = eng_of (dm_sys s)\<rparr> = (s', resp)"
  shows "\<exists>n sys. run_daemon sv (replicate n i) s =
      \<lparr>dm_sys = sys, dm_limiter = srv_limiter s', dm_gos = (dm_gos s)[i := Serve c (Answered resp)]\<rparr> \<and>
    eng_of sys = srv_engine s' \<and> mu sys = None"
  using alone_is_served [OF assms] unfolding by_itself_def conn_at_def by blast

theorem connections_alone_are_served_witness:
  "\<exists>n sys. run_daemon ex_service (replicate n 1) busy_start =
      \<lparr>dm_sys = sys, dm_limiter = srv_limiter (fst (serve handler_table ex_service (hd busy_conns) (new_server default_config ex_engine))),
       dm_gos = (dm_gos busy_start)[1 := Serve (hd busy_conns)
         (Answered (snd (serve handler_table ex_service (hd busy_conns) (new_server default_config ex_engine))))]\<rparr>"
proof -
  let ?s = "new_server default_config ex_engine"
  have "1 < length (dm_gos busy_start)" "dm_gos busy_start ! 1 = Serve (hd busy_conns) Arrived" "mu (dm_sys busy_start) = None"
    by (simp_all add: busy_start_def serving_def busy_conns_def start_sys_def)
  moreover have "\<lparr>srv_limiter = dm_limiter busy_start, srv_engine = eng_of (dm_sys busy_start)\<rparr> = ?s"
    by (simp add: busy_start_def serving_def start_sys_def)
  ultimately show ?thesis
    using connections_alone_are_served [of 1 busy_start "hd busy_conns" ex_service] by (metis prod.collapse)
qed

section \<open>Fail-safe behaviour\<close>

text \<open>C19: a failing name service unblocks nothing. If the lookup of a listed domain fails, the
  addresses that the cache has for it are still dropped after the rebuild, for everyone or for
  the user whose list has the domain.\<close>

theorem failed_lookups_keep_blocking:
  assumes "engine_parts cfg verdict be_inv" "engine_inv be_inv eng" "world_ok w"
    and "rebuild cfg w mode eng = (eng', None)"
    and "d \<in> set (Domains (global_list (disk_of eng))) \<or>
      go_int (skuid p) \<and> d \<in> set (Domains (user_list (disk_of eng) (skuid p)))"
    and "answers w d = Inl e" "map_of (cache eng) d = Some entry" "daddr p \<in> set (cached_addrs (is_v6 p) (res entry))"
  shows "verdict (be_state eng') p"
  using assms by (rule engine_parts.failed_lookup_ok)

theorem failed_lookups_keep_blocking_witness:
  "blocked (be_state (fst (rebuild fake_cfg down_world ResolveAll cached_engine)))
     \<lparr>skuid = 7, is_v6 = True, daddr = ''2001:db8::1''\<rparr>"
proof (rule failed_lookups_keep_blocking [OF fake.engine_parts_axioms cached_engine_inv, where d = "''ads.example.net''"
    and entry = "\<lparr>res = \<lparr>RV4 = [''192.0.2.1''], RV6 = [''2001:db8::1'']\<rparr>, expires = 0\<rparr>"])
  show "rebuild fake_cfg down_world ResolveAll cached_engine =
      (fst (rebuild fake_cfg down_world ResolveAll cached_engine), None)"
  proof (rule prod_eqI)
    show "snd (rebuild fake_cfg down_world ResolveAll cached_engine) =
        snd (fst (rebuild fake_cfg down_world ResolveAll cached_engine), None :: engine_error option)" by code_simp
  qed simp
  show "''ads.example.net'' \<in> set (Domains (global_list (disk_of cached_engine))) \<or>
      go_int (skuid \<lparr>skuid = 7, is_v6 = True, daddr = ''2001:db8::1''\<rparr>) \<and>
      ''ads.example.net'' \<in> set (Domains (user_list (disk_of cached_engine)
        (skuid \<lparr>skuid = 7, is_v6 = True, daddr = ''2001:db8::1''\<rparr>)))"
    by (rule disjI1) code_simp
qed (simp_all add: world_ok_def down_world_def cached_engine_def cached_addrs_def)

section \<open>The engine and the resolver\<close>

text \<open>C20: the cache after a rebuild that could read the store: domains nobody lists are gone;
  a domain that had to be resolved has its new addresses and a fresh expiry, or keeps its
  previous addresses if the lookup failed; every other domain is untouched.\<close>

theorem cache_after_rebuild:
  assumes "rebuild cfg w mode eng = (eng', r)" "iteration_order (map_order cfg)" "wf_disk (disk_of eng)"
    and "\<forall>e. r \<noteq> Some (StoreFailed e)"
  shows "map_of (cache eng') d = expected_cache cfg w mode eng d"
  using assms by (rule rebuild_cache)

theorem cache_after_rebuild_witness:
  "map_of (cache (fst (rebuild fake_cfg ex_world ResolveAll listed_engine))) ''ads.example.net''
   = expected_cache fake_cfg ex_world ResolveAll listed_engine ''ads.example.net''"
proof -
  obtain eng' r where r: "rebuild fake_cfg ex_world ResolveAll listed_engine = (eng', r)"
    by (cases "rebuild fake_cfg ex_world ResolveAll listed_engine")
  have "snd (rebuild fake_cfg ex_world ResolveAll listed_engine) = None" by code_simp
  then have "\<forall>e. r \<noteq> Some (StoreFailed e)" by (simp add: r)
  moreover have "wf_disk (disk_of listed_engine)" by (simp add: listed_engine_def wf_listed_disk)
  moreover have "iteration_order (map_order fake_cfg)" by (simp add: fake_cfg_def)
  ultimately have "map_of (cache eng') d = expected_cache fake_cfg ex_world ResolveAll listed_engine d" for d
    using cache_after_rebuild [OF r] by blast
  then show ?thesis by (simp add: r)
qed

text \<open>C21: concurrent resolution is schedule independent. Whatever the interleaving of feeder,
  workers and collecting loop, the maps that \<open>ResolveMany\<close> returns are those of looking up the
  domains one after the other.\<close>

theorem resolution_is_schedule_independent:
  assumes "distinct domains" "pool_run f (start_pool domains c) p" "closed p"
    and "resolve_many f domains = (rs, fs)"
  shows "results p = map_of rs \<and> failures p = map_of fs"
  using concurrent_resolution(1) [OF assms(1,2)] assms(3,4) by blast

theorem resolution_is_schedule_independent_witness:
  "\<exists>p. pool_run ex_answers (start_pool [''t.example.org'', ''x.y''] 2) p \<and> closed p \<and>
     results p ''t.example.org'' = Some \<lparr>RV4 = [''192.0.2.7''], RV6 = []\<rparr> \<and>
     failures p ''x.y'' = Some ''no such host''"
proof -
  let ?ds = "[''t.example.org'', ''x.y'']"
  have d: "distinct ?ds" by simp
  have "pool_run ex_answers (start_pool ?ds 2) (start_pool ?ds 2)" by (simp add: pool_run_def)
  then obtain p where p: "pool_run ex_answers (start_pool ?ds 2) p" "closed p"
    using pool_completes [OF d] by blast
  obtain rs fs where m: "resolve_many ex_answers ?ds = (rs, fs)" by (cases "resolve_many ex_answers ?ds")
  have "map_of rs ''t.example.org'' = Some \<lparr>RV4 = [''192.0.2.7''], RV6 = []\<rparr>" "map_of fs ''x.y'' = Some ''no such host''"
    unfolding resolve_many_maps [OF m] by (simp_all add: ex_answers_def)
  then show ?thesis using resolution_is_schedule_independent [OF d p m] p by auto
qed

text \<open>C22: concurrent resolution ends. No schedule runs forever, and every reachable state can
  be continued to the end, where the result channel is closed.\<close>

theorem resolution_ends:
  assumes "distinct domains" "pool_run f (start_pool domains c) p"
  shows "wfp (\<lambda>p' p. pool_step f p p') \<and> (\<exists>p'. pool_run f p p' \<and> closed p')"
  using pool_terminates pool_completes [OF assms] by blast

theorem resolution_ends_witness:
  "\<exists>p. pool_run ex_answers (start_pool [''a.b''] 4) p \<and> closed p"
  using resolution_ends [of "[''a.b'']" ex_answers 4 "start_pool [''a.b''] 4"] by (auto simp: pool_run_def)

text \<open>C23: a lookup result lists the addresses of each family, sorted and without repetition,
  in the text that parsing and printing leave alone.\<close>

theorem resolved_addresses:
  assumes "lookup d = Inr ips" "resolve lookup d = Inr r" "list_all wf_ip ips"
  shows "set (RV4 r) = {ip_string (the (to4 ip)) | ip. ip \<in> set ips \<and> to4 ip \<noteq> None} \<and>
    set (RV6 r) = {ip_string ip | ip. ip \<in> set ips \<and> to4 ip = None} \<and> wf_resolved r"
  using resolve_spec [OF assms(1,2)] assms(3) by blast

theorem resolved_addresses_witness:
  "\<exists>r. resolve (\<lambda>d. Inr [[10, 0, 0, 5], [10, 0, 0, 5]] :: string + ip list) ''a.b'' = Inr r \<and> set (RV4 r) = {''10.0.0.5''}"
proof -
  let ?l = "\<lambda>d. Inr [[10, 0, 0, 5], [10, 0, 0, 5]] :: string + ip list"
  obtain r where r: "resolve ?l ''a.b'' = Inr r" by (simp add: resolve_def Let_def)
  have s: "ip_string [10, 0, 0, 5] = ''10.0.0.5''" "to4 [10, 0, 0, 5] = Some [10, 0, 0, 5]" by code_simp+
  have "list_all wf_ip [[10, 0, 0, 5], [10, 0, 0, 5]]" by (simp add: wf_ip_def)
  from resolved_addresses [of ?l "''a.b''", OF refl r this] show ?thesis using r s by auto
qed

section \<open>Persistence\<close>

text \<open>C24: saving is atomic at every system call. On each disk that a save passes through,
  each scope reads either as before the save or, for the saved scope on the last disk of a
  successful save, as the tidied new list; so a crash never leaves a torn list.\<close>

theorem save_crash_atomic:
  assumes "save_locked io d s bl = (ds, r)" "x \<in> set (d # ds)"
  shows "content x t = content d t \<or> (r = None \<and> same_scope s t \<and> x = last ds \<and> content x t = Some (tidy bl))"
  using assms by (rule save_atomic)

theorem save_crash_atomic_witness:
  "content (final_disk empty_disk (fst (save_locked no_faults empty_disk (UserScope 7) ex_list)))
     (UserScope 8) = Some empty_blocklist"
proof -
  obtain ds r where s: "save_locked no_faults empty_disk (UserScope 7) ex_list = (ds, r)"
    by (cases "save_locked no_faults empty_disk (UserScope 7) ex_list")
  have "content (final_disk empty_disk ds) (UserScope 8) = content empty_disk (UserScope 8)"
    using save_crash_atomic [OF s final_disk_in, of "UserScope 8"] by simp
  then show ?thesis by (simp add: s content_empty_disk)
qed

text \<open>C25: the bytes in the files. Whatever bytes the directory holds, a change that passed validation does to
  the lists it is read as what it does in the model of documents, with the same answer; and whenever
  the process dies, also between two pieces of the write, every list is the old or the new one.\<close>

theorem bytes_hold_the_lists:
  assumes "normalize_and_validate u raw_domains raw_ips = Inr (ds, as)" "fn \<in> {add_fn ds as, remove_fn ds as}"
    and "byte_mutate io ks d s fn = (xs, q)"
  shows "mutate io (read_disk d) s fn = (read_disk (last (d # xs)), q) \<and>
    (\<forall>x \<in> set (d # xs). \<forall>t. content (read_disk x) t \<in> {content (read_disk d) t, content (read_disk (last (d # xs))) t})"
  using assms by (rule accepted_change_on_bytes)

theorem bytes_hold_the_lists_witness:
  "mutate no_faults (read_disk ex_bytes) (UserScope 9) (add_fn [''ads.example.net''] []) =
     (read_disk (last (ex_bytes # fst (byte_mutate no_faults [3, 40] ex_bytes (UserScope 9) (add_fn [''ads.example.net''] [])))),
      snd (byte_mutate no_faults [3, 40] ex_bytes (UserScope 9) (add_fn [''ads.example.net''] []))) \<and>
   byte_load no_faults (last (ex_bytes # fst (byte_mutate no_faults [3, 40] ex_bytes (UserScope 9) (add_fn [''ads.example.net''] []))))
     (UserScope 9) = Inr \<lparr>Domains = [''ads.example.net''], IPs = []\<rparr>"
proof
  have "normalize_and_validate id [''Ads.example.net.''] [] = Inr ([''ads.example.net''], [])" by code_simp
  from bytes_hold_the_lists [OF this, of "add_fn [''ads.example.net''] []" no_faults "[3, 40]" ex_bytes "UserScope 9"]
  show "mutate no_faults (read_disk ex_bytes) (UserScope 9) (add_fn [''ads.example.net''] []) =
     (read_disk (last (ex_bytes # fst (byte_mutate no_faults [3, 40] ex_bytes (UserScope 9) (add_fn [''ads.example.net''] [])))),
      snd (byte_mutate no_faults [3, 40] ex_bytes (UserScope 9) (add_fn [''ads.example.net''] [])))"
    by (metis insertI1 prod.collapse)
qed code_simp

section \<open>The firewall backends\<close>

text \<open>C26: \<open>nftables\<close>: applying a state either succeeds, and then the ruleset treats every
  packet as the state asks, or fails, and then the ruleset is as before and the next
  application is a full rebuild. This is for every \<open>nft\<close> that behaves as documented, from
  every ruleset, on the full and on the incremental path.\<close>

theorem nft_apply_is_atomic:
  assumes "nft_kernel tool rules" "nft_inv rules b" "wf_state st" "nft_apply tool b st = (b', r)"
  shows "(r = None \<and> fst b' = Some st \<and> (\<forall>p. nft_verdict (rules (snd b')) p \<longleftrightarrow> blocked st p)) \<or>
    (r = Some NftFailed \<and> fst b' = None \<and> rules (snd b') = rules (snd b))"
  using nft_kernel.apply_cases [OF assms]
proof (elim disjE conjE, goal_cases)
  case 1
  then show ?case using table_of_verdict [OF assms(3)] by (simp only: simp_thms)
qed simp

theorem nft_apply_is_atomic_witness:
  "\<exists>b' r. nft_apply (nft_reference (\<lambda>_. False)) (None, None) ex_state = (b', r) \<and>
     (r = None \<longrightarrow> (\<forall>p. nft_verdict (snd b') p \<longleftrightarrow> blocked ex_state p))"
proof -
  obtain b' r where a: "nft_apply (nft_reference (\<lambda>_. False)) (None, None) ex_state = (b', r)"
    by (cases "nft_apply (nft_reference (\<lambda>_. False)) (None, None) ex_state")
  have "nft_inv (\<lambda>tb. tb) (None, None)" by (simp add: nft_inv_def)
  from nft_apply_is_atomic [OF nft_ref.nft_kernel_axioms this wf_ex_state a] show ?thesis using a by auto
qed

text \<open>C27: the incremental script does the same as a full rebuild, when the set of users has
  not changed.\<close>

theorem nft_delta_equals_rebuild:
  assumes "wf_state prev" "wf_state next" "same_uids (PerUser prev) (PerUser next)"
  shows "exec_script (build_delta prev next) (Some (table_of prev)) = exec_script (build_script next) tb"
  using exec_build_delta [OF assms] exec_build_script [OF assms(2)] by simp

theorem nft_delta_equals_rebuild_witness:
  "exec_script (build_delta no_state (no_state\<lparr>GlobalSet := \<lparr>V4 = [''10.0.0.5''], V6 = []\<rparr>\<rparr>)) (Some (table_of no_state))
   = exec_script (build_script (no_state\<lparr>GlobalSet := \<lparr>V4 = [''10.0.0.5''], V6 = []\<rparr>\<rparr>)) None"
proof (rule nft_delta_equals_rebuild [OF wf_no_state])
  show "wf_state (no_state\<lparr>GlobalSet := \<lparr>V4 = [''10.0.0.5''], V6 = []\<rparr>\<rparr>)" by code_simp
qed (simp add: no_state_def same_uids_def)

text \<open>C28: \<open>iptables\<close> and \<open>ipset\<close>: an application that succeeds makes the kernel treat every
  packet as the state asks, and remembers that state; one that fails forgets what it knew, so
  that the next one is a full one.\<close>

theorem iptables_apply_enforces:
  assumes "ipt_kernel tool view" "ipt_inv view b" "wf_state st" "ipt_apply tool b st = (b', r)"
  shows "(r = None \<and> fst b' = Some st \<and> (\<forall>p. ipt_verdict (view (snd b')) p \<longleftrightarrow> blocked st p)) \<or>
    (r \<noteq> None \<and> fst b' = None)"
  using ipt_kernel.ipt_apply_cases [OF assms] matches_verdict by blast

theorem iptables_apply_enforces_witness:
  "\<exists>b' r. ipt_apply good_ipt (None, no_view) ex_state = (b', r) \<and>
     (r = None \<longrightarrow> (\<forall>p. ipt_verdict (snd b') p \<longleftrightarrow> blocked ex_state p))"
proof -
  obtain b' r where a: "ipt_apply good_ipt (None, no_view) ex_state = (b', r)"
    by (cases "ipt_apply good_ipt (None, no_view) ex_state")
  have "ipt_inv (\<lambda>w. w) (None, no_view)" by (simp add: ipt_inv_def)
  from iptables_apply_enforces [OF ipt_ref.ipt_kernel_axioms this wf_ex_state a] show ?thesis using a by auto
qed

text \<open>C29: how far a failed full application can get: each set in use holds its old or its new
  addresses (or was just created), never a mixture, and each chain its old or its new rules.\<close>

theorem iptables_full_apply_old_or_new:
  assumes "ipt_kernel tool view" "wf_state st" "full_apply tool st (sorted_uids (PerUser st)) k = (k', r)"
    and "live (ipt_specs st) m"
  shows "old_or_new (ipt_specs st) (view k) (view k') m \<and>
    (chain (view k') v = chain (view k) v \<or> chain (view k') v = Some (chain_rules v (sorted_uids (PerUser st))))"
  using ipt_kernel.full_cases(2,3) [OF assms(1-3)] assms(4) by blast

theorem iptables_full_apply_old_or_new_witness:
  "old_or_new (ipt_specs ex_state) no_view
     (fst (full_apply good_ipt ex_state (sorted_uids (PerUser ex_state)) no_view)) (set_name family4 ''g'')"
proof -
  let ?x = "full_apply good_ipt ex_state (sorted_uids (PerUser ex_state)) no_view"
  have "live (ipt_specs ex_state) (set_name family4 ''g'')" by (auto simp: live_def)
  from iptables_full_apply_old_or_new [OF ipt_ref.ipt_kernel_axioms wf_ex_state _ this, of _ no_view "fst ?x" "snd ?x"]
  show ?thesis by simp
qed

text \<open>C30: when a full application can get through. The payload for the sets can be executed exactly if
  each set it needs, and its temporary set, is free or of the kind that the source creates, no
  temporary set is referenced, no address is the zero address, and no list is longer than the 65536 entries that a
  set holds, since the source does not ask for more. Then every set has the addresses of its list, and the payloads for the
  chains can be executed in any state of the chains and give the rules of the state. Otherwise every application
  over tools that behave as documented fails.\<close>

theorem iptables_full_apply_feasible:
  assumes "wf_state st" "us = sorted_uids (PerUser st)"
  shows "(exec_sets False (refresh_all_sets st us) w \<noteq> None \<longleftrightarrow> (\<forall>s \<in> set (ipt_specs st). refreshable w s)) \<and>
    (\<forall>w'. exec_sets False (refresh_all_sets st us) w = Some w' \<longrightarrow> has_sets w' st \<and>
       (\<forall>v c. exec_lines w' (chain_lines (fam v) us) c = Some (Some (chain_rules v us)))) \<and>
    (\<forall>(tool :: 'k tool) view k. ipt_kernel tool view \<and> \<not> (\<forall>s \<in> set (ipt_specs st). refreshable (view k) s) \<longrightarrow>
       snd (full_apply tool st us k) \<noteq> None)"
proof (intro conjI allI impI)
  show "exec_sets False (refresh_all_sets st us) w \<noteq> None \<longleftrightarrow> (\<forall>s \<in> set (ipt_specs st). refreshable w s)"
    unfolding assms(2) by (rule refresh_all_iff [OF assms(1)])
next
  fix w' v c
  assume "exec_sets False (refresh_all_sets st us) w = Some w'"
  then show "has_sets w' st" "exec_lines w' (chain_lines (fam v) us) c = Some (Some (chain_rules v us))"
    unfolding assms(2) by (rule refresh_then_chains [OF assms(1)])+
next
  fix tool :: "'k tool" and view k
  assume "ipt_kernel tool view \<and> \<not> (\<forall>s \<in> set (ipt_specs st). refreshable (view k) s)"
  then have "ipt_kernel tool view" "\<exists>s \<in> set (ipt_specs st). \<not> refreshable (view k) s" by simp_all
  then show "snd (full_apply tool st us k) \<noteq> None"
    unfolding assms(2) by (rule ipt_kernel.unrefreshable_fails [OF _ assms(1)])
qed

theorem iptables_full_apply_feasible_witness:
  "\<exists>w'. exec_sets False (refresh_all_sets ex_state [1000]) no_view = Some w' \<and> has_sets w' ex_state \<and>
     exec_lines w' (chain_lines family6 [1000]) None = Some (Some (chain_rules True [1000]))"
proof -
  have us: "[1000] = sorted_uids (PerUser ex_state)" by code_simp
  have "exec_sets False (refresh_all_sets ex_state [1000]) no_view \<noteq> None" by code_simp
  then obtain w' where "exec_sets False (refresh_all_sets ex_state [1000]) no_view = Some w'" by blast
  then show ?thesis using iptables_full_apply_feasible [OF wf_ex_state us, where w = no_view] by (auto simp: fam_names)
qed

text \<open>C31: teardown of the \<open>iptables\<close> backend, from the outcomes of the commands it runs, which it does not look
  at. It has forgotten what it applied; the chain of a family is gone if its removal worked, empty if only the
  flush did, and as it was otherwise; the sets that are gone are those whose destruction worked. It asks for the
  destruction of sets with the prefix of ours only, and, unless it reports an error, of all of them.
  So if all commands worked nothing of ours is left, and whatever failed, a packet that is dropped
  afterwards was dropped before, and the flush of the chain of its family has failed.\<close>

theorem iptables_teardown:
  assumes "ipt_kernel tool view" "list_doc list_out view" "ipt_teardown tool list_out b = (b', r)"
    and "os = teardown_outcomes tool list_out (snd b)"
  shows "fst b' = None \<and> chain (view (snd b')) v = removed_chain v os (chain (view (snd b)) v) \<and>
    jumps (view (snd b')) v = removed_jumps v os (jumps (view (snd b)) v) \<and>
    ipsets (view (snd b')) m = (if (''ipset'', [''destroy'', m], True) \<in> set os then None else ipsets (view (snd b)) m) \<and>
    (\<forall>ok. (''ipset'', [''destroy'', m], ok) \<in> set os \<longrightarrow> has_prefix m set_prefix) \<and>
    (r = None \<and> has_prefix m set_prefix \<and> ipsets (view (snd b)) m \<noteq> None \<longrightarrow> (\<exists>ok. (''ipset'', [''destroy'', m], ok) \<in> set os)) \<and>
    (r = None \<and> (\<forall>(prog, args, ok) \<in> set os. ok) \<longrightarrow>
       chain (view (snd b')) v = None \<and> (has_prefix m set_prefix \<longrightarrow> ipsets (view (snd b')) m = None)) \<and>
    (ipt_verdict (view (snd b')) p \<longrightarrow>
       ipt_verdict (view (snd b)) p \<and> (cmd (fam (is_v6 p)), [''-F'', ip_chain], False) \<in> set os)"
proof -
  note effect = ipt_kernel.teardown_effect [OF assms(1-3)] and verdict = ipt_kernel.teardown_verdict [OF assms(1-3)]
  have all: "chain (view (snd b')) v = None \<and> (has_prefix m set_prefix \<longrightarrow> ipsets (view (snd b')) m = None)"
    if "r = None \<and> (\<forall>(prog, args, ok) \<in> set (teardown_outcomes tool list_out (snd b)). ok)"
    using ipt_kernel.teardown_all_succeeded [OF assms(1,2)] assms(3) that by blast
  show ?thesis unfolding assms(4) using effect(1) effect(3,4) [where v = v] effect(5-7) [where m = m] verdict all by blast
qed

theorem iptables_teardown_witness:
  "\<exists>b' r. ipt_teardown good_ipt (list_reference [set_name family4 ''g'', ''mine'']) (Some no_state, foreign_view) = (b', r) \<and>
     ipsets (snd b') ''mine'' = ipsets foreign_view ''mine'' \<and> (\<forall>p. ipt_verdict (snd b') p \<longrightarrow> ipt_verdict foreign_view p)"
proof -
  let ?list = "list_reference [set_name family4 ''g'', ''mine'']"
  let ?os = "teardown_outcomes good_ipt ?list foreign_view"
  obtain b' r where x: "ipt_teardown good_ipt ?list (Some no_state, foreign_view) = (b', r)"
    by (cases "ipt_teardown good_ipt ?list (Some no_state, foreign_view)")
  note t = iptables_teardown [OF ipt_ref.ipt_kernel_axioms list_reference_doc x refl]
  have "\<not> has_prefix ''mine'' set_prefix" by code_simp
  then have "(''ipset'', [''destroy'', ''mine''], True) \<notin> set ?os" using t [where m = "''mine''"] by (metis snd_conv)
  then have "ipsets (snd b') ''mine'' = ipsets foreign_view ''mine''" using t [where m = "''mine''"] by (metis snd_conv)
  moreover have "ipt_verdict (snd b') p \<longrightarrow> ipt_verdict foreign_view p" for p using t [where p = p] by (metis snd_conv)
  ultimately show ?thesis using x by blast
qed

text \<open>C32: what is fed to the firewall tools has one meaning: the text of an \<open>nft\<close> script, of an
  \<open>ipset restore\<close> payload and of an \<open>iptables-restore\<close> payload can be read back.\<close>

theorem tool_input_roundtrip:
  assumes "list_all wf_cmd ns" "list_all wf_ipset_cmd cs" "list_all wf_line ls"
  shows "parse_script (script_text ns) = Some ns \<and> parse_lines parse_ipset (ipset_payload cs) = Some cs \<and>
    parse_chain_payload (chain_payload ls) = Some ls"
  using parse_script_text [OF assms(1)] parse_ipset_payload [OF assms(2)] parse_chain_text [OF assms(3)] by blast

theorem tool_input_roundtrip_witness:
  "parse_script (script_text (build_script ex_state)) = Some (build_script ex_state) \<and>
   parse_chain_payload (chain_payload (chain_lines family4 [1000])) = Some (chain_lines family4 [1000])"
  using tool_input_roundtrip [OF wf_build_script [OF wf_ex_state], of "[]" "chain_lines family4 [1000]"]
  by (simp add: chain_lines_def go_int_def)

section \<open>The client and the wire\<close>

text \<open>C33: the wire is transparent. What the client reads is the daemon's answer to what the
  client meant, with text that is not UTF-8 repaired in both directions, and the daemon is in
  the state this answer leads to.\<close>

theorem wire_is_transparent:
  assumes "go_int (req_version req)"
    and "serve handler_table sv (c\<lparr>conn_request := Some (fix_request req)\<rparr>) s = (s', resp)"
  shows "send (daemon_socket sv printable c s) socket req = Some (fix_reply (reply_of printable resp)) \<and>
    fst (serve_bytes handler_table sv printable c (encode_request req) s) = s'"
  using ask_daemon [OF assms] by blast

theorem wire_is_transparent_witness:
  "send (daemon_socket ex_service (\<lambda>_. True) (ex_conn alice add_request) (new_server default_config ex_engine)) ''x''
     (add_request\<lparr>req_action := [CHR 0xFF]\<rparr>) =
   Some (fix_reply (reply_of (\<lambda>_. True) (error_response (UnknownAction replacement))))"
proof -
  let ?q = "add_request\<lparr>req_action := [CHR 0xFF]\<rparr>"
  let ?r = "serve handler_table ex_service (ex_conn alice add_request\<lparr>conn_request := Some (fix_request ?q)\<rparr>)
      (new_server default_config ex_engine)"
  have "snd ?r = error_response (UnknownAction replacement)" by code_simp
  moreover have "go_int (req_version ?q)" by (simp add: add_request_def go_int_def)
  ultimately show ?thesis
    using wire_is_transparent [where req = ?q and sv = ex_service and c = "ex_conn alice add_request"
        and s = "new_server default_config ex_engine" and printable = "\<lambda>_. True" and socket = "''x''",
        OF _ prod.collapse [symmetric]] by simp
qed

section \<open>Validation\<close>

text \<open>C34: \<open>ValidateDomain\<close> accepts exactly the host names: at least two labels of 1 to 63
  lower-case letters, digits and hyphens, no hyphen at either end, 253 bytes in all, and not the
  text of an address.\<close>

theorem domains_are_host_names: "validate_domain d = None \<longleftrightarrow> hostname d"
  by (rule validate_domain_hostname)

section \<open>Serving\<close>

text \<open>C35: refusing is free. Every answer of the daemon with an error other than that applying
  failed leaves store, cache and firewall as they were.\<close>

theorem refused_requests_are_free:
  assumes "dispatch handler_table sv call caller req eng = (eng', resp)"
    and "resp_error resp = Some e" "e \<noteq> ApplyFailed"
  shows "eng' = eng"
  using assms by (rule daemon.dispatcher.refusal_is_free)

theorem refused_requests_are_free_witness:
  "fst (dispatch handler_table ex_service ex_call alice (add_request\<lparr>target_user := ''global''\<rparr>) ex_engine) = ex_engine"
proof -
  let ?q = "add_request\<lparr>target_user := ''global''\<rparr>"
  have "resp_error (snd (dispatch handler_table ex_service ex_call alice ?q ex_engine)) = Some NotYourList" by code_simp
  then show ?thesis using refused_requests_are_free [OF surjective_pairing] by blast
qed

text \<open>C36: users do not notice each other. If the connections of all other normal users are
  taken out of a run of the server, the lists a user is subject to and its standing with the
  rate limiter are the same at the end, and it gets the same answers on the way, except where
  in one of the runs a change could not be applied to the shared firewall.\<close>

theorem others_are_invisible:
  assumes "same_view u s t" "\<forall>c \<in> set cs. temp_digits (call_io (conn_call c))" "u \<noteq> 0"
    and "serve_all handler_table sv cs s = (s', rs)"
    and "serve_all handler_table sv (filter (\<lambda>c. \<not> of_others u c) cs) t = (t', qs)"
  shows "same_view u s' t' \<and> list_all2 agree (answers_to u cs rs) (answers_to u (filter (\<lambda>c. \<not> of_others u c) cs) qs)"
  using assms by (rule purge_others)

theorem others_are_invisible_witness:
  "same_view 1000
     (fst (serve_all handler_table ex_service [ex_conn (alice\<lparr>cred_uid := 1001\<rparr>) add_request, ex_conn alice add_request]
        (new_server default_config ex_engine)))
     (fst (serve_all handler_table ex_service [ex_conn alice add_request] (new_server default_config ex_engine)))"
proof -
  let ?s = "new_server default_config ex_engine"
  let ?cs = "[ex_conn (alice\<lparr>cred_uid := 1001\<rparr>) add_request, ex_conn alice add_request]"
  have same: "same_view 1000 ?s ?s"
    using wf_empty_disk by (simp add: same_view_def same_lists_def new_server_def ex_engine_def)
  have io: "\<forall>c \<in> set ?cs. temp_digits (call_io (conn_call c))"
    using ex_call_ok by (simp add: ex_conn_def call_ok_def)
  have less: "filter (\<lambda>c. \<not> of_others 1000 c) ?cs = [ex_conn alice add_request]"
    by (simp add: of_others_def ex_conn_def alice_def)
  have "(1000 :: 32 word) \<noteq> 0" by simp
  from others_are_invisible [OF same io this prod.collapse [symmetric] prod.collapse [symmetric], of ex_service]
  show ?thesis unfolding less by blast
qed

text \<open>C37: root is shown every list: the global one first, then the lists of users in increasing
  order of uid, and no user whose list is not empty is missing.\<close>

theorem root_sees_every_list:
  assumes "wf_disk d" "show_as_root db io d = resp" "resp_ok resp"
  shows "\<exists>us. strict_sorted us \<and>
    resp_views resp = \<lparr>view_scope = ''global (all users)'', read_only = False,
        view_domains = Domains (global_list d), view_ips = IPs (global_list d)\<rparr> #
      map (\<lambda>u. \<lparr>view_scope = scope_label_with_name db u, read_only = False,
        view_domains = Domains (user_list d u), view_ips = IPs (user_list d u)\<rparr>) us \<and>
    (\<forall>u. go_int u \<and> u \<notin> set us \<longrightarrow> user_list d u = empty_blocklist)"
  using assms by (rule show_root_views)

theorem root_sees_every_list_witness:
  "\<exists>v vs. resp_views (show_as_root no_users no_faults listed_disk) = v # vs \<and> view_domains v = [''ads.example.net'']"
proof -
  have ok: "resp_ok (show_as_root no_users no_faults listed_disk)" by code_simp
  have g: "Domains (global_list listed_disk) = [''ads.example.net'']" by code_simp
  show ?thesis using root_sees_every_list [OF wf_listed_disk refl ok] g by fastforce
qed

text \<open>C38: within any stretch of time as long as the window at most twice the limit of a user's
  connections come through the limiter, whatever the server has seen before and however the
  goroutines interleave.\<close>

theorem dispatch_is_rate_limited:
  assumes "\<forall>c \<in> set cs. t0 \<le> conn_time c \<and> conn_time c \<le> t0 + rate_window cfg" "0 \<le> rate_window cfg" "1 \<le> rate_limit cfg"
    and "limiter_ok cfg (srv_limiter s0)" "run_daemon sv is (serving cs ws s0) = s"
  shows "admitted_count u s \<le> 2 * nat (rate_limit cfg)"
  using assms by (rule admitted_bound)

theorem dispatch_is_rate_limited_witness:
  "admitted_count 1000 (run_daemon ex_service (map Suc [0..<500])
     (serving (replicate 500 (ex_conn alice add_request)) [] (new_server default_config ex_engine))) \<le> 40"
proof -
  let ?s = "run_daemon ex_service (map Suc [0..<500])
     (serving (replicate 500 (ex_conn alice add_request)) [] (new_server default_config ex_engine))"
  have "limiter_ok default_config (srv_limiter (new_server default_config ex_engine))" by (rule limiter_ok_new)
  then have "admitted_count 1000 ?s \<le> 2 * nat (rate_limit default_config)"
    using dispatch_is_rate_limited [of "replicate 500 (ex_conn alice add_request)" 0 default_config, OF _ _ _ _ refl]
    by (simp add: ex_conn_def default_config_def second_def)
  then show ?thesis by (simp add: default_config_def)
qed

text \<open>C39: the log is complete. No list changes without a line that names the caller's uid and the
  list, and every answer that refers the user to the log has a line there that says what
  failed; refusals for other reasons leave no line, so they cannot flood the log, but for the refusal of a
  connection whose peer the system cannot identify, which leaves exactly one that says so.\<close>

theorem log_is_complete:
  assumes "serve handler_table sv c s = (s', resp)"
  shows "(content (disk_of (srv_engine s')) x \<noteq> content (disk_of (srv_engine s)) x \<longrightarrow>
      (\<exists>cred. conn_cred c = Some cred \<and> (\<exists>l \<in> set (serve_lines t sv c s). is_audit (uid_int cred) x l))) \<and>
    (resp_error resp = Some ApplyFailed \<longrightarrow> (\<exists>l \<in> set (serve_lines t sv c s). has_failed l)) \<and>
    (\<forall>e. resp_error resp = Some e \<and> e \<noteq> ApplyFailed \<longrightarrow>
       serve_lines t sv c s = (if conn_cred c = None then [''peer cred error: '' @ cred_text t] else []))"
  using serve_is_logged [OF assms, where t = t] by blast

theorem log_is_complete_witness:
  "\<exists>l \<in> set (serve_lines ex_texts ex_service (ex_conn alice add_request) (new_server default_config ex_engine)).
     is_audit 1000 (UserScope 1000) l"
proof -
  let ?s = "new_server default_config ex_engine" and ?c = "ex_conn alice add_request"
  obtain s' resp where r: "serve handler_table ex_service ?c ?s = (s', resp)"
    by (cases "serve handler_table ex_service ?c ?s")
  have "content (disk_of (srv_engine (fst (serve handler_table ex_service ?c ?s)))) (UserScope 1000) \<noteq>
      content (disk_of (srv_engine ?s)) (UserScope 1000)" by code_simp
  then have "content (disk_of (srv_engine s')) (UserScope 1000) \<noteq> content (disk_of (srv_engine ?s)) (UserScope 1000)"
    by (simp only: r fst_conv) simp
  then obtain cred where "conn_cred ?c = Some cred" "\<exists>l \<in> set (serve_lines ex_texts ex_service ?c ?s). is_audit (uid_int cred) (UserScope 1000) l"
    using log_is_complete [OF r] by blast
  moreover have "uid_int alice = 1000" by code_simp
  ultimately show ?thesis by (simp add: ex_conn_def)
qed

text \<open>C40: the log cannot be forged. The line of a change is one line, whatever was sent, and it
  has one meaning: two such lines are equal only if they tell of the same caller, action, list,
  entries and counts.\<close>

theorem log_cannot_be_forged:
  assumes "normalize_and_validate u domains ips = Inr (ds, as)" "normalize_and_validate u domains' ips' = Inr (ds', as')"
  shows "CHR 0x0A \<notin> set (audit_ok uid add s ds as n m) \<and>
    (audit_ok uid add s ds as n m = audit_ok uid' add' s' ds' as' n' m' \<longrightarrow>
       uid = uid' \<and> add = add' \<and> same_scope s s' \<and> ds = ds' \<and> as = as' \<and> n = n' \<and> m = m')"
  using audit_one_line [OF validated_entries [OF assms(1)]]
    audit_line_inj [OF _ validated_entries [OF assms(1)] validated_entries [OF assms(2)]] by blast

theorem log_cannot_be_forged_witness:
  "CHR 0x0A \<notin> set (audit_ok 1000 True (UserScope 1000) [''ads.example.net''] [''10.0.0.5''] 1 1) \<and>
   audit_ok 1000 True (UserScope 1000) [''ads.example.net''] [''10.0.0.5''] 1 1 \<noteq>
   audit_ok 0 True (UserScope 1000) [''ads.example.net''] [''10.0.0.5''] 1 1"
proof -
  have "normalize_and_validate id [''ads.example.net''] [''10.0.0.5''] = Inr ([''ads.example.net''], [''10.0.0.5''])" by code_simp
  from log_cannot_be_forged [OF this this, of 1000 True "UserScope 1000" 1 1 0 True "UserScope 1000" 1 1] show ?thesis by simp
qed

section \<open>Where the code surprises\<close>

text \<open>
  The user part of a URL is cut at the last \<open>@\<close> of the whole text, also when that stands in the
  path; what follows is then taken for the host.
\<close>

lemma at_sign_in_path:
  "normalize_domain id ''https://medium.com/@jane.doe'' = ''jane.doe''" "validate_domain ''jane.doe'' = None"
  by code_simp+

text \<open>
  A \<open>hash:ip\<close> set cannot hold the zero address, which validation accepts (and name servers give
  for blocked names), and no more than 65536 addresses. While a list has either, every full application fails, for everyone.
\<close>

lemma zero_address_fails:
  assumes "ipt_kernel tool view" "wf_state st" "''0.0.0.0'' \<in> set (V4 (GlobalSet st))"
  shows "snd (full_apply tool st (sorted_uids (PerUser st)) k) \<noteq> None"
proof -
  have "\<not> refreshable (view k) (set_name family4 ''g'', False, V4 (GlobalSet st))"
    using assms(3) by (auto simp: refreshable_def list_all_iff storable_def)
  then show ?thesis using ipt_kernel.unrefreshable_fails [OF assms(1,2)] global_specs(1) by blast
qed

lemma long_list_fails:
  assumes "ipt_kernel tool view" "wf_state st" "65536 < length (V4 (GlobalSet st))"
  shows "snd (full_apply tool st (sorted_uids (PerUser st)) k) \<noteq> None"
proof -
  have "\<not> refreshable (view k) (set_name family4 ''g'', False, V4 (GlobalSet st))" using assms(3) by (simp add: refreshable_def)
  then show ?thesis using ipt_kernel.unrefreshable_fails [OF assms(1,2)] global_specs(1) by blast
qed

lemma zero_address_accepted: "canon_ip ''0.0.0.0'' = Inr ''0.0.0.0''"
  by code_simp

text \<open>
  Nothing removes the rules of the other backend. After a process that found \<open>iptables\<close>, one that finds \<open>nft\<close> and has nothing to
  block serves all the same, and one with \<open>-teardown\<close> ends with status 0; both leave the old rules in force.
\<close>

lemma backend_switch_leaves_rules:
  "case daemon_process serving_host (ex_process [] []) [''-store=/tmp''] after_iptables of (m, rs, e) \<Rightarrow>
     e = None \<and> kernel_drops (real_verdict fst snd) (kernel m) \<lparr>skuid = 1000, is_v6 = False, daddr = ''10.0.0.5''\<rparr> \<and>
     \<not> nft_verdict (fst (kernel m)) \<lparr>skuid = 1000, is_v6 = False, daddr = ''10.0.0.5''\<rparr>"
  by code_simp

lemma backend_switch_teardown:
  "case daemon_process serving_host (ex_process [] []) [''-teardown''] after_iptables of (m, rs, e) \<Rightarrow>
     e = Some (Removed nft_name) \<and> exit_status (Removed nft_name) = 0 \<and>
     kernel_drops (real_verdict fst snd) (kernel m) \<lparr>skuid = 1000, is_v6 = False, daddr = ''10.0.0.5''\<rparr>"
  by code_simp

text \<open>The sets of a user who is no longer in the state stay in the kernel as they were.\<close>

lemma sets_of_former_users_stay:
  assumes "ipt_kernel tool view" "wf_state st" "full_apply tool st (sorted_uids (PerUser st)) k = (k', r)"
    and "live (ipt_specs st) m" "m \<notin> fst ` set (ipt_specs st)"
  shows "ipsets (view k') m = ipsets (view k) m"
  using ipt_kernel.full_cases(2) [OF assms(1-4)] assms(5) by (force simp: old_or_new_def)

text \<open>The refresh loop looks up a name again only after its entry has expired, however often it runs.\<close>

lemma refresh_waits_for_expiry:
  "map_of c d = Some e \<Longrightarrow> now \<le> expires e \<Longrightarrow> \<not> needs_resolving now ResolveExpired c d"
  by (simp add: needs_resolving_def)

text \<open>A name that is given twice in one request is reported as already present.\<close>

lemma repetition_reported_as_present:
  "add_fn [''a.b'', ''a.b''] [] empty_blocklist = Inr (\<lparr>Domains = [''a.b''], IPs = []\<rparr>, 1, 0)"
  "mutate_message True (UserScope 7) 1 0 2 0 = ''1 domain(s) and 0 IP(s) added to user:7 blocklist (1 already present)''"
  by code_simp+

end
